(* ===== verification/Prelude.thy ===== *)
theory Prelude
  imports Complex_Main "HOL-Library.Char_ord" "HOL-Library.List_Lexorder" "HOL-Library.Multiset"
begin

text \<open>
  The vocabulary every component shares: Go's 64-bit integers with their wrap-around,
  \<open>time.Time\<close> and \<open>time.Duration\<close>, Go maps as association lists, the structured log
  lines, and the lemma collections the component proofs are driven by.

  A Go \<open>string\<close> is a sequence of bytes, as is an Isabelle \<open>string\<close> (a list of 8-bit
  characters).  A Go \<open>int\<close> or \<open>time.Duration\<close> is a 64-bit two's complement integer: it
  is an \<open>int\<close> here, and every operation of the source that can leave the 64-bit range is
  wrapped by \<open>wrap64\<close>.  A \<open>time.Time\<close> is the number of nanoseconds since Go's zero time
  (1 January of year 1), so that \<open>IsZero\<close> is equality with 0.
\<close>

named_theorems go_defs \<open>unfolding rules of small library operations\<close>
named_theorems go_bounds \<open>range facts of machine integers and times\<close>

section \<open>Integers of 64 bits\<close>

type_synonym gint = int
type_synonym duration = int
type_synonym gtime = int

definition int64_min :: int where "int64_min = - (2 ^ 63)"
definition int64_max :: int where "int64_max = 2 ^ 63 - 1"

definition in_int64 :: "int \<Rightarrow> bool" where
  "in_int64 n \<longleftrightarrow> int64_min \<le> n \<and> n \<le> int64_max"

definition wrap64 :: "int \<Rightarrow> int" where
  "wrap64 n = (n + 2 ^ 63) mod 2 ^ 64 - 2 ^ 63"

lemmas int64_defs = int64_min_def int64_max_def in_int64_def

lemma wrap64_range [go_bounds]: "in_int64 (wrap64 n)"
proof -
  have "0 \<le> (n + 2 ^ 63) mod 2 ^ 64" by (rule pos_mod_sign) simp
  moreover have "(n + 2 ^ 63) mod 2 ^ 64 < 2 ^ 64" by (rule pos_mod_bound) simp
  ultimately show ?thesis by (simp add: wrap64_def int64_defs)
qed

lemma wrap64_id [simp]: "in_int64 n \<Longrightarrow> wrap64 n = n"
  by (simp add: wrap64_def int64_defs)

lemma in_int64_between: "in_int64 a \<Longrightarrow> in_int64 b \<Longrightarrow> a \<le> n \<Longrightarrow> n \<le> b \<Longrightarrow> in_int64 n"
  by (simp add: int64_defs)

lemma in_int64_small [go_bounds]: "0 \<le> n \<Longrightarrow> n \<le> 2 ^ 62 \<Longrightarrow> in_int64 n"
  by (simp add: int64_defs)

section \<open>Times and durations\<close>

definition nanosecond :: duration where "nanosecond = 1"
definition millisecond :: duration where "millisecond = 1000000"
definition second :: duration where "second = 1000000000"
definition minute :: duration where "minute = 60000000000"

lemmas duration_units = nanosecond_def millisecond_def second_def minute_def

text \<open>\<open>Time.Add\<close>, \<open>Time.Before\<close>, \<open>Time.IsZero\<close>, and \<open>Time.Sub\<close>, which saturates.\<close>

definition time_add :: "gtime \<Rightarrow> duration \<Rightarrow> gtime" where
  [go_defs]: "time_add t d = t + d"

definition time_before :: "gtime \<Rightarrow> gtime \<Rightarrow> bool" where
  [go_defs]: "time_before t u \<longleftrightarrow> t < u"

definition time_after :: "gtime \<Rightarrow> gtime \<Rightarrow> bool" where
  [go_defs]: "time_after t u \<longleftrightarrow> u < t"

definition time_is_zero :: "gtime \<Rightarrow> bool" where
  [go_defs]: "time_is_zero t \<longleftrightarrow> t = 0"

definition time_sub :: "gtime \<Rightarrow> gtime \<Rightarrow> duration" where
  "time_sub t u = max int64_min (min int64_max (t - u))"

lemma time_sub_range [go_bounds]: "in_int64 (time_sub t u)"
  by (simp add: time_sub_def int64_defs)

lemma time_sub_le_iff: "int64_min \<le> d \<Longrightarrow> d < int64_max \<Longrightarrow> time_sub t u \<le> d \<longleftrightarrow> t - u \<le> d"
  by (auto simp: time_sub_def int64_defs)

lemma time_sub_self [simp]: "time_sub t t = 0"
  by (simp add: time_sub_def int64_defs)

lemma time_sub_mono: "u \<le> v \<Longrightarrow> time_sub t v \<le> time_sub t u"
  by (auto simp: time_sub_def)

section \<open>Lists and maps\<close>

text \<open>
  A Go map is an association list with distinct keys, in the order a \<open>range\<close> loop visits
  it.  Go leaves that order open, so a statement about a map is about every such list.
\<close>

type_synonym 'v gmap = "(string \<times> 'v) list"

abbreviation gmap_ok :: "('k \<times> 'v) list \<Rightarrow> bool" where
  "gmap_ok m \<equiv> distinct (map fst m)"

fun gmap_put :: "'k \<Rightarrow> 'v \<Rightarrow> ('k \<times> 'v) list \<Rightarrow> ('k \<times> 'v) list" where
  "gmap_put k v [] = [(k, v)]"
| "gmap_put k v ((k', v') # m) = (if k = k' then (k, v) # m else (k', v') # gmap_put k v m)"

definition gmap_del :: "'k \<Rightarrow> ('k \<times> 'v) list \<Rightarrow> ('k \<times> 'v) list" where
  "gmap_del k m = filter (\<lambda>kv. fst kv \<noteq> k) m"

lemma map_of_gmap_put [simp]: "map_of (gmap_put k v m) = (map_of m)(k \<mapsto> v)"
  by (induction m) (auto simp: fun_eq_iff)

lemma fst_set_gmap_put [simp]: "fst ` set (gmap_put k v m) = insert k (fst ` set m)"
  by (simp flip: dom_map_of_conv_image_fst)

lemma gmap_ok_put: "gmap_ok m \<Longrightarrow> gmap_ok (gmap_put k v m)"
  by (induction m) (auto simp flip: image_set)

lemma map_of_gmap_del: "map_of (gmap_del k m) = (map_of m)(k := None)"
  by (induction m) (auto simp: gmap_del_def fun_eq_iff)

lemma fst_set_gmap_del [simp]: "fst ` set (gmap_del k m) = fst ` set m - {k}"
  by (auto simp: gmap_del_def)

lemma gmap_ok_del: "gmap_ok m \<Longrightarrow> gmap_ok (gmap_del k m)"
  by (induction m) (auto simp: gmap_del_def)

lemma map_fst_gmap_put: "map_of m k = Some v \<Longrightarrow> map fst (gmap_put k v' m) = map fst m"
  by (induction m) (auto split: if_splits)

lemma map_of_map_const: "map_of (map (\<lambda>(k, v). (k, c)) m) k = Some d \<Longrightarrow> d = c"
  by (induction m) (auto split: if_splits)

text \<open>Two orders of the same map: the same sorted keys and the same lookups.\<close>

lemma sort_keys_perm: "mset m = mset m' \<Longrightarrow> sort (map fst m) = sort (map fst m')"
  by (metis mset_map properties_for_sort mset_sort sorted_sort)

lemma map_of_perm: "gmap_ok m \<Longrightarrow> mset m = mset m' \<Longrightarrow> map_of m = map_of m'"
  by (metis map_of_inject_set mset_eq_imp_distinct_iff mset_eq_setD mset_map)

lemma find_append: "find P (xs @ ys) = (case find P xs of None \<Rightarrow> find P ys | Some x \<Rightarrow> Some x)"
  by (induction xs) auto

lemma length_filter_update:
  "i < length xs \<Longrightarrow> int (length (filter P (xs[i := y]))) =
     int (length (filter P xs)) - of_bool (P (xs ! i)) + of_bool (P y)"
proof (induction xs arbitrary: i)
  case (Cons x xs)
  show ?case
  proof (cases i)
    case (Suc j)
    with Cons.IH [of j] Cons.prems show ?thesis by simp
  qed simp
qed simp

text \<open>A loop that puts one entry per element, under distinct keys.\<close>

lemma find_key: "distinct (map key xs) \<Longrightarrow> x \<in> set xs \<Longrightarrow> find (\<lambda>y. key y = key x) xs = Some x"
  by (induction xs) force+

lemma map_of_fold_key:
  "distinct (map key xs) \<Longrightarrow>
   map_of (fold (\<lambda>x m. gmap_put (key x) (f x) m) xs m) k =
     (case find (\<lambda>x. key x = k) xs of Some x \<Rightarrow> Some (f x) | None \<Rightarrow> map_of m k)"
proof (induction xs arbitrary: m)
  case (Cons x xs)
  have "key y \<noteq> key x" if "y \<in> set xs" for y
    using Cons.prems imageI [OF that, of key] by auto
  then have "key x = k \<Longrightarrow> find (\<lambda>x. key x = k) xs = None"
    unfolding find_None_iff by auto
  with Cons show ?case by (auto split: option.split)
qed simp

text \<open>The last \<open>n\<close> elements: Go's \<open>xs[len(xs)-n:]\<close> for \<open>n \<le> len(xs)\<close>.\<close>

definition last_n :: "nat \<Rightarrow> 'a list \<Rightarrow> 'a list" where
  "last_n n xs = drop (length xs - n) xs"

lemma length_last_n [simp]: "length (last_n n xs) = min n (length xs)"
  by (simp add: last_n_def)

lemma last_n_all [simp]: "length xs \<le> n \<Longrightarrow> last_n n xs = xs"
  by (simp add: last_n_def)

lemma set_last_n: "set (last_n n xs) \<subseteq> set xs"
  by (auto simp: last_n_def dest: in_set_dropD)

lemma last_n_snoc: "0 < n \<Longrightarrow> last_n n (xs @ [x]) = last_n (n - 1) xs @ [x]"
  by (cases "n \<le> length xs") (auto simp: last_n_def Suc_diff_le not_le)

lemma last_n_last_n: "last_n m (last_n n xs) = last_n (min m n) xs"
proof (cases "n \<le> length xs")
  case True
  then have "length xs - n + (n - m) = length xs - min m n" by arith
  with True show ?thesis by (simp add: last_n_def add.commute)
next
  case False
  then show ?thesis by (simp add: last_n_def min_def)
qed

lemma sorted_last_n: "sorted xs \<Longrightarrow> sorted (last_n n xs)"
  by (simp add: last_n_def sorted_wrt_drop)

section \<open>Structured log lines\<close>

text \<open>
  One \<open>slog\<close> call: its level, its message and its key-value attributes, unrendered.
\<close>

datatype level = Debug | Info | Warn | Error

datatype attr = AStr string | AInt gint | ADur duration | ATime gtime | AErr string

type_synonym attrs = "(string \<times> attr) list"
type_synonym logline = "level \<times> string \<times> attrs"

text \<open>\<open>slog.Level\<close> is an ordered integer; the default threshold compares with it.\<close>

fun level_value :: "level \<Rightarrow> int" where
  "level_value Debug = -4"
| "level_value Info = 0"
| "level_value Warn = 4"
| "level_value Error = 8"

lemma level_value_inj: "level_value a = level_value b \<Longrightarrow> a = b"
  by (cases a; cases b) auto

instantiation level :: linorder
begin

definition less_eq_level :: "level \<Rightarrow> level \<Rightarrow> bool" where
  "less_eq_level a b \<longleftrightarrow> level_value a \<le> level_value b"

definition less_level :: "level \<Rightarrow> level \<Rightarrow> bool" where
  "less_level a b \<longleftrightarrow> level_value a < level_value b"

instance
  by standard (auto simp: less_eq_level_def less_level_def dest: level_value_inj)

end

end
