(* ===== verification/GoStrings.thy ===== *)
theory GoStrings
  imports Prelude
begin

text \<open>
  The functions of Go's \<open>strings\<close>, \<open>bytes\<close> and \<open>strconv\<close> packages the program calls,
  on byte strings: prefixes, \<open>TrimSpace\<close> (with every Unicode white-space rune in its
  UTF-8 encoding), \<open>ToUpper\<close>, \<open>Atoi\<close> and \<open>Itoa\<close> with the 64-bit range check, and the
  decoding step of a \<open>range\<close> loop over a string.
\<close>

abbreviation byte :: "char \<Rightarrow> nat" where "byte c \<equiv> of_char c"

section \<open>Prefixes\<close>

definition has_prefix :: "string \<Rightarrow> string \<Rightarrow> bool" where
  "has_prefix s p \<longleftrightarrow> take (length p) s = p"

text \<open>\<open>strings.CutPrefix\<close>: the rest and whether the prefix was there.\<close>

definition cut_prefix :: "string \<Rightarrow> string \<Rightarrow> string \<times> bool" where
  "cut_prefix s p = (if has_prefix s p then (drop (length p) s, True) else (s, False))"

definition trim_prefix :: "string \<Rightarrow> string \<Rightarrow> string" where
  "trim_prefix s p = (if has_prefix s p then drop (length p) s else s)"

definition trim_suffix :: "string \<Rightarrow> string \<Rightarrow> string" where
  "trim_suffix s p = (if has_prefix (rev s) (rev p) then take (length s - length p) s else s)"

lemma has_prefix_iff: "has_prefix s p \<longleftrightarrow> (\<exists>r. s = p @ r)"
  by (metis append_eq_conv_conj append_take_drop_id has_prefix_def)

lemma has_prefix_append [simp]: "has_prefix (p @ s) p"
  by (auto simp: has_prefix_iff)

lemma has_prefix_Nil [simp]: "has_prefix s []"
  by (simp add: has_prefix_def)

lemma cut_prefix_append [simp]: "cut_prefix (p @ s) p = (s, True)"
  by (simp add: cut_prefix_def)

lemma cut_prefix_found_iff: "cut_prefix s p = (r, True) \<longleftrightarrow> s = p @ r"
  by (auto simp: cut_prefix_def has_prefix_iff)

lemma cut_prefix_missing_iff: "cut_prefix s p = (r, False) \<longleftrightarrow> \<not> has_prefix s p \<and> r = s"
  by (auto simp: cut_prefix_def)

section \<open>White space\<close>

text \<open>The runes of \<open>unicode.IsSpace\<close>, encoded.\<close>

definition space_runes :: "string list" where
  "space_runes =
     [[CHR 0x09], [CHR 0x0A], [CHR 0x0B], [CHR 0x0C], [CHR 0x0D], [CHR 0x20],
      [CHR 0xC2, CHR 0x85], [CHR 0xC2, CHR 0xA0], [CHR 0xE1, CHR 0x9A, CHR 0x80],
      [CHR 0xE2, CHR 0x80, CHR 0x80], [CHR 0xE2, CHR 0x80, CHR 0x81], [CHR 0xE2, CHR 0x80, CHR 0x82],
      [CHR 0xE2, CHR 0x80, CHR 0x83], [CHR 0xE2, CHR 0x80, CHR 0x84], [CHR 0xE2, CHR 0x80, CHR 0x85],
      [CHR 0xE2, CHR 0x80, CHR 0x86], [CHR 0xE2, CHR 0x80, CHR 0x87], [CHR 0xE2, CHR 0x80, CHR 0x88],
      [CHR 0xE2, CHR 0x80, CHR 0x89], [CHR 0xE2, CHR 0x80, CHR 0x8A], [CHR 0xE2, CHR 0x80, CHR 0xA8],
      [CHR 0xE2, CHR 0x80, CHR 0xA9], [CHR 0xE2, CHR 0x80, CHR 0xAF], [CHR 0xE2, CHR 0x81, CHR 0x9F],
      [CHR 0xE3, CHR 0x80, CHR 0x80]]"

text \<open>The number of bytes of a white-space rune at the front, or at the back; 0 if none.\<close>

definition lead_space :: "string \<Rightarrow> nat" where
  "lead_space s = (case find (\<lambda>w. has_prefix s w) space_runes of None \<Rightarrow> 0 | Some w \<Rightarrow> length w)"

definition trail_space :: "string \<Rightarrow> nat" where
  "trail_space s = (case find (\<lambda>w. has_prefix (rev s) (rev w)) space_runes of None \<Rightarrow> 0 | Some w \<Rightarrow> length w)"

lemma space_runes_nonempty: "w \<in> set space_runes \<Longrightarrow> w \<noteq> []"
  by (auto simp: space_runes_def)

lemma has_prefix_length: "has_prefix s p \<Longrightarrow> length p \<le> length s"
  by (auto simp: has_prefix_iff)

lemma lead_space_le: "lead_space s \<le> length s"
  by (auto simp: lead_space_def find_Some_iff split: option.splits dest!: has_prefix_length)

lemma trail_space_le: "trail_space s \<le> length s"
  by (auto simp: trail_space_def find_Some_iff split: option.splits dest!: has_prefix_length)

function trim_left :: "string \<Rightarrow> string" where
  "trim_left s = (if lead_space s = 0 then s else trim_left (drop (lead_space s) s))"
  by pat_completeness auto
termination
proof (relation "measure length")
  fix s :: string
  assume "lead_space s \<noteq> 0"
  with lead_space_le [of s] show "(drop (lead_space s) s, s) \<in> measure length" by auto
qed simp

function trim_right :: "string \<Rightarrow> string" where
  "trim_right s = (if trail_space s = 0 then s else trim_right (take (length s - trail_space s) s))"
  by pat_completeness auto
termination
proof (relation "measure length")
  fix s :: string
  assume "trail_space s \<noteq> 0"
  with trail_space_le [of s] show "(take (length s - trail_space s) s, s) \<in> measure length" by auto
qed simp

declare trim_left.simps [simp del] trim_right.simps [simp del]

definition trim_space :: "string \<Rightarrow> string" where
  "trim_space s = trim_right (trim_left s)"

lemma trim_left_suffix: "\<exists>r. s = r @ trim_left s"
proof (induction s rule: trim_left.induct)
  case (1 s)
  show ?case
  proof (cases "lead_space s = 0")
    case False
    define t where "t = drop (lead_space s) s"
    from 1 False obtain r where r: "t = r @ trim_left t" unfolding t_def by blast
    have "trim_left s = trim_left t" using False by (simp add: trim_left.simps [of s] t_def)
    moreover have "s = take (lead_space s) s @ t" by (simp add: t_def)
    ultimately have "s = (take (lead_space s) s @ r) @ trim_left s" using r by simp
    then show ?thesis by blast
  qed (simp add: trim_left.simps)
qed

lemma trim_right_prefix: "\<exists>r. s = trim_right s @ r"
proof (induction s rule: trim_right.induct)
  case (1 s)
  show ?case
  proof (cases "trail_space s = 0")
    case False
    define t where "t = take (length s - trail_space s) s"
    from 1 False obtain r where r: "t = trim_right t @ r" unfolding t_def by blast
    have eq: "trim_right s = trim_right t" using False by (simp add: trim_right.simps [of s] t_def)
    have "s = t @ drop (length s - trail_space s) s" by (simp add: t_def)
    also have "\<dots> = trim_right s @ (r @ drop (length s - trail_space s) s)"
      unfolding eq by (subst r) simp
    finally show ?thesis by blast
  qed (simp add: trim_right.simps)
qed

lemma trim_space_infix: "\<exists>a b. s = a @ trim_space s @ b"
  unfolding trim_space_def using trim_left_suffix [of s] trim_right_prefix [of "trim_left s"] by metis

lemma length_trim_space: "length (trim_space s) \<le> length s"
  using trim_space_infix [of s] by (metis le_add1 le_add2 le_trans length_append)

lemma trim_left_id: "lead_space s = 0 \<Longrightarrow> trim_left s = s"
  by (simp add: trim_left.simps)

lemma trim_right_id: "trail_space s = 0 \<Longrightarrow> trim_right s = s"
  by (simp add: trim_right.simps)

lemma trim_space_id: "lead_space s = 0 \<Longrightarrow> trail_space s = 0 \<Longrightarrow> trim_space s = s"
  by (simp add: trim_space_def trim_left_id trim_right_id)

lemma lead_space_trim_left: "lead_space (trim_left s) = 0"
proof (induction s rule: trim_left.induct)
  case (1 s)
  then show ?case by (cases "lead_space s = 0") (simp_all add: trim_left.simps [of s])
qed

lemma trail_space_trim_right: "trail_space (trim_right s) = 0"
proof (induction s rule: trim_right.induct)
  case (1 s)
  then show ?case by (cases "trail_space s = 0") (simp_all add: trim_right.simps [of s])
qed

lemma lead_space_0_iff: "lead_space s = 0 \<longleftrightarrow> (\<forall>w \<in> set space_runes. \<not> has_prefix s w)"
  using space_runes_nonempty
  by (auto simp: lead_space_def find_Some_iff find_None_iff split: option.splits)

lemma trail_space_0_iff:
  "trail_space s = 0 \<longleftrightarrow> (\<forall>w \<in> set space_runes. \<not> has_prefix (rev s) (rev w))"
  using space_runes_nonempty
  by (auto simp: trail_space_def find_Some_iff find_None_iff split: option.splits)

lemma lead_space_prefix: "lead_space (s @ r) = 0 \<Longrightarrow> lead_space s = 0"
  unfolding lead_space_0_iff by (metis append.assoc has_prefix_iff)

lemma lead_space_trim_space: "lead_space (trim_space s) = 0"
  using trim_right_prefix [of "trim_left s"] lead_space_trim_left [of s] lead_space_prefix
  unfolding trim_space_def by metis

lemma trail_space_trim_space: "trail_space (trim_space s) = 0"
  by (simp add: trim_space_def trail_space_trim_right)

lemma trim_space_idem [simp]: "trim_space (trim_space s) = trim_space s"
  by (rule trim_space_id [OF lead_space_trim_space trail_space_trim_space])

text \<open>A string whose first and last bytes are visible ASCII is its own trimming.\<close>

definition visible :: "char \<Rightarrow> bool" where
  "visible c \<longleftrightarrow> 0x20 < byte c \<and> byte c < 0x7F"

lemma space_rune_bytes: "w \<in> set space_runes \<Longrightarrow> c \<in> set w \<Longrightarrow> \<not> visible c"
  by (auto simp: space_runes_def visible_def)

lemma trim_space_visible: "s = [] \<or> visible (hd s) \<and> visible (last s) \<Longrightarrow> trim_space s = s"
proof (rule trim_space_id)
  assume s: "s = [] \<or> visible (hd s) \<and> visible (last s)"
  show "lead_space s = 0"
    unfolding lead_space_0_iff
  proof (intro ballI notI)
    fix w assume w: "w \<in> set space_runes" "has_prefix s w"
    then have "w \<noteq> []" using space_runes_nonempty by blast
    then obtain c w' where "w = c # w'" by (cases w) auto
    with w s space_rune_bytes [of w c] show False by (auto simp: has_prefix_iff)
  qed
  show "trail_space s = 0"
    unfolding trail_space_0_iff
  proof (intro ballI notI)
    fix w assume w: "w \<in> set space_runes" "has_prefix (rev s) (rev w)"
    then have "w \<noteq> []" using space_runes_nonempty by blast
    then obtain c w' where "w = w' @ [c]" by (cases w rule: rev_cases) auto
    with w s space_rune_bytes [of w c] show False
      by (cases s rule: rev_cases) (auto simp: has_prefix_iff)
  qed
qed

section \<open>Upper case\<close>

text \<open>
  \<open>strings.ToUpper\<close> on ASCII letters and on the two non-ASCII runes whose upper case is
  an ASCII letter (dotless i and long s).  Every other non-ASCII rune keeps non-ASCII
  bytes, which is all the callers can see.
\<close>

definition upper_byte :: "char \<Rightarrow> char" where
  "upper_byte c = (if 97 \<le> byte c \<and> byte c \<le> 122 then char_of (byte c - 32) else c)"

fun to_upper :: "string \<Rightarrow> string" where
  "to_upper [] = []"
| "to_upper [c] = [upper_byte c]"
| "to_upper (c # d # cs) =
     (if c = CHR 0xC4 \<and> d = CHR 0xB1 then CHR ''I'' # to_upper cs
      else if c = CHR 0xC5 \<and> d = CHR 0xBF then CHR ''S'' # to_upper cs
      else upper_byte c # to_upper (d # cs))"

section \<open>Decimal numbers\<close>

definition digit_val :: "char \<Rightarrow> nat option" where
  "digit_val c = (if 48 \<le> byte c \<and> byte c \<le> 57 then Some (byte c - 48) else None)"

fun parse_uint :: "string \<Rightarrow> nat \<Rightarrow> nat option" where
  "parse_uint [] acc = Some acc"
| "parse_uint (c # cs) acc =
     (case digit_val c of None \<Rightarrow> None | Some d \<Rightarrow> parse_uint cs (acc * 10 + d))"

text \<open>\<open>strconv.Atoi\<close>: \<open>None\<close> for a syntax or a range error.\<close>

definition atoi :: "string \<Rightarrow> gint option" where
  "atoi s =
     (let (neg, ds) = (case s of [] \<Rightarrow> (False, [])
        | c # cs \<Rightarrow> if c = CHR ''-'' then (True, cs) else if c = CHR ''+'' then (False, cs) else (False, s))
      in if ds = [] then None
         else case parse_uint ds 0 of
           None \<Rightarrow> None
         | Some n \<Rightarrow> let v = (if neg then - int n else int n) in if in_int64 v then Some v else None)"

definition digit_char :: "nat \<Rightarrow> char" where "digit_char d = char_of (48 + d)"

fun utoa :: "nat \<Rightarrow> string" where
  "utoa n = (if n < 10 then [digit_char n] else utoa (n div 10) @ [digit_char (n mod 10)])"

declare utoa.simps [simp del]

definition itoa :: "gint \<Rightarrow> string" where
  "itoa n = (if n < 0 then CHR ''-'' # utoa (nat (- n)) else utoa (nat n))"

lemma byte_digit_char: "d < 10 \<Longrightarrow> byte (digit_char d) = 48 + d"
  by (simp add: digit_char_def)

lemma digit_val_digit_char [simp]: "d < 10 \<Longrightarrow> digit_val (digit_char d) = Some d"
  by (simp add: digit_val_def byte_digit_char)

lemma parse_uint_append:
  "parse_uint (xs @ ys) a = (case parse_uint xs a of None \<Rightarrow> None | Some b \<Rightarrow> parse_uint ys b)"
  by (induction xs arbitrary: a) (auto split: option.splits)

lemma utoa_nonempty [simp]: "utoa n \<noteq> []"
  by (subst utoa.simps) simp

lemma parse_uint_utoa: "parse_uint (utoa n) 0 = Some n"
proof (induction n rule: utoa.induct)
  case (1 n)
  then show ?case by (subst utoa.simps) (simp add: parse_uint_append)
qed

lemma utoa_digits: "c \<in> set (utoa n) \<Longrightarrow> \<exists>d < 10. c = digit_char d"
proof (induction n rule: utoa.induct)
  case (1 n)
  have "\<exists>d < 10. digit_char (n mod 10) = digit_char d" by (intro exI [of _ "n mod 10"]) simp
  with 1 show ?case by (auto simp: utoa.simps [of n] split: if_splits)
qed

lemma digit_char_not_sign: "d < 10 \<Longrightarrow> digit_char d \<noteq> CHR ''-'' \<and> digit_char d \<noteq> CHR ''+''"
  using byte_digit_char [of d] by auto

lemma digit_char_visible: "d < 10 \<Longrightarrow> visible (digit_char d)"
  by (simp add: visible_def byte_digit_char)

lemma utoa_Cons: "\<exists>d cs. d < 10 \<and> utoa n = digit_char d # cs"
proof -
  obtain c cs where "utoa n = c # cs" by (cases "utoa n") auto
  with utoa_digits [of c n] show ?thesis by auto
qed

lemma atoi_itoa: "in_int64 n \<Longrightarrow> atoi (itoa n) = Some n"
proof (cases "n < 0")
  case True
  then show "in_int64 n \<Longrightarrow> ?thesis" by (simp add: atoi_def itoa_def parse_uint_utoa)
next
  case False
  obtain d cs where "d < 10" "utoa (nat n) = digit_char d # cs" using utoa_Cons by blast
  with digit_char_not_sign [of d] parse_uint_utoa [of "nat n"] False
  show "in_int64 n \<Longrightarrow> ?thesis" by (simp add: atoi_def itoa_def)
qed

lemma atoi_in_int64: "atoi s = Some n \<Longrightarrow> in_int64 n"
  by (auto simp: atoi_def Let_def split: prod.splits if_splits option.splits)

lemma itoa_visible: "trim_space (itoa n) = itoa n"
proof (rule trim_space_visible)
  have u: "visible (hd (utoa m)) \<and> visible (last (utoa m))" for m
    using utoa_digits [of "hd (utoa m)" m] utoa_digits [of "last (utoa m)" m]
    by (auto simp: digit_char_visible)
  have "visible (CHR ''-'')" by (simp add: visible_def)
  with u show "itoa n = [] \<or> visible (hd (itoa n)) \<and> visible (last (itoa n))"
    by (simp add: itoa_def)
qed

section \<open>Splitting\<close>

text \<open>\<open>strings.Split\<close> at one byte.\<close>

fun go_split :: "char \<Rightarrow> string \<Rightarrow> string list" where
  "go_split c [] = [[]]"
| "go_split c (x # s) = (if x = c then [] # go_split c s
     else (case go_split c s of [] \<Rightarrow> [[x]] | w # ws \<Rightarrow> (x # w) # ws))"

text \<open>\<open>strings.Join\<close>.\<close>

fun go_join :: "string \<Rightarrow> string list \<Rightarrow> string" where
  "go_join sep [] = []"
| "go_join sep [w] = w"
| "go_join sep (w # ws) = w @ sep @ go_join sep ws"

lemma go_split_nonempty [simp]: "go_split c s \<noteq> []"
  by (induction s) (auto split: list.split)

lemma go_split_single: "c \<notin> set w \<Longrightarrow> go_split c w = [w]"
  by (induction w) auto

lemma go_split_append: "c \<notin> set w \<Longrightarrow> go_split c (w @ c # s) = w # go_split c s"
  by (induction w) auto

lemma go_split_join: "ws \<noteq> [] \<Longrightarrow> list_all (\<lambda>w. c \<notin> set w) ws \<Longrightarrow> go_split c (go_join [c] ws) = ws"
  by (induction "[c]" ws rule: go_join.induct) (auto simp: go_split_single go_split_append)

section \<open>Runes\<close>

text \<open>
  The length of the valid UTF-8 sequence at the front of a non-empty string, 0 when the
  first byte starts none (a \<open>range\<close> loop then yields U+FFFD and advances by one byte).
\<close>

definition cont :: "char \<Rightarrow> bool" where
  "cont c \<longleftrightarrow> 0x80 \<le> byte c \<and> byte c \<le> 0xBF"

definition rune2_ok :: "char \<Rightarrow> char \<Rightarrow> bool" where
  "rune2_ok a b \<longleftrightarrow> (let x = byte a; y = byte b in
     if x = 0xE0 then 0xA0 \<le> y \<and> y \<le> 0xBF
     else if x = 0xED then 0x80 \<le> y \<and> y \<le> 0x9F
     else if x = 0xF0 then 0x90 \<le> y \<and> y \<le> 0xBF
     else if x = 0xF4 then 0x80 \<le> y \<and> y \<le> 0x8F
     else 0x80 \<le> y \<and> y \<le> 0xBF)"

definition rune_len :: "string \<Rightarrow> nat" where
  "rune_len s = (case s of [] \<Rightarrow> 0 | a # t \<Rightarrow>
     if byte a < 0x80 then 1
     else if 0xC2 \<le> byte a \<and> byte a \<le> 0xDF then
       (case t of b # _ \<Rightarrow> if rune2_ok a b then 2 else 0 | _ \<Rightarrow> 0)
     else if 0xE0 \<le> byte a \<and> byte a \<le> 0xEF then
       (case t of b # c # _ \<Rightarrow> if rune2_ok a b \<and> cont c then 3 else 0 | _ \<Rightarrow> 0)
     else if 0xF0 \<le> byte a \<and> byte a \<le> 0xF4 then
       (case t of b # c # d # _ \<Rightarrow> if rune2_ok a b \<and> cont c \<and> cont d then 4 else 0 | _ \<Rightarrow> 0)
     else 0)"

definition replacement_rune :: string where
  "replacement_rune = [CHR 0xEF, CHR 0xBF, CHR 0xBD]"

text \<open>The runes a \<open>range\<close> loop visits, each in the bytes \<open>WriteRune\<close> writes for it.\<close>

function runes :: "string \<Rightarrow> string list" where
  "runes s = (if s = [] then []
     else if rune_len s = 0 then replacement_rune # runes (drop 1 s)
     else take (rune_len s) s # runes (drop (rune_len s) s))"
  by pat_completeness auto
termination
  by (relation "measure length") auto

declare runes.simps [simp del]

lemma runes_Nil [simp]: "runes [] = []"
  by (simp add: runes.simps)

lemma runes_ascii: "byte c < 0x80 \<Longrightarrow> runes (c # s) = [c] # runes s"
  by (subst runes.simps) (simp add: rune_len_def)

definition valid_utf8 :: "string \<Rightarrow> bool" where
  "valid_utf8 s \<longleftrightarrow> concat (runes s) = s"

end
