(* ===== verification/Float64.thy ===== *)
theory Float64
  imports Prelude "HOL-Library.Log_Nat"
begin

text \<open>
  Go's \<open>float64\<close> as the breaker uses it: IEEE 754 binary64 with round-to-nearest-even,
  subnormals, overflow to infinity and NaN (the sign of zero is never observed, so there
  is one zero); the conversions to and from integers; and the algorithm of \<open>math.Pow\<close> for
  an integral exponent (binary powering on the mantissa and exponent of \<open>Frexp\<close>).
  A conversion of a value outside the 64-bit range is implementation-defined in Go; the
  amd64 result, the least integer, is taken.

  The lemmas say that rounding is monotone and exact on representable values; from these
  follow the facts the breaker needs: \<open>math.Pow\<close> of a base at least 1 is at least 1, and
  it is exact on powers of two.
\<close>

section \<open>Rounding\<close>

definition pow2 :: "int \<Rightarrow> rat" where
  "pow2 e = (if 0 \<le> e then 2 ^ nat e else 1 / 2 ^ nat (- e))"

text \<open>Floor of the binary logarithm of a positive rational.\<close>

definition bin_exp :: "rat \<Rightarrow> int" where
  "bin_exp x = (let (p, q) = quotient_of x; e = bitlen p - bitlen q
                in if pow2 e \<le> x then e else e - 1)"

text \<open>Nearest integer, ties to even.\<close>

definition rne :: "rat \<Rightarrow> int" where
  "rne x = (let f = \<lfloor>x\<rfloor>; d = x - of_int f
            in if d < 1 / 2 then f else if 1 / 2 < d then f + 1 else if even f then f else f + 1)"

text \<open>The weight of the last place of a double of the size of \<open>x\<close>.\<close>

definition ulp_exp :: "rat \<Rightarrow> int" where
  "ulp_exp x = max (bin_exp x - 52) (- 1074)"

definition round_pos :: "rat \<Rightarrow> rat" where
  "round_pos x = (if x = 0 then 0 else of_int (rne (x / pow2 (ulp_exp x))) * pow2 (ulp_exp x))"

definition round53 :: "rat \<Rightarrow> rat" where
  "round53 x = (if x < 0 then - round_pos (- x) else round_pos x)"

definition representable :: "rat \<Rightarrow> bool" where
  "representable x \<longleftrightarrow> (\<exists>m e. x = of_int m * pow2 e \<and> \<bar>m\<bar> \<le> 2 ^ 53 \<and> - 1074 \<le> e)"

subsection \<open>Powers of two\<close>

lemma pow2_powi: "pow2 e = 2 powi e"
  by (auto simp: pow2_def power_int_def field_simps)

lemma pow2_pos [simp]: "0 < pow2 e"
  by (simp add: pow2_def)

lemma pow2_nonzero [simp]: "pow2 e \<noteq> 0"
  using pow2_pos [of e] by linarith

lemma pow2_nonneg [simp]: "0 \<le> pow2 e"
  using pow2_pos [of e] by linarith

lemma pow2_0 [simp]: "pow2 0 = 1"
  by (simp add: pow2_def)

lemma pow2_add: "pow2 (a + b) = pow2 a * pow2 b"
  by (simp add: pow2_powi power_int_add)

lemma pow2_diff: "pow2 (a - b) = pow2 a / pow2 b"
  by (simp add: pow2_powi power_int_diff)

lemma pow2_Suc: "pow2 (a + 1) = 2 * pow2 a"
  by (simp add: pow2_add) (simp add: pow2_def)

lemma pow2_minus: "pow2 (- a) = 1 / pow2 a"
  using pow2_diff [of 0 a] by simp

lemma pow2_le_iff [simp]: "pow2 a \<le> pow2 b \<longleftrightarrow> a \<le> b"
  using power_int_increasing [of a b "2 :: rat"] power_int_strict_increasing [of b a "2 :: rat"]
  by (auto simp: pow2_powi not_le [symmetric])

lemma pow2_less_iff [simp]: "pow2 a < pow2 b \<longleftrightarrow> a < b"
  by (simp add: not_le [symmetric])

lemma pow2_nat: "0 \<le> e \<Longrightarrow> pow2 e = of_int (2 ^ nat e)"
  by (simp add: pow2_def)

lemma pow2_int_quotient: "b \<le> a \<Longrightarrow> pow2 a / pow2 b = of_int (2 ^ nat (a - b))"
  by (simp add: pow2_diff [symmetric] pow2_nat)

subsection \<open>The binary exponent\<close>

lemma bitlen_scaled: "0 < p \<Longrightarrow> pow2 (bitlen p - 1) \<le> of_int p \<and> of_int p < pow2 (bitlen p)"
proof -
  assume p: "0 < p"
  then have b: "1 \<le> bitlen p"
    using bitlen_nonneg [of p] bitlen_eq_zero_iff [of p] by linarith
  from bitlen_bounds [OF p] have "2 ^ nat (bitlen p - 1) \<le> p" "p < 2 ^ nat (bitlen p)" by auto
  then have "(of_int (2 ^ nat (bitlen p - 1)) :: rat) \<le> of_int p"
    "(of_int p :: rat) < of_int (2 ^ nat (bitlen p))"
    by (simp_all only: of_int_le_iff of_int_less_iff)
  with b show ?thesis by (simp add: pow2_nat)
qed

lemma bin_exp_bounds:
  assumes "0 < x"
  shows "pow2 (bin_exp x) \<le> x \<and> x < pow2 (bin_exp x + 1)"
proof -
  obtain p q where pq: "quotient_of x = (p, q)" by (cases "quotient_of x") auto
  then have q: "0 < q" by (rule quotient_of_denom_pos)
  from pq have x: "x = of_int p / of_int q" by (rule quotient_of_div)
  with assms q have p: "0 < p" by (simp add: zero_less_divide_iff)
  define e where "e = bitlen p - bitlen q"
  note bp = bitlen_scaled [OF p] and bq = bitlen_scaled [OF q]
  have qpos: "0 < (of_int q :: rat)" using q by simp
  have "x < pow2 (bitlen p) / pow2 (bitlen q - 1)"
    unfolding x using bp bq qpos p by (intro frac_less) auto
  then have hi: "x < pow2 (e + 1)"
    by (simp add: pow2_diff [symmetric] e_def algebra_simps)
  have "pow2 (bitlen p - 1) / pow2 (bitlen q) \<le> x"
    unfolding x using bp bq qpos p by (intro frac_le) auto
  then have lo: "pow2 (e - 1) \<le> x"
    by (simp add: pow2_diff [symmetric] e_def algebra_simps)
  show ?thesis
    using lo hi by (auto simp: bin_exp_def pq e_def [symmetric] Let_def)
qed

lemma bin_exp_unique: "pow2 k \<le> x \<Longrightarrow> x < pow2 (k + 1) \<Longrightarrow> bin_exp x = k"
proof -
  assume k: "pow2 k \<le> x" "x < pow2 (k + 1)"
  then have "0 < x" using pow2_pos [of k] by linarith
  note b = bin_exp_bounds [OF this]
  from k b have "pow2 k < pow2 (bin_exp x + 1)" "pow2 (bin_exp x) < pow2 (k + 1)" by linarith+
  then show ?thesis by simp
qed

lemma bin_exp_mono: "0 < x \<Longrightarrow> x \<le> y \<Longrightarrow> bin_exp x \<le> bin_exp y"
proof -
  assume "0 < x" "x \<le> y"
  then have "pow2 (bin_exp x) < pow2 (bin_exp y + 1)"
    using bin_exp_bounds [of x] bin_exp_bounds [of y] by linarith
  then show ?thesis by simp
qed

subsection \<open>Rounding to an integer\<close>

lemma rne_of_int [simp]: "rne (of_int n) = n"
  by (simp add: rne_def)

lemma rne_mono: "x \<le> y \<Longrightarrow> rne x \<le> rne y"
proof -
  assume xy: "x \<le> y"
  then have "\<lfloor>x\<rfloor> \<le> \<lfloor>y\<rfloor>" by (rule floor_mono)
  then consider "\<lfloor>x\<rfloor> = \<lfloor>y\<rfloor>" | "\<lfloor>x\<rfloor> + 1 \<le> \<lfloor>y\<rfloor>" by linarith
  then show ?thesis
  proof cases
    case 1
    with xy show ?thesis by (simp add: rne_def Let_def)
  next
    case 2
    have "rne x \<le> \<lfloor>x\<rfloor> + 1" "\<lfloor>y\<rfloor> \<le> rne y" by (simp_all add: rne_def Let_def)
    with 2 show ?thesis by linarith
  qed
qed

lemma rne_ge_int: "of_int n \<le> x \<Longrightarrow> n \<le> rne x"
  using rne_mono [of "of_int n" x] by simp

lemma rne_le_int: "x \<le> of_int n \<Longrightarrow> rne x \<le> n"
  using rne_mono [of x "of_int n"] by simp

subsection \<open>Monotonicity and exactness\<close>

lemma round_pos_0 [simp]: "round_pos 0 = 0"
  by (simp add: round_pos_def)

lemma round_pos_nonneg: "0 \<le> x \<Longrightarrow> 0 \<le> round_pos x"
  by (auto simp: round_pos_def intro!: mult_nonneg_nonneg rne_ge_int divide_nonneg_pos)

lemma round_pos_le_pow2:
  assumes "0 < x" "x \<le> pow2 k" "ulp_exp x \<le> k"
  shows "round_pos x \<le> pow2 k"
proof -
  let ?e = "ulp_exp x"
  have "x / pow2 ?e \<le> of_int (2 ^ nat (k - ?e))"
    using assms by (simp only: pow2_int_quotient [symmetric]) (simp add: divide_right_mono)
  then have "rne (x / pow2 ?e) \<le> 2 ^ nat (k - ?e)" by (rule rne_le_int)
  then have "of_int (rne (x / pow2 ?e)) * pow2 ?e \<le> of_int (2 ^ nat (k - ?e)) * pow2 ?e"
    by (intro mult_right_mono) (simp_all only: of_int_le_iff pow2_nonneg)
  also have "\<dots> = pow2 k" using assms(3) by (simp only: pow2_int_quotient [symmetric]) simp
  finally show ?thesis using assms(1) by (simp add: round_pos_def)
qed

lemma round_pos_ge_pow2:
  assumes "pow2 k \<le> x" "ulp_exp x \<le> k"
  shows "pow2 k \<le> round_pos x"
proof -
  let ?e = "ulp_exp x"
  have x: "0 < x" using assms(1) pow2_pos [of k] by linarith
  have "of_int (2 ^ nat (k - ?e)) \<le> x / pow2 ?e"
    using assms by (simp only: pow2_int_quotient [symmetric]) (simp add: divide_right_mono)
  then have "2 ^ nat (k - ?e) \<le> rne (x / pow2 ?e)" by (rule rne_ge_int)
  then have "of_int (2 ^ nat (k - ?e)) * pow2 ?e \<le> of_int (rne (x / pow2 ?e)) * pow2 ?e"
    by (intro mult_right_mono) (simp_all only: of_int_le_iff pow2_nonneg)
  moreover have "of_int (2 ^ nat (k - ?e)) * pow2 ?e = pow2 k"
    using assms(2) by (simp only: pow2_int_quotient [symmetric]) simp
  ultimately show ?thesis using x by (simp only: round_pos_def) simp
qed

lemma round_pos_mono:
  assumes "0 \<le> x" "x \<le> y"
  shows "round_pos x \<le> round_pos y"
proof (cases "x = 0")
  case True
  with assms show ?thesis using round_pos_nonneg [of y] by simp
next
  case False
  with assms have x: "0 < x" and y: "0 < y" by auto
  have be: "bin_exp x \<le> bin_exp y" by (rule bin_exp_mono [OF x assms(2)])
  show ?thesis
  proof (cases "ulp_exp x = ulp_exp y")
    case True
    have "x / pow2 (ulp_exp y) \<le> y / pow2 (ulp_exp y)"
      using assms(2) by (simp add: divide_right_mono)
    then have "rne (x / pow2 (ulp_exp y)) \<le> rne (y / pow2 (ulp_exp y))" by (rule rne_mono)
    with x y True show ?thesis by (simp add: round_pos_def mult_right_mono)
  next
    case False
    with be have e: "ulp_exp x < ulp_exp y" and ey: "ulp_exp y = bin_exp y - 52"
      and lt: "bin_exp x < bin_exp y" by (auto simp: ulp_exp_def max_def split: if_splits)
    have "x \<le> pow2 (bin_exp x + 1)" using bin_exp_bounds [OF x] by simp
    also have "\<dots> \<le> pow2 (bin_exp y)" using lt by simp
    finally have "round_pos x \<le> pow2 (bin_exp y)"
      using x e ey by (intro round_pos_le_pow2) auto
    also have "\<dots> \<le> round_pos y"
      using bin_exp_bounds [OF y] ey by (intro round_pos_ge_pow2) auto
    finally show ?thesis .
  qed
qed

lemma round_pos_exact:
  assumes "0 \<le> x" "representable x"
  shows "round_pos x = x"
proof (cases "x = 0")
  case False
  with assms(1) have x: "0 < x" by simp
  obtain m e where me: "x = of_int m * pow2 e" "\<bar>m\<bar> \<le> 2 ^ 53" "- 1074 \<le> e"
    using assms(2) by (auto simp: representable_def)
  let ?u = "ulp_exp x" and ?k = "bin_exp x"
  note kb = bin_exp_bounds [OF x]
  have "\<exists>n. x / pow2 ?u = of_int n"
  proof (cases "?u \<le> e")
    case True
    have "x / pow2 ?u = of_int m * (pow2 e / pow2 ?u)" using me by simp
    also have "\<dots> = of_int (m * 2 ^ nat (e - ?u))" using True by (simp add: pow2_int_quotient)
    finally show ?thesis by blast
  next
    case False
    with me(3) have u: "?u = ?k - 52" "e < ?k - 52" by (auto simp: ulp_exp_def max_def split: if_splits)
    have "(of_int m :: rat) \<le> of_int (2 ^ 53)" using me(2) by (subst of_int_le_iff) linarith
    then have "x \<le> of_int (2 ^ 53) * pow2 e" unfolding me(1) by (intro mult_right_mono) simp_all
    also have "\<dots> = pow2 (53 + e)" by (subst pow2_add) (simp add: pow2_def)
    finally have le: "x \<le> pow2 (53 + e)" .
    with kb have "pow2 ?k \<le> pow2 (53 + e)" by linarith
    with u have k: "?k = 53 + e" by simp
    with le kb have "x = pow2 ?k" by simp
    moreover have "pow2 ?k / pow2 ?u = of_int (2 ^ nat (?k - ?u))"
      using u by (intro pow2_int_quotient) simp
    ultimately show ?thesis by metis
  qed
  then obtain n where n: "x / pow2 ?u = of_int n" by blast
  then have "x = of_int n * pow2 ?u" by (simp add: field_simps)
  with x n show ?thesis by (simp add: round_pos_def)
qed simp

lemma representable_scaled: "\<bar>m\<bar> \<le> 2 ^ 53 \<Longrightarrow> - 1074 \<le> e \<Longrightarrow> representable (of_int m * pow2 e)"
  by (auto simp: representable_def)

lemma representable_int: "\<bar>n\<bar> \<le> 2 ^ 53 \<Longrightarrow> representable (of_int n)"
  using representable_scaled [of n 0] by simp

lemma representable_0: "representable 0"
  using representable_int [of 0] by simp

lemma representable_pow2: "- 1074 \<le> e \<Longrightarrow> representable (pow2 e)"
  using representable_scaled [of 1 e] by simp

lemma round53_nonneg: "0 \<le> x \<Longrightarrow> 0 \<le> round53 x"
  by (simp add: round53_def round_pos_nonneg)

lemma round53_exact: "0 \<le> x \<Longrightarrow> representable x \<Longrightarrow> round53 x = x"
  by (simp add: round53_def round_pos_exact)

lemma round53_mono: "0 \<le> x \<Longrightarrow> x \<le> y \<Longrightarrow> round53 x \<le> round53 y"
  by (simp add: round53_def round_pos_mono)

lemma round53_ge: "0 \<le> y \<Longrightarrow> representable y \<Longrightarrow> y \<le> x \<Longrightarrow> y \<le> round53 x"
  using round53_mono [of y x] by (simp add: round53_exact)

lemma round53_le: "0 \<le> x \<Longrightarrow> x \<le> y \<Longrightarrow> representable y \<Longrightarrow> round53 x \<le> y"
  using round53_mono [of x y] round53_exact [of y] by simp

section \<open>Doubles\<close>

datatype f64 = Fin rat | PosInf | NegInf | NaN

definition to_f64 :: "rat \<Rightarrow> f64" where
  "to_f64 x = (let r = round53 x in
     if 2 ^ 1024 \<le> r then PosInf else if r \<le> - (2 ^ 1024) then NegInf else Fin r)"

text \<open>Conversion of an integer, and truncation back to a 64-bit integer.\<close>

definition f64_of_int :: "int \<Rightarrow> f64" where
  "f64_of_int n = to_f64 (of_int n)"

definition trunc_rat :: "rat \<Rightarrow> int" where
  "trunc_rat x = (if 0 \<le> x then \<lfloor>x\<rfloor> else - \<lfloor>- x\<rfloor>)"

fun f64_to_int64 :: "f64 \<Rightarrow> int" where
  "f64_to_int64 (Fin x) = (if in_int64 (trunc_rat x) then trunc_rat x else int64_min)"
| "f64_to_int64 _ = int64_min"

text \<open>Comparisons with a NaN are false.\<close>

fun f64_less :: "f64 \<Rightarrow> f64 \<Rightarrow> bool" where
  "f64_less (Fin x) (Fin y) = (x < y)"
| "f64_less (Fin _) PosInf = True"
| "f64_less NegInf (Fin _) = True"
| "f64_less NegInf PosInf = True"
| "f64_less _ _ = False"

fun f64_neg :: "f64 \<Rightarrow> f64" where
  "f64_neg (Fin x) = Fin (- x)"
| "f64_neg PosInf = NegInf"
| "f64_neg NegInf = PosInf"
| "f64_neg NaN = NaN"

fun f64_mul :: "f64 \<Rightarrow> f64 \<Rightarrow> f64" where
  "f64_mul (Fin x) (Fin y) = to_f64 (x * y)"
| "f64_mul NaN _ = NaN"
| "f64_mul _ NaN = NaN"
| "f64_mul (Fin x) i = (if x = 0 then NaN else if 0 < x then i else f64_neg i)"
| "f64_mul i (Fin x) = (if x = 0 then NaN else if 0 < x then i else f64_neg i)"
| "f64_mul i j = (if i = j then PosInf else NegInf)"

definition f64_add :: "f64 \<Rightarrow> f64 \<Rightarrow> f64" where
  "f64_add x y = (case (x, y) of
      (Fin a, Fin b) \<Rightarrow> to_f64 (a + b)
    | (NaN, _) \<Rightarrow> NaN | (_, NaN) \<Rightarrow> NaN
    | (PosInf, NegInf) \<Rightarrow> NaN | (NegInf, PosInf) \<Rightarrow> NaN
    | (Fin _, y) \<Rightarrow> y | (x, _) \<Rightarrow> x)"

text \<open>
  \<open>math.Pow(x, float64(n))\<close> for an integer \<open>n \<ge> 0\<close>: the special cases in the order of the
  library, then the loop over the bits of \<open>n\<close>; \<open>a1\<close> and \<open>x1\<close> are mantissas, \<open>ae\<close> and
  \<open>xe\<close> exponents, and the guard on \<open>xe\<close> is the library's overflow exit.
\<close>

definition frexp :: "rat \<Rightarrow> rat \<times> int" where
  "frexp x = (if x = 0 then (0, 0) else let k = bin_exp \<bar>x\<bar> in (x / pow2 (k + 1), k + 1))"

fun pow_loop :: "nat \<Rightarrow> rat \<Rightarrow> int \<Rightarrow> rat \<Rightarrow> int \<Rightarrow> rat \<times> int" where
  "pow_loop i a1 ae x1 xe =
     (if i = 0 then (a1, ae)
      else if xe < - 4096 \<or> 4096 < xe then (a1, ae + xe)
      else let a1' = (if odd i then round53 (a1 * x1) else a1);
               ae' = (if odd i then ae + xe else ae);
               y = round53 (x1 * x1)
           in if y < 1 / 2 then pow_loop (i div 2) a1' ae' (round53 (y + y)) (2 * xe - 1)
              else pow_loop (i div 2) a1' ae' y (2 * xe))"

declare pow_loop.simps [simp del]

definition math_pow :: "f64 \<Rightarrow> nat \<Rightarrow> f64" where
  "math_pow x n =
     (if n = 0 \<or> x = Fin 1 then Fin 1
      else if n = 1 then x
      else case x of
        NaN \<Rightarrow> NaN
      | PosInf \<Rightarrow> PosInf
      | NegInf \<Rightarrow> (if odd n then NegInf else PosInf)
      | Fin b \<Rightarrow>
          if b = 0 then Fin 0
          else let (x1, xe) = frexp b; (a1, ae) = pow_loop n 1 0 x1 xe in to_f64 (a1 * pow2 ae))"

subsection \<open>Conversions\<close>

lemma to_f64_nonneg_cases:
  assumes "0 \<le> x"
  obtains "to_f64 x = PosInf" "2 ^ 1024 \<le> round53 x"
    | "to_f64 x = Fin (round53 x)" "round53 x < 2 ^ 1024"
proof (cases "2 ^ 1024 \<le> round53 x")
  case True
  then show ?thesis by (intro that(1)) (simp_all add: to_f64_def Let_def)
next
  case False
  have "- (2 ^ 1024) < (0 :: rat)" by simp
  also have "0 \<le> round53 x" using assms by (rule round53_nonneg)
  finally show ?thesis using False by (intro that(2)) (simp_all add: to_f64_def Let_def)
qed

lemma to_f64_exact: "0 \<le> x \<Longrightarrow> representable x \<Longrightarrow> x < 2 ^ 1024 \<Longrightarrow> to_f64 x = Fin x"
  by (rule to_f64_nonneg_cases [of x]) (simp_all add: round53_exact)

lemma f64_of_int_exact: "0 \<le> n \<Longrightarrow> n \<le> 2 ^ 53 \<Longrightarrow> f64_of_int n = Fin (of_int n)"
proof -
  assume n: "0 \<le> n" "n \<le> 2 ^ 53"
  have "n < 2 ^ 1024" by (rule le_less_trans [OF n(2)]) simp
  then have "(of_int n :: rat) < of_int (2 ^ 1024)" by (simp only: of_int_less_iff)
  with n show ?thesis
    unfolding f64_of_int_def by (intro to_f64_exact representable_int) simp_all
qed

lemma f64_to_int64_Fin:
  "0 \<le> x \<Longrightarrow> x < 2 ^ 63 \<Longrightarrow> f64_to_int64 (Fin x) = \<lfloor>x\<rfloor>"
proof -
  assume x: "0 \<le> x" "x < 2 ^ 63"
  then have "\<lfloor>x\<rfloor> < 2 ^ 63" by (simp add: floor_less_iff)
  with x show ?thesis by (simp add: trunc_rat_def int64_defs)
qed

subsection \<open>\<open>math.Pow\<close> of a base at least 1\<close>

lemma round53_half_ge: "0 \<le> x \<Longrightarrow> pow2 k \<le> x \<Longrightarrow> - 1074 \<le> k \<Longrightarrow> pow2 k \<le> round53 x"
  by (intro round53_ge representable_pow2) simp_all

lemma round53_le_1: "0 \<le> x \<Longrightarrow> x \<le> 1 \<Longrightarrow> round53 x \<le> 1"
  using representable_int [of 1] by (intro round53_le) simp_all

text \<open>
  The invariant of the loop: both mantissa-exponent pairs stand for values at least 1, and
  the accumulated mantissa stays far above the subnormal range (\<open>k\<close> bounds the bits left).
\<close>

lemma pow_loop_ge_1:
  assumes "i < 2 ^ k" "k \<le> 63"
    and "0 \<le> ae" "1 \<le> xe" "1 / 2 \<le> x1" "x1 \<le> 1" "pow2 (- xe) \<le> x1"
    and "pow2 (- ae) \<le> a1" "a1 \<le> 1" "pow2 (int k - 1000) \<le> a1"
  shows "case pow_loop i a1 ae x1 xe of (a, e) \<Rightarrow> 0 < a \<and> pow2 (- e) \<le> a"
  using assms
proof (induction k arbitrary: i a1 ae x1 xe)
  case 0
  then have "0 < a1" using pow2_pos [of "- ae"] by linarith
  with 0 show ?case by (simp add: pow_loop.simps)
next
  case (Suc k)
  have a1: "0 < a1" using Suc.prems(8) pow2_pos [of "- ae"] by linarith
  show ?case
  proof (cases "i = 0 \<or> xe < - 4096 \<or> 4096 < xe")
    case True
    have "pow2 (- (ae + xe)) \<le> pow2 (- ae)" using Suc.prems by simp
    with Suc.prems(8) have "pow2 (- (ae + xe)) \<le> a1" by linarith
    with True a1 Suc.prems(8) show ?thesis by (auto simp: pow_loop.simps [of i])
  next
    case False
    define a' where "a' = (if odd i then round53 (a1 * x1) else a1)"
    define e' where "e' = (if odd i then ae + xe else ae)"
    define y where "y = round53 (x1 * x1)"
    have i2: "i div 2 < 2 ^ k" using Suc.prems(1) by simp
    have ax: "a1 * x1 \<le> 1" "0 \<le> a1 * x1"
      using Suc.prems a1 by (auto intro: mult_le_one)
    have "pow2 (int (Suc k) - 1000) * pow2 (- 1) \<le> a1 * x1"
      using Suc.prems a1 by (intro mult_mono) (auto simp: pow2_minus pow2_def)
    then have big: "pow2 (int k - 1000) \<le> a1 * x1" by (simp add: pow2_add [symmetric])
    have "pow2 (- ae) * pow2 (- xe) \<le> a1 * x1"
      using Suc.prems a1 by (intro mult_mono) auto
    then have val: "pow2 (- (ae + xe)) \<le> a1 * x1" by (simp add: pow2_add [symmetric])
    have "pow2 (- (ae + xe)) \<le> round53 (a1 * x1)"
    proof (cases "ae + xe \<le> 1000")
      case True
      with val ax show ?thesis by (intro round53_half_ge) auto
    next
      case False
      then have "pow2 (- (ae + xe)) \<le> pow2 (int k - 1000)" by simp
      also have "\<dots> \<le> round53 (a1 * x1)" using big ax by (intro round53_half_ge) auto
      finally show ?thesis .
    qed
    moreover have "pow2 (int k - 1000) \<le> round53 (a1 * x1)" using big ax by (intro round53_half_ge) auto
    moreover have "pow2 (int k - 1000) \<le> a1"
      using Suc.prems(10) by (rule order_trans [rotated]) simp
    ultimately have A: "pow2 (- e') \<le> a'" "a' \<le> 1" "pow2 (int k - 1000) \<le> a'" "0 \<le> e'"
      using Suc.prems ax unfolding a'_def e'_def by (auto intro: round53_le_1 order_trans)
    have quarter: "pow2 (- 2) \<le> x1 * x1"
    proof -
      have "pow2 (- 1) * pow2 (- 1) \<le> x1 * x1"
        using Suc.prems by (intro mult_mono) (auto simp: pow2_minus pow2_def)
      then show ?thesis by (simp add: pow2_add [symmetric])
    qed
    have xx: "0 \<le> x1 * x1" "x1 * x1 \<le> 1" using Suc.prems by (auto intro: mult_le_one)
    have "pow2 (- xe) * pow2 (- xe) \<le> x1 * x1" using Suc.prems by (intro mult_mono) auto
    then have sq: "pow2 (- (2 * xe)) \<le> x1 * x1" by (simp add: pow2_add [symmetric])
    have y2: "pow2 (- 2) \<le> y" unfolding y_def using quarter xx by (intro round53_half_ge) auto
    have y1: "y \<le> 1" unfolding y_def using xx by (intro round53_le_1)
    have yX: "pow2 (- (2 * xe)) \<le> y"
    proof (cases "2 * xe \<le> 1000")
      case True
      with sq xx show ?thesis unfolding y_def by (intro round53_half_ge) auto
    next
      case False
      then have "pow2 (- (2 * xe)) \<le> pow2 (- 2)" by simp
      with y2 show ?thesis by linarith
    qed
    show ?thesis
    proof (cases "y < 1 / 2")
      case small: True
      have yy: "0 \<le> y + y" "y + y \<le> 1" using y2 pow2_pos [of "- 2"] small by linarith+
      have "pow2 (- 1) \<le> y + y" using y2 pow2_Suc [of "- 2"] by simp
      then have h: "pow2 (- 1) \<le> round53 (y + y)" using yy by (intro round53_half_ge) auto
      have d: "pow2 (- (2 * xe - 1)) \<le> y + y" using yX pow2_Suc [of "- (2 * xe)"] by simp
      have X: "pow2 (- (2 * xe - 1)) \<le> round53 (y + y)"
      proof (cases "2 * xe - 1 \<le> 1000")
        case True
        with d yy show ?thesis by (intro round53_half_ge) auto
      next
        case False
        then have "pow2 (- (2 * xe - 1)) \<le> pow2 (- 1)" by simp
        with h show ?thesis by linarith
      qed
      have eq: "pow_loop i a1 ae x1 xe = pow_loop (i div 2) a' e' (round53 (y + y)) (2 * xe - 1)"
        using False small by (subst pow_loop.simps) (simp add: a'_def e'_def y_def Let_def)
      show ?thesis
        unfolding eq
        using A X h yy i2 Suc.prems(2,4)
        by (intro Suc.IH) (auto simp: pow2_minus pow2_def intro: round53_le_1)
    next
      case big: False
      have eq: "pow_loop i a1 ae x1 xe = pow_loop (i div 2) a' e' y (2 * xe)"
        using False big by (subst pow_loop.simps) (simp add: a'_def e'_def y_def Let_def)
      show ?thesis
        unfolding eq using A yX y1 big i2 Suc.prems(2,4) by (intro Suc.IH) auto
    qed
  qed
qed

lemma frexp_bounds:
  assumes "1 \<le> b"
  obtains x1 xe where "frexp b = (x1, xe)" "1 \<le> xe" "1 / 2 \<le> x1" "x1 < 1" "pow2 (- xe) \<le> x1"
proof -
  let ?k = "bin_exp b"
  have b: "0 < b" using assms by simp
  note kb = bin_exp_bounds [OF b]
  have "pow2 0 < pow2 (?k + 1)" using kb assms unfolding pow2_0 by linarith
  then have k: "0 \<le> ?k" by (simp only: pow2_less_iff)
  have f: "frexp b = (b / pow2 (?k + 1), ?k + 1)" using b by (simp add: frexp_def Let_def)
  have "pow2 (?k + 1) \<le> 2 * b" using kb by (simp only: pow2_Suc) simp
  then have "1 / 2 \<le> b / pow2 (?k + 1)" by (simp add: field_simps)
  moreover have "b / pow2 (?k + 1) < 1" using kb by simp
  moreover have "pow2 (- (?k + 1)) \<le> b / pow2 (?k + 1)"
    using assms by (simp only: pow2_minus) (simp add: divide_right_mono)
  ultimately show ?thesis using f k by (intro that) auto
qed

lemma math_pow_ge_1:
  assumes "1 \<le> b" "n < 2 ^ 63"
  shows "math_pow (Fin b) n = PosInf \<or> (\<exists>r. math_pow (Fin b) n = Fin r \<and> 1 \<le> r)"
proof (cases "n = 0 \<or> b = 1 \<or> n = 1")
  case True
  with assms show ?thesis by (auto simp: math_pow_def)
next
  case False
  obtain x1 xe where f: "frexp b = (x1, xe)" "1 \<le> xe" "1 / 2 \<le> x1" "x1 < 1" "pow2 (- xe) \<le> x1"
    using assms(1) by (rule frexp_bounds)
  obtain a e where l: "pow_loop n 1 0 x1 xe = (a, e)" by (cases "pow_loop n 1 0 x1 xe") auto
  have "pow2 (int 63 - 1000) \<le> pow2 0" by (subst pow2_le_iff) simp
  then have "case pow_loop n 1 0 x1 xe of (a, e) \<Rightarrow> 0 < a \<and> pow2 (- e) \<le> a"
    using f assms(2) by (intro pow_loop_ge_1 [of n 63]) simp_all
  then have ae: "0 < a" "1 \<le> a * pow2 e" by (auto simp: l pow2_minus field_simps)
  have m: "math_pow (Fin b) n = to_f64 (a * pow2 e)"
    using False assms(1) by (simp add: math_pow_def f l)
  have ge: "1 \<le> round53 (a * pow2 e)" using ae representable_int [of 1] by (intro round53_ge) auto
  have nn: "0 \<le> a * pow2 e" using ae by linarith
  show ?thesis unfolding m by (rule to_f64_nonneg_cases [OF nn]) (use ge in auto)
qed

subsection \<open>\<open>math.Pow\<close> of the base 2\<close>

lemma round53_pow2: "- 1074 \<le> e \<Longrightarrow> round53 (pow2 e) = pow2 e"
  by (intro round53_exact representable_pow2) simp_all

lemma pow_loop_base_2:
  assumes "i < 2 ^ k" "k \<le> 60" "int i * 2 ^ j \<le> 4095" "0 \<le> ae" "0 \<le> m" "m + int k \<le> 1000"
  shows "case pow_loop i (pow2 (- m)) ae (1 / 2) (2 ^ j + 1) of
           (a, e) \<Rightarrow> a * pow2 e = pow2 (ae - m + int i * 2 ^ j)"
  using assms
proof (induction k arbitrary: i m ae j)
  case 0
  then show ?case by (simp add: pow_loop.simps pow2_diff pow2_minus)
next
  case (Suc k)
  show ?case
  proof (cases "i = 0")
    case True
    then show ?thesis by (simp add: pow_loop.simps pow2_diff pow2_minus)
  next
    case False
    then have "1 * 2 ^ j \<le> int i * 2 ^ j" by (intro mult_right_mono) auto
    with Suc.prems(3) have j: "(2 :: int) ^ j \<le> 4095" by linarith
    have half: "1 / 2 = pow2 (- 1)" by (simp add: pow2_def)
    have y: "round53 (1 / 2 * (1 / 2)) = pow2 (- 2)"
      unfolding half pow2_add [symmetric] by (rule round53_pow2 [THEN trans]) simp_all
    have yy: "round53 (pow2 (- 2) + pow2 (- 2)) = 1 / 2"
    proof -
      have "pow2 (- 2) + pow2 (- 2) = pow2 (- 1)" by (simp add: pow2_def)
      then show ?thesis using round53_pow2 [of "- 1"] half by simp
    qed
    have small: "pow2 (- 2) < 1 / 2" by (simp add: pow2_def)
    have prod: "round53 (pow2 (- m) * (1 / 2)) = pow2 (- (m + 1))"
      unfolding half pow2_add [symmetric] using Suc.prems by (subst round53_pow2) simp_all
    have xe: "2 * (2 ^ j + 1) - 1 = (2 :: int) ^ Suc j + 1" by simp
    have pos: "0 \<le> (2 :: int) ^ j" by simp
    have i2: "i div 2 < 2 ^ k" using Suc.prems(1) by simp
    have step: "pow_loop i (pow2 (- m)) ae (1 / 2) (2 ^ j + 1)
        = pow_loop (i div 2) (if odd i then pow2 (- (m + 1)) else pow2 (- m))
            (if odd i then ae + (2 ^ j + 1) else ae) (1 / 2) (2 ^ Suc j + 1)"
    proof -
      have "\<not> (2 ^ j + 1 < (- 4096 :: int) \<or> 4096 < (2 ^ j + 1 :: int))" using j pos by linarith
      then show ?thesis
        using False by (subst pow_loop.simps) (simp only: y yy small prod xe Let_def if_True if_False simp_thms)
    qed
    show ?thesis
    proof (cases "odd i")
      case True
      then have i: "int i = 2 * int (i div 2) + 1" by presburger
      have s: "int i * 2 ^ j = int (i div 2) * 2 ^ Suc j + 2 ^ j"
        unfolding i by (simp add: algebra_simps)
      have le: "int (i div 2) * 2 ^ Suc j \<le> 4095" using s Suc.prems(3) pos by linarith
      have "pow_loop i (pow2 (- m)) ae (1 / 2) (2 ^ j + 1)
          = pow_loop (i div 2) (pow2 (- (m + 1))) (ae + (2 ^ j + 1)) (1 / 2) (2 ^ Suc j + 1)"
        using step True by simp
      moreover have "case pow_loop (i div 2) (pow2 (- (m + 1))) (ae + (2 ^ j + 1)) (1 / 2) (2 ^ Suc j + 1) of
         (a, e) \<Rightarrow> a * pow2 e = pow2 (ae + (2 ^ j + 1) - (m + 1) + int (i div 2) * 2 ^ Suc j)"
        using Suc.prems i2 le pos by (intro Suc.IH) auto
      ultimately show ?thesis using s by (simp add: algebra_simps)
    next
      case ev: False
      then have i: "int i = 2 * int (i div 2)" by presburger
      have s: "int i * 2 ^ j = int (i div 2) * 2 ^ Suc j"
        unfolding i by (simp add: algebra_simps)
      have "pow_loop i (pow2 (- m)) ae (1 / 2) (2 ^ j + 1)
          = pow_loop (i div 2) (pow2 (- m)) ae (1 / 2) (2 ^ Suc j + 1)"
        using step ev by simp
      moreover have "case pow_loop (i div 2) (pow2 (- m)) ae (1 / 2) (2 ^ Suc j + 1) of
         (a, e) \<Rightarrow> a * pow2 e = pow2 (ae - m + int (i div 2) * 2 ^ Suc j)"
        using Suc.prems i2 s pos by (intro Suc.IH) auto
      ultimately show ?thesis using s by (simp add: algebra_simps)
    qed
  qed
qed

lemma math_pow_2: "n < 1024 \<Longrightarrow> math_pow (Fin 2) n = Fin (2 ^ n)"
proof -
  assume n: "n < 1024"
  have "frexp 2 = (1 / 2, 2)"
  proof -
    have "bin_exp 2 = 1" by (rule bin_exp_unique) (simp_all add: pow2_def)
    then show ?thesis by (simp add: frexp_def pow2_def)
  qed
  moreover obtain a e where l: "pow_loop n 1 0 (1 / 2) 2 = (a, e)"
    by (cases "pow_loop n 1 0 (1 / 2) 2") auto
  have "a * pow2 e = pow2 (int n)"
    using pow_loop_base_2 [of n 10 0 0 0] n l by simp
  then have p: "a * pow2 e = 2 ^ n" by (simp add: pow2_def)
  have "(2 :: rat) ^ n < 2 ^ 1024" using n by (intro power_strict_increasing) simp_all
  then have "to_f64 (2 ^ n) = Fin (2 ^ n)"
    using representable_pow2 [of "int n"] by (intro to_f64_exact) (simp_all add: pow2_def)
  ultimately show ?thesis using l p by (auto simp: math_pow_def)
qed

end
