(* ===== verification/Config.thy ===== *)
theory Config
  imports GoStrings Float64
begin

text \<open>
  Package \<open>internal/config\<close> up to the resolved pools: the decoded document
  (\<open>config.go\<close>), signals (\<open>types.go\<close>), the split of \<open>pools._defaults\<close>, the built-in
  defaults and the three-layer resolution (\<open>resolve.go\<close>).  A pointer field is an
  \<open>option\<close>, a nil slice is \<open>None\<close>, an embedded struct is a record extension, a Go map is
  an association list in the order a range loop visits it.  The yaml decoder is an
  argument of \<open>Parse\<close>.
\<close>

section \<open>Signals\<close>

type_synonym signal = int

definition SIGHUP :: signal where "SIGHUP = 1"
definition SIGINT :: signal where "SIGINT = 2"
definition SIGQUIT :: signal where "SIGQUIT = 3"
definition SIGKILL :: signal where "SIGKILL = 9"
definition SIGUSR1 :: signal where "SIGUSR1 = 10"
definition SIGUSR2 :: signal where "SIGUSR2 = 12"
definition SIGTERM :: signal where "SIGTERM = 15"

lemmas signal_numbers =
  SIGHUP_def SIGINT_def SIGQUIT_def SIGKILL_def SIGUSR1_def SIGUSR2_def SIGTERM_def

definition signalNames :: "signal gmap" where
  "signalNames =
     [(''HUP'', SIGHUP), (''INT'', SIGINT), (''QUIT'', SIGQUIT), (''KILL'', SIGKILL),
      (''USR1'', SIGUSR1), (''USR2'', SIGUSR2), (''TERM'', SIGTERM)]"

text \<open>\<open>UnmarshalText\<close>: \<open>None\<close> is the error for an unknown signal.\<close>

definition Signal_UnmarshalText :: "string \<Rightarrow> signal option" where
  "Signal_UnmarshalText b = map_of signalNames (trim_prefix (to_upper (trim_space b)) ''SIG'')"

definition Signal_String :: "signal \<Rightarrow> string" where
  "Signal_String s =
     (case find (\<lambda>(name, sig). sig = s) signalNames of
        Some (name, _) \<Rightarrow> ''SIG'' @ name
      | None \<Rightarrow> ''signal('' @ itoa s @ '')'')"

definition Signal_MarshalText :: "signal \<Rightarrow> string" where
  "Signal_MarshalText s = Signal_String s"

definition known_signals :: "signal list" where
  "known_signals = map snd signalNames"

lemma known_signals_eq:
  "known_signals = [SIGHUP, SIGINT, SIGQUIT, SIGKILL, SIGUSR1, SIGUSR2, SIGTERM]"
  by (simp add: known_signals_def signalNames_def)

text \<open>The config spelling of every known signal decodes back to it, with or without
  the \<open>SIG\<close> prefix.\<close>

lemma signal_roundtrip:
  "list_all (\<lambda>s. Signal_UnmarshalText (Signal_MarshalText s) = Some s \<and>
     Signal_UnmarshalText (drop 3 (Signal_String s)) = Some s) known_signals"
  by code_simp

section \<open>The decoded document\<close>

record Log =
  Log_Format :: string
  Log_Level :: level
  Log_TimestampFormat :: string
  Log_ChildOutput :: string

record HTTP =
  HTTP_Enabled :: "bool option"
  HTTP_Addr :: string
  HTTP_HintPath :: string
  HTTP_HealthPath :: string
  HTTP_MetricsPath :: string
  HTTP_ReadTimeout :: duration
  HTTP_WriteTimeout :: duration
  HTTP_ShutdownTimeout :: duration

record Redis =
  Redis_Enabled :: "bool option"
  Redis_Addr :: string
  Redis_Username :: string
  Redis_Password :: string
  Redis_DB :: gint
  Redis_TLS :: bool
  Redis_ChannelPrefix :: string
  Redis_DialTimeout :: duration
  Redis_ReconnectMin :: duration
  Redis_ReconnectMax :: duration

record MetricsCfg =
  Metrics_Enabled :: "bool option"
  Metrics_Namespace :: string
  Metrics_Addr :: string

record PoolSettings =
  ps_Enabled :: "bool option"
  ps_Concurrency :: "gint option"
  ps_OkExitCodes :: "gint list option"
  ps_ExitFailureThreshold :: "gint option"
  ps_ExitFailureWindow :: "duration option"
  ps_ExitCooldown :: "duration option"
  ps_ExitCooldownMax :: "duration option"
  ps_ExitCooldownMultiplier :: "f64 option"
  ps_TTL :: "duration option"
  ps_Poke :: "duration option"
  ps_PokeCount :: "gint option"
  ps_GraceShutdown :: "duration option"
  ps_TermSignal :: "signal option"
  ps_InheritEnv :: "bool option"
  ps_Env :: "string gmap"
  ps_Dir :: "string option"
  ps_ResultStream :: "string option"

record Pool = PoolSettings +
  Pool_Channel :: string
  Pool_Command :: "string list"

record Config =
  cfg_Log :: Log
  cfg_HTTP :: HTTP
  cfg_Redis :: Redis
  cfg_Metrics :: MetricsCfg
  cfg_ShutdownTimeout :: duration
  cfg_Pools :: "Pool gmap"
  cfg_Defaults :: PoolSettings

definition DefaultsKey :: string where "DefaultsKey = ''_defaults''"

definition alnum :: "char \<Rightarrow> bool" where
  "alnum c \<longleftrightarrow> (48 \<le> byte c \<and> byte c \<le> 57) \<or> (65 \<le> byte c \<and> byte c \<le> 90) \<or> (97 \<le> byte c \<and> byte c \<le> 122)"

text \<open>The regular expression \<open>^[A-Za-z0-9][A-Za-z0-9_.-]*$\<close>.\<close>

definition poolName :: "string \<Rightarrow> bool" where
  "poolName s = (case s of [] \<Rightarrow> False
     | c # cs \<Rightarrow> alnum c \<and> list_all (\<lambda>d. alnum d \<or> d = CHR ''_'' \<or> d = CHR ''.'' \<or> d = CHR ''-'') cs)"

datatype cfg_error =
    ReadError string
  | YamlError string
  | PerPoolKeysInDefaults
  | InvalidPoolName string

definition checkPoolNames :: "Config \<Rightarrow> cfg_error + Config" where
  "checkPoolNames c =
     (case find (\<lambda>name. \<not> poolName name) (map fst (cfg_Pools c)) of
        Some name \<Rightarrow> Inl (InvalidPoolName name)
      | None \<Rightarrow> Inr c)"

definition splitDefaults :: "Config \<Rightarrow> cfg_error + Config" where
  "splitDefaults c =
     (case map_of (cfg_Pools c) DefaultsKey of
        Some d \<Rightarrow>
          if Pool_Command d \<noteq> [] \<or> Pool_Channel d \<noteq> [] then Inl PerPoolKeysInDefaults
          else checkPoolNames
                 (c\<lparr>cfg_Defaults := PoolSettings.truncate d,
                    cfg_Pools := gmap_del DefaultsKey (cfg_Pools c)\<rparr>)
      | None \<Rightarrow> checkPoolNames c)"

text \<open>\<open>yaml\<close> stands for the strict decoder, whose left result is its error text.\<close>

definition Parse :: "(string \<Rightarrow> string + Config) \<Rightarrow> string \<Rightarrow> cfg_error + Config" where
  "Parse yaml src =
     (case yaml src of
        Inl e \<Rightarrow> Inl (YamlError e)
      | Inr cfg \<Rightarrow> (case splitDefaults cfg of Inl e \<Rightarrow> Inl e | Inr cfg' \<Rightarrow> Inr cfg'))"

subsection \<open>Environment references\<close>

text \<open>\<open>os.Expand\<close>, with \<open>getenv\<close> for \<open>os.Getenv\<close>.\<close>

definition isShellSpecialVar :: "char \<Rightarrow> bool" where
  "isShellSpecialVar c \<longleftrightarrow> c \<in> set ''*#$@!?-0123456789''"

definition isAlphaNum :: "char \<Rightarrow> bool" where
  "isAlphaNum c \<longleftrightarrow> c = CHR ''_'' \<or> alnum c"

text \<open>The name after a dollar sign and the bytes it takes.\<close>

definition getShellName :: "string \<Rightarrow> string \<times> nat" where
  "getShellName s =
     (case s of
        [] \<Rightarrow> ([], 0)
      | c # t \<Rightarrow>
          if c = CHR ''{'' then
            (case t of
               d # e # _ \<Rightarrow> if isShellSpecialVar d \<and> e = CHR ''}'' then ([d], 3)
                 else (let n = takeWhile (\<lambda>x. x \<noteq> CHR ''}'') t
                       in if length n = length t then ([], 1) else if n = [] then ([], 2) else (n, length n + 2))
             | _ \<Rightarrow> (let n = takeWhile (\<lambda>x. x \<noteq> CHR ''}'') t
                       in if length n = length t then ([], 1) else if n = [] then ([], 2) else (n, length n + 2)))
          else if isShellSpecialVar c then ([c], 1)
          else (let n = takeWhile isAlphaNum s in (n, length n)))"

function os_Expand :: "(string \<Rightarrow> string) \<Rightarrow> string \<Rightarrow> string" where
  "os_Expand getenv [] = []"
| "os_Expand getenv (c # s) =
     (if c = CHR ''$'' \<and> s \<noteq> [] then
        (let (name, w) = getShellName s
         in (if name = [] \<and> 0 < w then [] else if name = [] then [c] else getenv name)
            @ os_Expand getenv (drop w s))
      else c # os_Expand getenv s)"
  by pat_completeness auto
termination by (relation "measure (\<lambda>(g, s). length s)") auto

text \<open>\<open>Load\<close>: \<open>file\<close> is what reading the path gives.\<close>

definition Load :: "(string \<Rightarrow> string + Config) \<Rightarrow> (string \<Rightarrow> string) \<Rightarrow> string + string \<Rightarrow> cfg_error + Config" where
  "Load yaml getenv file =
     (case file of
        Inl e \<Rightarrow> Inl (ReadError e)
      | Inr raw \<Rightarrow> (case Parse yaml (os_Expand getenv raw) of Inl e \<Rightarrow> Inl e | Inr cfg \<Rightarrow> Inr cfg))"

lemma os_Expand_no_dollar: "CHR ''$'' \<notin> set s \<Longrightarrow> os_Expand getenv s = s"
  by (induction getenv s rule: os_Expand.induct) auto

section \<open>Built-in defaults\<close>

record PoolConfig =
  pc_Name :: string
  pc_Enabled :: bool
  pc_Channel :: string
  pc_Command :: "string list"
  pc_Concurrency :: gint
  pc_OkExitCodes :: "gint list"
  pc_ExitFailureThreshold :: gint
  pc_ExitFailureWindow :: duration
  pc_ExitCooldown :: duration
  pc_ExitCooldownMax :: duration
  pc_ExitCooldownMultiplier :: f64
  pc_TTL :: duration
  pc_Poke :: duration
  pc_PokeCount :: gint
  pc_GraceShutdown :: duration
  pc_TermSignal :: signal
  pc_InheritEnv :: bool
  pc_Env :: "string gmap"
  pc_Dir :: string
  pc_ResultStream :: string

definition builtinPool :: PoolConfig where
  "builtinPool = \<lparr>
     pc_Name = [], pc_Enabled = True, pc_Channel = [], pc_Command = [],
     pc_Concurrency = 1, pc_OkExitCodes = [0],
     pc_ExitFailureThreshold = 3, pc_ExitFailureWindow = 10 * second,
     pc_ExitCooldown = 5 * second, pc_ExitCooldownMax = 5 * minute,
     pc_ExitCooldownMultiplier = Fin 2,
     pc_TTL = 0, pc_Poke = 0, pc_PokeCount = 1,
     pc_GraceShutdown = 30 * second, pc_TermSignal = SIGTERM, pc_InheritEnv = True,
     pc_Env = [], pc_Dir = [], pc_ResultStream = ''stdout'' \<rparr>"

definition DefaultLogFormat :: string where "DefaultLogFormat = ''text''"
definition DefaultLogTimestampFormat :: string where
  "DefaultLogTimestampFormat = ''2006-01-02T15:04:05.000Z07:00''"
definition DefaultHTTPAddr :: string where "DefaultHTTPAddr = ''127.0.0.1:8080''"
definition DefaultHintPath :: string where "DefaultHintPath = ''/hint''"
definition DefaultHealthPath :: string where "DefaultHealthPath = ''/healthz''"
definition DefaultMetricsPath :: string where "DefaultMetricsPath = ''/metrics''"
definition DefaultHTTPTimeout :: duration where "DefaultHTTPTimeout = 5 * second"
definition DefaultRedisAddr :: string where "DefaultRedisAddr = ''127.0.0.1:6379''"
definition DefaultRedisChannelPrefix :: string where "DefaultRedisChannelPrefix = ''jobs:''"
definition DefaultRedisDialTimeout :: duration where "DefaultRedisDialTimeout = 5 * second"
definition DefaultRedisReconnectMin :: duration where "DefaultRedisReconnectMin = 500 * millisecond"
definition DefaultRedisReconnectMax :: duration where "DefaultRedisReconnectMax = 30 * second"
definition DefaultMetricsNamespace :: string where "DefaultMetricsNamespace = ''doorbell''"
definition DefaultShutdownTimeout :: duration where "DefaultShutdownTimeout = 60 * second"

lemmas default_defs =
  DefaultLogFormat_def DefaultLogTimestampFormat_def DefaultHTTPAddr_def DefaultHintPath_def
  DefaultHealthPath_def DefaultMetricsPath_def DefaultHTTPTimeout_def DefaultRedisAddr_def
  DefaultRedisChannelPrefix_def DefaultRedisDialTimeout_def DefaultRedisReconnectMin_def
  DefaultRedisReconnectMax_def DefaultMetricsNamespace_def DefaultShutdownTimeout_def

definition HTTP_IsEnabled :: "HTTP \<Rightarrow> bool" where
  "HTTP_IsEnabled h \<longleftrightarrow> (case HTTP_Enabled h of None \<Rightarrow> True | Some b \<Rightarrow> b)"

definition Redis_IsEnabled :: "Redis \<Rightarrow> bool" where
  "Redis_IsEnabled r \<longleftrightarrow> (case Redis_Enabled r of None \<Rightarrow> True | Some b \<Rightarrow> b)"

definition Metrics_IsEnabled :: "MetricsCfg \<Rightarrow> bool" where
  "Metrics_IsEnabled m \<longleftrightarrow> (case Metrics_Enabled m of None \<Rightarrow> True | Some b \<Rightarrow> b)"

definition setStr :: "string \<Rightarrow> string \<Rightarrow> string" where
  "setStr p def = (if p = [] then def else p)"

definition setDur :: "duration \<Rightarrow> duration \<Rightarrow> duration" where
  "setDur p def = (if p = 0 then def else p)"

definition setBool :: "bool option \<Rightarrow> bool \<Rightarrow> bool option" where
  "setBool p def = (case p of None \<Rightarrow> Some def | Some b \<Rightarrow> Some b)"

definition applyDefaults :: "Config \<Rightarrow> Config" where
  "applyDefaults c =
     c\<lparr>cfg_Log := (cfg_Log c)\<lparr>
         Log_Format := setStr (Log_Format (cfg_Log c)) DefaultLogFormat,
         Log_TimestampFormat := setStr (Log_TimestampFormat (cfg_Log c)) DefaultLogTimestampFormat\<rparr>,
       cfg_HTTP := (cfg_HTTP c)\<lparr>
         HTTP_Enabled := setBool (HTTP_Enabled (cfg_HTTP c)) True,
         HTTP_Addr := setStr (HTTP_Addr (cfg_HTTP c)) DefaultHTTPAddr,
         HTTP_HintPath := setStr (HTTP_HintPath (cfg_HTTP c)) DefaultHintPath,
         HTTP_HealthPath := setStr (HTTP_HealthPath (cfg_HTTP c)) DefaultHealthPath,
         HTTP_MetricsPath := setStr (HTTP_MetricsPath (cfg_HTTP c)) DefaultMetricsPath,
         HTTP_ReadTimeout := setDur (HTTP_ReadTimeout (cfg_HTTP c)) DefaultHTTPTimeout,
         HTTP_WriteTimeout := setDur (HTTP_WriteTimeout (cfg_HTTP c)) DefaultHTTPTimeout,
         HTTP_ShutdownTimeout := setDur (HTTP_ShutdownTimeout (cfg_HTTP c)) DefaultHTTPTimeout\<rparr>,
       cfg_Redis := (cfg_Redis c)\<lparr>
         Redis_Enabled := setBool (Redis_Enabled (cfg_Redis c)) True,
         Redis_Addr := setStr (Redis_Addr (cfg_Redis c)) DefaultRedisAddr,
         Redis_ChannelPrefix := setStr (Redis_ChannelPrefix (cfg_Redis c)) DefaultRedisChannelPrefix,
         Redis_DialTimeout := setDur (Redis_DialTimeout (cfg_Redis c)) DefaultRedisDialTimeout,
         Redis_ReconnectMin := setDur (Redis_ReconnectMin (cfg_Redis c)) DefaultRedisReconnectMin,
         Redis_ReconnectMax := setDur (Redis_ReconnectMax (cfg_Redis c)) DefaultRedisReconnectMax\<rparr>,
       cfg_Metrics := (cfg_Metrics c)\<lparr>
         Metrics_Enabled := setBool (Metrics_Enabled (cfg_Metrics c)) True,
         Metrics_Namespace := setStr (Metrics_Namespace (cfg_Metrics c)) DefaultMetricsNamespace\<rparr>,
       cfg_ShutdownTimeout := setDur (cfg_ShutdownTimeout c) DefaultShutdownTimeout\<rparr>"

section \<open>Resolving a pool through the three layers\<close>

fun pick :: "'a \<Rightarrow> 'a option list \<Rightarrow> 'a" where
  "pick base [] = base"
| "pick base (l # ls) = pick (case l of None \<Rightarrow> base | Some v \<Rightarrow> v) ls"

fun pickDur :: "duration \<Rightarrow> duration option list \<Rightarrow> duration" where
  "pickDur base [] = base"
| "pickDur base (l # ls) = pickDur (case l of None \<Rightarrow> base | Some v \<Rightarrow> v) ls"

fun pickSlice :: "'a list \<Rightarrow> 'a list option list \<Rightarrow> 'a list" where
  "pickSlice base [] = base"
| "pickSlice base (l # ls) = pickSlice (case l of None \<Rightarrow> base | Some v \<Rightarrow> v) ls"

definition mergeEnv :: "string gmap list \<Rightarrow> string gmap" where
  "mergeEnv layers = fold (fold (\<lambda>(k, v). gmap_put k v)) layers []"

definition resolvePool :: "PoolSettings \<Rightarrow> string \<Rightarrow> Pool \<Rightarrow> PoolConfig" where
  "resolvePool d name p =
     (let r = builtinPool in
      \<lparr>pc_Name = name,
       pc_Enabled = pick (pc_Enabled r) [ps_Enabled d, ps_Enabled p],
       pc_Channel = (if Pool_Channel p = [] then name else Pool_Channel p),
       pc_Command = Pool_Command p,
       pc_Concurrency = pick (pc_Concurrency r) [ps_Concurrency d, ps_Concurrency p],
       pc_OkExitCodes = pickSlice (pc_OkExitCodes r) [ps_OkExitCodes d, ps_OkExitCodes p],
       pc_ExitFailureThreshold =
         pick (pc_ExitFailureThreshold r) [ps_ExitFailureThreshold d, ps_ExitFailureThreshold p],
       pc_ExitFailureWindow =
         pickDur (pc_ExitFailureWindow r) [ps_ExitFailureWindow d, ps_ExitFailureWindow p],
       pc_ExitCooldown = pickDur (pc_ExitCooldown r) [ps_ExitCooldown d, ps_ExitCooldown p],
       pc_ExitCooldownMax = pickDur (pc_ExitCooldownMax r) [ps_ExitCooldownMax d, ps_ExitCooldownMax p],
       pc_ExitCooldownMultiplier =
         pick (pc_ExitCooldownMultiplier r) [ps_ExitCooldownMultiplier d, ps_ExitCooldownMultiplier p],
       pc_TTL = pickDur (pc_TTL r) [ps_TTL d, ps_TTL p],
       pc_Poke = pickDur (pc_Poke r) [ps_Poke d, ps_Poke p],
       pc_PokeCount = pick (pc_PokeCount r) [ps_PokeCount d, ps_PokeCount p],
       pc_GraceShutdown = pickDur (pc_GraceShutdown r) [ps_GraceShutdown d, ps_GraceShutdown p],
       pc_TermSignal =
         (let s = pick (pc_TermSignal r) [ps_TermSignal d, ps_TermSignal p]
          in if s \<noteq> 0 then s else pc_TermSignal r),
       pc_InheritEnv = pick (pc_InheritEnv r) [ps_InheritEnv d, ps_InheritEnv p],
       pc_Env = mergeEnv [ps_Env d, ps_Env p],
       pc_Dir = pick (pc_Dir r) [ps_Dir d, ps_Dir p],
       pc_ResultStream = pick (pc_ResultStream r) [ps_ResultStream d, ps_ResultStream p]\<rparr>)"

text \<open>\<open>Config.Pool\<close>; \<open>None\<close> is the panic on an unknown name.\<close>

definition Config_Pool :: "Config \<Rightarrow> string \<Rightarrow> PoolConfig option" where
  "Config_Pool c name =
     (case map_of (cfg_Pools c) name of
        None \<Rightarrow> None
      | Some p \<Rightarrow> Some (resolvePool (cfg_Defaults c) name p))"

text \<open>\<open>ResolvedPools\<close> asks only for names of the map, so no call panics
  (\<open>ResolvedPools_total\<close>) and \<open>map_filter\<close> drops nothing.\<close>

definition ResolvedPools :: "Config \<Rightarrow> PoolConfig list" where
  "ResolvedPools c = List.map_filter (Config_Pool c) (sort (map fst (cfg_Pools c)))"

subsection \<open>Layers\<close>

declare pick.simps [simp del] pickDur.simps [simp del] pickSlice.simps [simp del]

definition layer3 :: "'a option \<Rightarrow> 'a option \<Rightarrow> 'a \<Rightarrow> 'a" where
  "layer3 pool defs builtin =
     (case pool of Some v \<Rightarrow> v | None \<Rightarrow> (case defs of Some v \<Rightarrow> v | None \<Rightarrow> builtin))"

lemma pick_layers [simp]: "pick b [d, p] = layer3 p d b"
  by (simp add: pick.simps layer3_def split: option.splits)

lemma pickDur_layers [simp]: "pickDur b [d, p] = layer3 p d b"
  by (simp add: pickDur.simps layer3_def split: option.splits)

lemma pickSlice_layers [simp]: "pickSlice b [d, p] = layer3 p d b"
  by (simp add: pickSlice.simps layer3_def split: option.splits)

lemma map_of_fold_put:
  "gmap_ok l \<Longrightarrow> map_of (fold (\<lambda>(k, v). gmap_put k v) l m) = map_of m ++ map_of l"
proof (induction l arbitrary: m)
  case (Cons a l)
  obtain k v where a: "a = (k, v)" by (cases a)
  with Cons.prems have "map_of l k = None" by (simp add: map_of_eq_None_iff)
  with Cons a show ?case by (auto simp: fun_eq_iff map_add_def split: option.splits)
qed simp

lemma gmap_ok_fold_put: "gmap_ok m \<Longrightarrow> gmap_ok (fold (\<lambda>(k, v). gmap_put k v) l m)"
  by (induction l arbitrary: m) (auto simp: gmap_ok_put)

lemma gmap_ok_mergeEnv: "gmap_ok (mergeEnv layers)"
proof -
  have "gmap_ok m \<Longrightarrow> gmap_ok (fold (fold (\<lambda>(k, v). gmap_put k v)) ls m)" for m :: "string gmap" and ls
    by (induction ls arbitrary: m) (auto intro: gmap_ok_fold_put)
  then show ?thesis by (simp add: mergeEnv_def)
qed

lemma map_of_mergeEnv:
  "gmap_ok d \<Longrightarrow> gmap_ok p \<Longrightarrow> map_of (mergeEnv [d, p]) = map_of d ++ map_of p"
  by (simp add: mergeEnv_def map_of_fold_put)

subsection \<open>The resolved pools\<close>

lemma Config_Pool_Some_iff:
  "(\<exists>r. Config_Pool c n = Some r) \<longleftrightarrow> n \<in> fst ` set (cfg_Pools c)"
proof -
  have "(\<exists>r. Config_Pool c n = Some r) \<longleftrightarrow> map_of (cfg_Pools c) n \<noteq> None"
    by (simp add: Config_Pool_def split: option.splits)
  then show ?thesis by (simp add: map_of_eq_None_iff)
qed

lemma Config_Pool_Name: "Config_Pool c n = Some r \<Longrightarrow> pc_Name r = n"
  by (auto simp: Config_Pool_def resolvePool_def Let_def split: option.splits)

lemma map_filter_total:
  "\<forall>x \<in> set xs. \<exists>y. f x = Some y \<Longrightarrow> map Some (List.map_filter f xs) = map f xs"
  by (induction xs) (auto simp: List.map_filter_simps)

lemma ResolvedPools_total: "map Some (ResolvedPools c) = map (Config_Pool c) (sort (map fst (cfg_Pools c)))"
  unfolding ResolvedPools_def by (rule map_filter_total) (simp add: Config_Pool_Some_iff)

lemma ResolvedPools_names: "map pc_Name (ResolvedPools c) = sort (map fst (cfg_Pools c))"
proof (rule nth_equalityI)
  have len: "length (ResolvedPools c) = length (sort (map fst (cfg_Pools c)))"
    using arg_cong [OF ResolvedPools_total [of c], of length] by simp
  then show "length (map pc_Name (ResolvedPools c)) = length (sort (map fst (cfg_Pools c)))" by simp
  fix i assume "i < length (map pc_Name (ResolvedPools c))"
  with len arg_cong [OF ResolvedPools_total [of c], of "\<lambda>xs. xs ! i"]
  have "Config_Pool c (sort (map fst (cfg_Pools c)) ! i) = Some (ResolvedPools c ! i)" by simp
  then show "map pc_Name (ResolvedPools c) ! i = sort (map fst (cfg_Pools c)) ! i"
    using \<open>i < _\<close> by (simp add: Config_Pool_Name)
qed

lemma ResolvedPools_mem_iff: "r \<in> set (ResolvedPools c) \<longleftrightarrow> Config_Pool c (pc_Name r) = Some r"
proof -
  have "Some r \<in> Some ` set (ResolvedPools c) \<longleftrightarrow> Some r \<in> Config_Pool c ` fst ` set (cfg_Pools c)"
    using arg_cong [OF ResolvedPools_total [of c], of set] by simp
  also have "\<dots> \<longleftrightarrow> Config_Pool c (pc_Name r) = Some r"
    using Config_Pool_Name [of c] Config_Pool_Some_iff [of c] by (auto simp: image_iff) metis+
  finally show ?thesis by auto
qed

lemma ResolvedPools_distinct: "gmap_ok (cfg_Pools c) \<Longrightarrow> distinct (map pc_Name (ResolvedPools c))"
  by (simp add: ResolvedPools_names)

lemma resolve_layers:
  "pc_Name (resolvePool d n p) = n"
  "pc_Channel (resolvePool d n p) = (if Pool_Channel p = [] then n else Pool_Channel p)"
  "pc_Command (resolvePool d n p) = Pool_Command p"
  "pc_Enabled (resolvePool d n p) = layer3 (ps_Enabled p) (ps_Enabled d) True"
  "pc_Concurrency (resolvePool d n p) = layer3 (ps_Concurrency p) (ps_Concurrency d) 1"
  "pc_OkExitCodes (resolvePool d n p) = layer3 (ps_OkExitCodes p) (ps_OkExitCodes d) [0]"
  "pc_ExitFailureThreshold (resolvePool d n p)
     = layer3 (ps_ExitFailureThreshold p) (ps_ExitFailureThreshold d) 3"
  "pc_ExitFailureWindow (resolvePool d n p)
     = layer3 (ps_ExitFailureWindow p) (ps_ExitFailureWindow d) (10 * second)"
  "pc_ExitCooldown (resolvePool d n p) = layer3 (ps_ExitCooldown p) (ps_ExitCooldown d) (5 * second)"
  "pc_ExitCooldownMax (resolvePool d n p)
     = layer3 (ps_ExitCooldownMax p) (ps_ExitCooldownMax d) (5 * minute)"
  "pc_ExitCooldownMultiplier (resolvePool d n p)
     = layer3 (ps_ExitCooldownMultiplier p) (ps_ExitCooldownMultiplier d) (Fin 2)"
  "pc_TTL (resolvePool d n p) = layer3 (ps_TTL p) (ps_TTL d) 0"
  "pc_Poke (resolvePool d n p) = layer3 (ps_Poke p) (ps_Poke d) 0"
  "pc_PokeCount (resolvePool d n p) = layer3 (ps_PokeCount p) (ps_PokeCount d) 1"
  "pc_GraceShutdown (resolvePool d n p) = layer3 (ps_GraceShutdown p) (ps_GraceShutdown d) (30 * second)"
  "pc_TermSignal (resolvePool d n p)
     = (let s = layer3 (ps_TermSignal p) (ps_TermSignal d) SIGTERM in if s = 0 then SIGTERM else s)"
  "pc_InheritEnv (resolvePool d n p) = layer3 (ps_InheritEnv p) (ps_InheritEnv d) True"
  "pc_Dir (resolvePool d n p) = layer3 (ps_Dir p) (ps_Dir d) []"
  "pc_ResultStream (resolvePool d n p) = layer3 (ps_ResultStream p) (ps_ResultStream d) ''stdout''"
  by (simp_all add: resolvePool_def builtinPool_def Let_def)

text \<open>Every knob of a resolved pool is the pool's own value if it set one (an explicit
  zero included), else the value of \<open>pools._defaults\<close>, else the built-in default; the
  channel defaults to the pool name and an unset or zero signal to SIGTERM.\<close>

theorem resolve_precedence:
  "pc_Name (resolvePool d n p) = n \<and>
   pc_Channel (resolvePool d n p) = (if Pool_Channel p = [] then n else Pool_Channel p) \<and>
   pc_Command (resolvePool d n p) = Pool_Command p \<and>
   pc_Enabled (resolvePool d n p) = layer3 (ps_Enabled p) (ps_Enabled d) True \<and>
   pc_Concurrency (resolvePool d n p) = layer3 (ps_Concurrency p) (ps_Concurrency d) 1 \<and>
   pc_OkExitCodes (resolvePool d n p) = layer3 (ps_OkExitCodes p) (ps_OkExitCodes d) [0] \<and>
   pc_ExitFailureThreshold (resolvePool d n p)
     = layer3 (ps_ExitFailureThreshold p) (ps_ExitFailureThreshold d) 3 \<and>
   pc_ExitFailureWindow (resolvePool d n p)
     = layer3 (ps_ExitFailureWindow p) (ps_ExitFailureWindow d) (10 * second) \<and>
   pc_ExitCooldown (resolvePool d n p) = layer3 (ps_ExitCooldown p) (ps_ExitCooldown d) (5 * second) \<and>
   pc_ExitCooldownMax (resolvePool d n p)
     = layer3 (ps_ExitCooldownMax p) (ps_ExitCooldownMax d) (5 * minute) \<and>
   pc_ExitCooldownMultiplier (resolvePool d n p)
     = layer3 (ps_ExitCooldownMultiplier p) (ps_ExitCooldownMultiplier d) (Fin 2) \<and>
   pc_TTL (resolvePool d n p) = layer3 (ps_TTL p) (ps_TTL d) 0 \<and>
   pc_Poke (resolvePool d n p) = layer3 (ps_Poke p) (ps_Poke d) 0 \<and>
   pc_PokeCount (resolvePool d n p) = layer3 (ps_PokeCount p) (ps_PokeCount d) 1 \<and>
   pc_GraceShutdown (resolvePool d n p) = layer3 (ps_GraceShutdown p) (ps_GraceShutdown d) (30 * second) \<and>
   pc_TermSignal (resolvePool d n p)
     = (let s = layer3 (ps_TermSignal p) (ps_TermSignal d) SIGTERM in if s = 0 then SIGTERM else s) \<and>
   pc_InheritEnv (resolvePool d n p) = layer3 (ps_InheritEnv p) (ps_InheritEnv d) True \<and>
   pc_Dir (resolvePool d n p) = layer3 (ps_Dir p) (ps_Dir d) [] \<and>
   pc_ResultStream (resolvePool d n p) = layer3 (ps_ResultStream p) (ps_ResultStream d) ''stdout''"
  by (intro conjI resolve_layers)

text \<open>A worker's configured environment is the merge of the two layers, the pool's
  value winning on a common key, and has no duplicate keys.\<close>

theorem resolve_env:
  assumes "gmap_ok (ps_Env d)" "gmap_ok (ps_Env p)"
  shows "map_of (pc_Env (resolvePool d n p)) = map_of (ps_Env d) ++ map_of (ps_Env p) \<and>
    gmap_ok (pc_Env (resolvePool d n p))"
  using assms by (simp add: resolvePool_def Let_def map_of_mergeEnv gmap_ok_mergeEnv)

definition emptySettings :: PoolSettings where
  "emptySettings = \<lparr>
     ps_Enabled = None, ps_Concurrency = None, ps_OkExitCodes = None,
     ps_ExitFailureThreshold = None, ps_ExitFailureWindow = None, ps_ExitCooldown = None,
     ps_ExitCooldownMax = None, ps_ExitCooldownMultiplier = None, ps_TTL = None, ps_Poke = None,
     ps_PokeCount = None, ps_GraceShutdown = None, ps_TermSignal = None, ps_InheritEnv = None,
     ps_Env = [], ps_Dir = None, ps_ResultStream = None \<rparr>"

definition plainPool :: "string list \<Rightarrow> Pool" where
  "plainPool cmd = PoolSettings.extend emptySettings (Pool.fields [] cmd)"

lemmas plain_defs = plainPool_def emptySettings_def PoolSettings.defs Pool.defs

lemma resolve_env_witness:
  "map_of (pc_Env (resolvePool (emptySettings\<lparr>ps_Env := [(''A'', ''1''), (''B'', ''2'')]\<rparr>) ''p''
      ((plainPool [''w''])\<lparr>ps_Env := [(''B'', ''3'')]\<rparr>))) ''B'' = Some ''3''"
proof -
  let ?d = "emptySettings\<lparr>ps_Env := [(''A'', ''1''), (''B'', ''2'')]\<rparr>"
  let ?p = "(plainPool [''w''])\<lparr>ps_Env := [(''B'', ''3'')]\<rparr>"
  have "gmap_ok (ps_Env ?d)" "gmap_ok (ps_Env ?p)" by simp_all
  from resolve_env [OF this] show ?thesis by simp
qed

text \<open>The resolved pools do not depend on the order in which Go ranges over the pools
  map, are sorted by name, and are exactly one resolved config per configured pool.\<close>

theorem ResolvedPools_order_independent:
  assumes "gmap_ok (cfg_Pools c)" and "mset (cfg_Pools c) = mset m"
  shows "ResolvedPools (c\<lparr>cfg_Pools := m\<rparr>) = ResolvedPools c \<and>
    sorted_wrt (<) (map pc_Name (ResolvedPools c)) \<and>
    (\<forall>r. r \<in> set (ResolvedPools c) \<longleftrightarrow>
      (\<exists>p. (pc_Name r, p) \<in> set (cfg_Pools c) \<and> r = resolvePool (cfg_Defaults c) (pc_Name r) p))"
proof -
  have "ResolvedPools (c\<lparr>cfg_Pools := m\<rparr>) = ResolvedPools c"
    using sort_keys_perm [OF assms(2)] map_of_perm [OF assms]
    by (simp add: ResolvedPools_def Config_Pool_def [abs_def] cong: option.case_cong)
  moreover have "sorted_wrt (<) (map pc_Name (ResolvedPools c))"
    using assms(1) by (simp add: ResolvedPools_names strict_sorted_iff)
  moreover have "r \<in> set (ResolvedPools c) \<longleftrightarrow>
      (\<exists>p. (pc_Name r, p) \<in> set (cfg_Pools c) \<and> r = resolvePool (cfg_Defaults c) (pc_Name r) p)" for r
  proof -
    have "Config_Pool c n = Some r \<longleftrightarrow>
        (\<exists>p. map_of (cfg_Pools c) n = Some p \<and> r = resolvePool (cfg_Defaults c) n p)" for n
      by (auto simp: Config_Pool_def split: option.splits)
    then show ?thesis using assms(1) by (simp add: ResolvedPools_mem_iff map_of_eq_Some_iff)
  qed
  ultimately show ?thesis by blast
qed

text \<open>The document the decoder yields for pools alone: every other key is unset.\<close>

definition bareConfig :: "Pool gmap \<Rightarrow> Config" where
  "bareConfig pools = \<lparr>
     cfg_Log = \<lparr>Log_Format = [], Log_Level = Info, Log_TimestampFormat = [], Log_ChildOutput = []\<rparr>,
     cfg_HTTP = \<lparr>HTTP_Enabled = None, HTTP_Addr = [], HTTP_HintPath = [], HTTP_HealthPath = [],
       HTTP_MetricsPath = [], HTTP_ReadTimeout = 0, HTTP_WriteTimeout = 0, HTTP_ShutdownTimeout = 0\<rparr>,
     cfg_Redis = \<lparr>Redis_Enabled = None, Redis_Addr = [], Redis_Username = [], Redis_Password = [],
       Redis_DB = 0, Redis_TLS = False, Redis_ChannelPrefix = [], Redis_DialTimeout = 0,
       Redis_ReconnectMin = 0, Redis_ReconnectMax = 0\<rparr>,
     cfg_Metrics = \<lparr>Metrics_Enabled = None, Metrics_Namespace = [], Metrics_Addr = []\<rparr>,
     cfg_ShutdownTimeout = 0, cfg_Pools = pools, cfg_Defaults = emptySettings\<rparr>"

lemma ResolvedPools_order_independent_witness:
  "let p = plainPool [''w'']; c = bareConfig [(''b'', p), (''a'', p)]
   in ResolvedPools (c\<lparr>cfg_Pools := [(''a'', p), (''b'', p)]\<rparr>) = ResolvedPools c"
  unfolding Let_def
  by (rule ResolvedPools_order_independent [THEN conjunct1]) (simp_all add: bareConfig_def)

text \<open>C35: a document is parsed only when the decoder accepts it, \<open>pools._defaults\<close> sets
  neither a command nor a channel, and every other pool name is valid; the result then
  carries the settings of \<open>_defaults\<close> and no pool of that name.\<close>

theorem Parse_accepts_iff:
  "Parse yaml src = Inr c \<longleftrightarrow>
     (\<exists>c0. yaml src = Inr c0 \<and>
        (case map_of (cfg_Pools c0) DefaultsKey of
           None \<Rightarrow> c = c0
         | Some d \<Rightarrow> Pool_Command d = [] \<and> Pool_Channel d = [] \<and>
             c = c0\<lparr>cfg_Defaults := PoolSettings.truncate d,
                    cfg_Pools := gmap_del DefaultsKey (cfg_Pools c0)\<rparr>) \<and>
        DefaultsKey \<notin> fst ` set (cfg_Pools c) \<and> list_all poolName (map fst (cfg_Pools c)))"
proof -
  define N where "N x \<longleftrightarrow> list_all poolName (map fst (cfg_Pools x))" for x :: Config
  have names: "checkPoolNames x = Inr y \<longleftrightarrow> y = x \<and> N y" for x y
    by (auto simp: checkPoolNames_def find_None_iff find_Some_iff N_def list_all_iff split: option.splits)
  have "\<not> poolName DefaultsKey"
    by (simp add: poolName_def DefaultsKey_def alnum_def)
  then have reserved: "N x \<longleftrightarrow> DefaultsKey \<notin> fst ` set (cfg_Pools x) \<and> N x" for x
    by (auto simp: N_def list_all_iff)
  have "splitDefaults c0 = Inr c \<longleftrightarrow>
      (case map_of (cfg_Pools c0) DefaultsKey of
           None \<Rightarrow> c = c0
         | Some d \<Rightarrow> Pool_Command d = [] \<and> Pool_Channel d = [] \<and>
             c = c0\<lparr>cfg_Defaults := PoolSettings.truncate d,
                    cfg_Pools := gmap_del DefaultsKey (cfg_Pools c0)\<rparr>) \<and> N c" for c0
    by (cases "map_of (cfg_Pools c0) DefaultsKey") (auto simp: splitDefaults_def names)
  moreover have "Parse yaml src = Inr c \<longleftrightarrow> (\<exists>c0. yaml src = Inr c0 \<and> splitDefaults c0 = Inr c)"
    by (auto simp: Parse_def split: sum.splits)
  ultimately show ?thesis using reserved [of c] by (simp only: N_def [symmetric])
qed

end
