(* ===== verification/Breaker.thy ===== *)
theory Breaker
  imports Config
begin

text \<open>
  \<open>internal/pool/breaker.go\<close>: the failure breaker of one pool.  The operations take the
  reading of the clock and return their result with the new state.

  \<open>spec_step\<close> is a specification over the whole history of failures; its argument says which
  of them count.  \<open>breaker_refines\<close> shows that the ring of the last \<open>threshold\<close> timestamps
  implements the one that counts the failures since the last trip, on every sequence of
  calls with a clock that does not run backwards.  The README counts every failure inside the
  window: \<open>breaker_keeps_readme\<close> says when that is the same, \<open>ok_resets_inside_window\<close> that with
  the default settings it is not.
\<close>

record breaker =
  threshold :: gint
  window :: duration
  cooldown :: duration
  maxCooldown :: duration
  multiplier :: f64
  failures :: "gtime list"
  openUntil :: gtime
  br_level :: nat

definition newBreaker :: "PoolConfig \<Rightarrow> breaker" where
  "newBreaker cfg = \<lparr>
     threshold = pc_ExitFailureThreshold cfg,
     window = pc_ExitFailureWindow cfg,
     cooldown = pc_ExitCooldown cfg,
     maxCooldown = pc_ExitCooldownMax cfg,
     multiplier = pc_ExitCooldownMultiplier cfg,
     failures = [], openUntil = 0, br_level = 0 \<rparr>"

definition breaker_enabled :: "breaker \<Rightarrow> bool" where
  "breaker_enabled b \<longleftrightarrow> threshold b > 0 \<and> cooldown b > 0"

definition decay :: "breaker \<Rightarrow> gtime \<Rightarrow> breaker" where
  "decay b now =
     (if br_level b > 0 \<and> \<not> time_before now (time_add (openUntil b) (maxCooldown b))
      then b\<lparr>br_level := 0\<rparr> else b)"

definition breaker_open :: "breaker \<Rightarrow> gtime \<Rightarrow> bool \<times> breaker" where
  "breaker_open b now = (let b = decay b now in (time_before now (openUntil b), b))"

definition nextCooldown :: "breaker \<Rightarrow> duration" where
  "nextCooldown b =
     (let d = f64_mul (f64_of_int (cooldown b)) (math_pow (multiplier b) (br_level b))
      in if f64_less (f64_of_int (maxCooldown b)) d then maxCooldown b else f64_to_int64 d)"

definition breaker_failure :: "breaker \<Rightarrow> gtime \<Rightarrow> (duration \<times> bool) \<times> breaker" where
  "breaker_failure b now =
     (if \<not> breaker_enabled b then ((0, False), b)
      else let b = decay b now;
               fs = failures b @ [now];
               fs = (if int (length fs) > threshold b then last_n (nat (threshold b)) fs else fs);
               b = b\<lparr>failures := fs\<rparr>
           in if time_before now (openUntil b) \<or> int (length fs) < threshold b
                 \<or> time_sub now (hd fs) > window b
              then ((0, False), b)
              else let d = nextCooldown b
                   in ((d, True),
                       b\<lparr>openUntil := time_add now d, br_level := br_level b + 1, failures := []\<rparr>))"

definition breaker_ok :: "breaker \<Rightarrow> gtime \<Rightarrow> breaker" where
  "breaker_ok b now =
     (let b = decay b now
      in if time_before now (openUntil b) then b
         else if list_ex (\<lambda>f. time_sub now f \<le> window b) (failures b) then b
         else b\<lparr>br_level := 0\<rparr>)"

section \<open>Frame and well-formedness\<close>

abbreviation same_settings :: "breaker \<Rightarrow> breaker \<Rightarrow> bool" where
  "same_settings b c \<equiv> threshold c = threshold b \<and> window c = window b \<and> cooldown c = cooldown b \<and>
     maxCooldown c = maxCooldown b \<and> multiplier c = multiplier b"

lemma decay_simps [simp]:
  "threshold (decay b t) = threshold b" "window (decay b t) = window b"
  "cooldown (decay b t) = cooldown b" "maxCooldown (decay b t) = maxCooldown b"
  "multiplier (decay b t) = multiplier b" "failures (decay b t) = failures b"
  "openUntil (decay b t) = openUntil b"
  by (simp_all add: decay_def)

lemma breaker_enabled_decay [simp]: "breaker_enabled (decay b t) = breaker_enabled b"
  by (simp add: breaker_enabled_def)

lemma decay_idem [simp]: "decay (decay b t) t = decay b t"
  by (simp add: decay_def)

lemma br_level_decay_le: "br_level (decay b t) \<le> br_level b"
  by (simp add: decay_def)

lemma same_settings_failure: "same_settings b (snd (breaker_failure b t))"
  by (simp add: breaker_failure_def Let_def)

lemma same_settings_ok: "same_settings b (breaker_ok b t)"
  by (simp add: breaker_ok_def Let_def)

lemma same_settings_open: "same_settings b (snd (breaker_open b t))"
  by (simp add: breaker_open_def Let_def)

text \<open>The ring never holds more than \<open>threshold\<close> timestamps, and none when disabled.\<close>

definition breaker_wf :: "breaker \<Rightarrow> bool" where
  "breaker_wf b \<longleftrightarrow> (if breaker_enabled b then int (length (failures b)) \<le> threshold b
                     else failures b = [] \<and> br_level b = 0 \<and> openUntil b = 0)"

lemma breaker_wf_new: "breaker_wf (newBreaker cfg)"
  by (simp add: breaker_wf_def newBreaker_def breaker_enabled_def)

lemma breaker_wf_decay: "breaker_wf b \<Longrightarrow> breaker_wf (decay b t)"
  by (auto simp: breaker_wf_def decay_def breaker_enabled_def)

lemma breaker_wf_failure: "breaker_wf b \<Longrightarrow> breaker_wf (snd (breaker_failure b t))"
  by (auto simp: breaker_wf_def breaker_failure_def breaker_enabled_def Let_def)

lemma breaker_wf_ok: "breaker_wf b \<Longrightarrow> breaker_wf (breaker_ok b t)"
  using breaker_wf_decay [of b t] by (auto simp: breaker_wf_def breaker_ok_def breaker_enabled_def Let_def)

lemma breaker_wf_open: "breaker_wf b \<Longrightarrow> breaker_wf (snd (breaker_open b t))"
  by (simp add: breaker_open_def Let_def breaker_wf_decay)

lemmas breaker_wf_ops = breaker_wf_new breaker_wf_failure breaker_wf_ok breaker_wf_open

section \<open>The cooldown\<close>

text \<open>
  The settings for which the doubles of \<open>nextCooldown\<close> are within 53 bits: the rules of
  the validator, and a maximal cooldown of at most \<open>2 ^ 53\<close> nanoseconds (104 days).
\<close>

definition cooldown_ok :: "breaker \<Rightarrow> bool" where
  "cooldown_ok b \<longleftrightarrow> 0 \<le> cooldown b \<and> cooldown b \<le> maxCooldown b \<and> maxCooldown b \<le> 2 ^ 53 \<and>
     (case multiplier b of Fin m \<Rightarrow> 1 \<le> m | PosInf \<Rightarrow> True | _ \<Rightarrow> False) \<and> br_level b < 2 ^ 63"

lemma math_pow_cooldown:
  assumes "cooldown_ok b"
  shows "math_pow (multiplier b) (br_level b) = PosInf \<or>
    (\<exists>r. math_pow (multiplier b) (br_level b) = Fin r \<and> 1 \<le> r)"
  using assms math_pow_ge_1 [of _ "br_level b"]
  by (cases "multiplier b") (auto simp: cooldown_ok_def math_pow_def)

lemma f64_mul_scaled_cases:
  assumes "0 \<le> c" "c \<le> 2 ^ 53" "1 \<le> r"
  shows "f64_mul (f64_of_int c) (Fin r) = PosInf \<or>
    (\<exists>x. f64_mul (f64_of_int c) (Fin r) = Fin x \<and> of_int c \<le> x)"
proof -
  have nn: "0 \<le> of_int c * r" using assms by simp
  have "of_int c * 1 \<le> of_int c * r" using assms by (intro mult_left_mono) auto
  then have "of_int c \<le> round53 (of_int c * r)"
    using assms by (intro round53_ge representable_int) auto
  then show ?thesis
    using assms by (simp add: f64_of_int_exact) (rule to_f64_nonneg_cases [OF nn]; simp)
qed

lemma nextCooldown_cases:
  assumes "cooldown_ok b"
  obtains "nextCooldown b = maxCooldown b"
    | x where "f64_mul (f64_of_int (cooldown b)) (math_pow (multiplier b) (br_level b)) = Fin x"
        "of_int (cooldown b) \<le> x" "x \<le> of_int (maxCooldown b)" "nextCooldown b = \<lfloor>x\<rfloor>"
    | "cooldown b = 0" "math_pow (multiplier b) (br_level b) = PosInf"
proof -
  let ?d = "f64_mul (f64_of_int (cooldown b)) (math_pow (multiplier b) (br_level b))"
  have c: "0 \<le> cooldown b" "cooldown b \<le> 2 ^ 53" "cooldown b \<le> maxCooldown b" "maxCooldown b \<le> 2 ^ 53"
    using assms by (auto simp: cooldown_ok_def)
  then have m: "f64_of_int (maxCooldown b) = Fin (of_int (maxCooldown b))"
    by (intro f64_of_int_exact) auto
  consider "math_pow (multiplier b) (br_level b) = PosInf"
    | r where "math_pow (multiplier b) (br_level b) = Fin r" "1 \<le> r"
    using math_pow_cooldown [OF assms] by blast
  then show ?thesis
  proof cases
    case 1
    with c m show ?thesis
      using that(1,3) by (cases "cooldown b = 0") (auto simp: nextCooldown_def f64_of_int_exact)
  next
    case 2
    with f64_mul_scaled_cases [OF c(1,2) 2(2)]
    consider "?d = PosInf" | x where "?d = Fin x" "of_int (cooldown b) \<le> x" by auto
    then show ?thesis
    proof cases
      case 1
      with m show ?thesis using that(1) by (simp add: nextCooldown_def)
    next
      case (2 x)
      show ?thesis
      proof (cases "of_int (maxCooldown b) < x")
        case True
        with 2 m show ?thesis using that(1) by (simp add: nextCooldown_def)
      next
        case False
        have "(of_int (maxCooldown b) :: rat) \<le> of_int (2 ^ 53)" using c by (subst of_int_le_iff)
        with False have "x < 2 ^ 63" by simp
        moreover have "0 \<le> x" using 2 c by (meson of_int_0_le_iff order_trans)
        ultimately have "f64_to_int64 ?d = \<lfloor>x\<rfloor>" using 2 by (simp add: f64_to_int64_Fin del: f64_to_int64.simps)
        with False 2 m show ?thesis using that(2) [of x] by (simp add: nextCooldown_def)
      qed
    qed
  qed
qed

text \<open>With validated settings the pause of a trip is never shorter than
  \<open>exit_cooldown\<close> and never longer than \<open>exit_cooldown_max\<close>, whatever the rounding of
  the double arithmetic.\<close>

theorem nextCooldown_bounds:
  assumes "cooldown_ok b" "0 < cooldown b"
  shows "cooldown b \<le> nextCooldown b \<and> nextCooldown b \<le> maxCooldown b"
proof (rule nextCooldown_cases [OF assms(1)])
  fix x assume x: "of_int (cooldown b) \<le> x" "x \<le> of_int (maxCooldown b)" "nextCooldown b = \<lfloor>x\<rfloor>"
  have "\<lfloor>x\<rfloor> \<le> maxCooldown b" using x(2) by (simp add: floor_le_iff)
  with x show ?thesis by (simp add: le_floor_iff)
qed (use assms in \<open>auto simp: cooldown_ok_def\<close>)

definition demo_breaker :: breaker where
  "demo_breaker = newBreaker (builtinPool\<lparr>pc_Name := ''p''\<rparr>)"

lemma demo_breaker_simps [simp]:
  "threshold demo_breaker = 3" "window demo_breaker = 10000000000" "cooldown demo_breaker = 5000000000"
  "maxCooldown demo_breaker = 300000000000" "multiplier demo_breaker = Fin 2"
  "failures demo_breaker = []" "openUntil demo_breaker = 0" "br_level demo_breaker = 0"
  by (simp_all add: demo_breaker_def newBreaker_def builtinPool_def duration_units)

lemma nextCooldown_bounds_witness:
  "cooldown_ok (demo_breaker\<lparr>br_level := 40\<rparr>) \<and>
   nextCooldown (demo_breaker\<lparr>br_level := 40\<rparr>) \<le> 300000000000"
proof -
  have h: "cooldown_ok (demo_breaker\<lparr>br_level := 40\<rparr>)" "0 < cooldown (demo_breaker\<lparr>br_level := 40\<rparr>)"
    by (simp_all add: cooldown_ok_def)
  from nextCooldown_bounds [OF h] h(1) show ?thesis by simp
qed

text \<open>With the default multiplier 2 the pause is exactly the formula of the README,
  \<open>min (exit_cooldown * 2 ^ level) exit_cooldown_max\<close>.\<close>

theorem nextCooldown_doubling:
  assumes "multiplier b = Fin 2" "0 \<le> cooldown b" "cooldown b \<le> maxCooldown b" "maxCooldown b \<le> 2 ^ 53"
    and "br_level b < 1024"
  shows "nextCooldown b = min (cooldown b * 2 ^ br_level b) (maxCooldown b)"
proof -
  let ?n = "br_level b" and ?c = "cooldown b" and ?x = "of_int (cooldown b * 2 ^ br_level b) :: rat"
  have m: "f64_of_int (maxCooldown b) = Fin (of_int (maxCooldown b))"
    and c: "f64_of_int ?c = Fin (of_int ?c)"
    using assms by (auto intro!: f64_of_int_exact)
  have x: "?x = of_int ?c * pow2 (int ?n)" by (simp add: pow2_def)
  have nn: "0 \<le> ?x" using assms(2) by simp
  have rep: "representable ?x" unfolding x using assms by (intro representable_scaled) auto
  have d: "f64_mul (f64_of_int ?c) (math_pow (multiplier b) ?n) = to_f64 ?x"
    using assms(1,5) by (simp add: c math_pow_2)
  have M: "(of_int (maxCooldown b) :: rat) \<le> of_int (2 ^ 53)" using assms(4) by (subst of_int_le_iff)
  show ?thesis
  proof (rule to_f64_nonneg_cases [OF nn])
    assume inf: "to_f64 ?x = PosInf" "2 ^ 1024 \<le> round53 ?x"
    then have "2 ^ 1024 \<le> ?x" using round53_exact [OF nn rep] by simp
    moreover have "(of_int (2 ^ 53) :: rat) < 2 ^ 1024" by simp
    ultimately have "(of_int (maxCooldown b) :: rat) < ?x" using M by linarith
    then have "maxCooldown b < ?c * 2 ^ ?n" by (simp only: of_int_less_iff)
    with inf(1) m d show ?thesis by (simp add: nextCooldown_def)
  next
    assume f: "to_f64 ?x = Fin (round53 ?x)"
    then have f: "to_f64 ?x = Fin ?x" using round53_exact [OF nn rep] by simp
    show ?thesis
    proof (cases "maxCooldown b < ?c * 2 ^ ?n")
      case True
      then have "(of_int (maxCooldown b) :: rat) < ?x" by (simp only: of_int_less_iff)
      with f m d have "nextCooldown b = maxCooldown b" by (simp add: nextCooldown_def)
      with True show ?thesis by simp
    next
      case False
      then have le: "?x \<le> of_int (maxCooldown b)" by (simp only: of_int_le_iff not_less)
      with M have "?x < 2 ^ 63" by simp
      then have "f64_to_int64 (Fin ?x) = ?c * 2 ^ ?n"
        using nn by (simp only: f64_to_int64_Fin floor_of_int)
      with False le f m d show ?thesis by (simp add: nextCooldown_def del: f64_to_int64.simps of_int_mult of_int_power)
    qed
  qed
qed

lemma nextCooldown_doubling_witness:
  "nextCooldown (demo_breaker\<lparr>br_level := 3\<rparr>) = 40000000000 \<and>
   nextCooldown (demo_breaker\<lparr>br_level := 9\<rparr>) = 300000000000"
  by (simp add: nextCooldown_doubling)

section \<open>Refinement of the contract\<close>

datatype bevent = BFail gtime | BOk gtime | BOpen gtime

datatype bout = Tripped duration | Quiet | IsOpen bool

fun btime :: "bevent \<Rightarrow> gtime" where
  "btime (BFail t) = t"
| "btime (BOk t) = t"
| "btime (BOpen t) = t"

fun bstep :: "breaker \<Rightarrow> bevent \<Rightarrow> bout \<times> breaker" where
  "bstep b (BFail t) = (case breaker_failure b t of ((d, tripped), b') \<Rightarrow> (if tripped then Tripped d else Quiet, b'))"
| "bstep b (BOk t) = (Quiet, breaker_ok b t)"
| "bstep b (BOpen t) = (case breaker_open b t of (r, b') \<Rightarrow> (IsOpen r, b'))"

fun brun :: "breaker \<Rightarrow> bevent list \<Rightarrow> bout list \<times> breaker" where
  "brun b [] = ([], b)"
| "brun b (e # es) = (case bstep b e of (r, b') \<Rightarrow> (case brun b' es of (rs, b'') \<Rightarrow> (r # rs, b'')))"

text \<open>The specification: all failures so far, and how many of them had happened at the last trip.\<close>

record bspec =
  sp_hist :: "gtime list"
  sp_mark :: nat
  sp_until :: gtime
  sp_level :: nat

definition since :: "bspec \<Rightarrow> gtime list" where
  "since s = drop (sp_mark s) (sp_hist s)"

definition spec_decay :: "breaker \<Rightarrow> bspec \<Rightarrow> gtime \<Rightarrow> bspec" where
  "spec_decay b s t = (if sp_until s + maxCooldown b \<le> t then s\<lparr>sp_level := 0\<rparr> else s)"

text \<open>\<open>counted\<close> is \<open>since\<close> for what the code does, \<open>sp_hist\<close> for what the README says.\<close>

fun spec_step :: "(bspec \<Rightarrow> gtime list) \<Rightarrow> breaker \<Rightarrow> bspec \<Rightarrow> bevent \<Rightarrow> bout \<times> bspec" where
  "spec_step counted b s (BFail t) =
     (if \<not> breaker_enabled b then (Quiet, s)
      else let s = spec_decay b s t; h = counted s @ [t]; n = nat (threshold b)
           in if sp_until s \<le> t \<and> n \<le> length h \<and> (\<forall>f \<in> set (last_n n h). time_sub t f \<le> window b)
              then let d = nextCooldown (b\<lparr>br_level := sp_level s\<rparr>)
                   in (Tripped d, \<lparr>sp_hist = sp_hist s @ [t], sp_mark = Suc (length (sp_hist s)),
                        sp_until = t + d, sp_level = sp_level s + 1\<rparr>)
              else (Quiet, s\<lparr>sp_hist := sp_hist s @ [t]\<rparr>))"
| "spec_step counted b s (BOk t) =
     (let s = spec_decay b s t
      in (Quiet, if sp_until s \<le> t \<and> (\<forall>f \<in> set (counted s). \<not> time_sub t f \<le> window b)
                 then s\<lparr>sp_level := 0\<rparr> else s))"
| "spec_step counted b s (BOpen t) =
     (let s = spec_decay b s t in (IsOpen (t < sp_until s), s))"

fun spec_run :: "(bspec \<Rightarrow> gtime list) \<Rightarrow> breaker \<Rightarrow> bspec \<Rightarrow> bevent list \<Rightarrow> bout list" where
  "spec_run counted b s [] = []"
| "spec_run counted b s (e # es) = (case spec_step counted b s e of (r, s') \<Rightarrow> r # spec_run counted b s' es)"

definition spec_init :: bspec where
  "spec_init = \<lparr>sp_hist = [], sp_mark = 0, sp_until = 0, sp_level = 0\<rparr>"

text \<open>The simulation relation: the ring is the end of the history since the last trip.\<close>

definition refines :: "breaker \<Rightarrow> breaker \<Rightarrow> bspec \<Rightarrow> bool" where
  "refines b0 b s \<longleftrightarrow> same_settings b0 b \<and> openUntil b = sp_until s \<and> br_level b = sp_level s \<and>
     sp_mark s \<le> length (sp_hist s) \<and> sorted (since s) \<and>
     failures b = last_n (nat (threshold b)) (since s) \<and> (\<not> breaker_enabled b \<longrightarrow> since s = [])"

lemma since_simps [simp]:
  "since (s\<lparr>sp_level := l\<rparr>) = since s" "since (spec_decay b s t) = since s"
  "sp_mark s \<le> length (sp_hist s) \<Longrightarrow> since (s\<lparr>sp_hist := sp_hist s @ [t]\<rparr>) = since s @ [t]"
  "since \<lparr>sp_hist = h @ [t], sp_mark = Suc (length h), sp_until = u, sp_level = l\<rparr> = []"
  by (simp_all add: since_def spec_decay_def)

lemma set_since: "set (since s) \<subseteq> set (sp_hist s)"
  by (simp add: since_def set_drop_subset)

lemma refines_decay: "refines b0 b s \<Longrightarrow> refines b0 (decay b t) (spec_decay b0 s t)"
  by (auto simp: refines_def decay_def spec_decay_def go_defs breaker_enabled_def since_def)

lemma sorted_snoc_last_n:
  assumes "sorted (xs @ [x])" "n \<le> length (xs @ [x])" "0 < n"
  shows "(\<forall>f \<in> set (last_n n (xs @ [x])). time_sub t f \<le> w) \<longleftrightarrow> time_sub t (hd (last_n n (xs @ [x]))) \<le> w"
proof
  let ?l = "last_n n (xs @ [x])"
  have ne: "?l \<noteq> []" using assms(2,3) by (simp add: last_n_def)
  then show "time_sub t (hd ?l) \<le> w" if "\<forall>f \<in> set ?l. time_sub t f \<le> w" using that by auto
  assume h: "time_sub t (hd ?l) \<le> w"
  have "sorted ?l" using assms(1) by (rule sorted_last_n)
  then have "\<forall>f \<in> set ?l. hd ?l \<le> f" using ne by (cases ?l) auto
  then show "\<forall>f \<in> set ?l. time_sub t f \<le> w" using h time_sub_mono order_trans by blast
qed

lemma window_last_n:
  assumes "sorted h" "0 < n"
  shows "(\<exists>f \<in> set (last_n n h). time_sub t f \<le> w) \<longleftrightarrow> (\<exists>f \<in> set h. time_sub t f \<le> w)"
proof (cases h rule: rev_cases)
  case (snoc ys y)
  have y: "y \<in> set (last_n n h)" using assms(2) by (simp add: snoc last_n_snoc)
  show ?thesis
  proof
    assume "\<exists>f \<in> set h. time_sub t f \<le> w"
    then obtain f where "f \<in> set h" "time_sub t f \<le> w" by blast
    moreover have "f \<le> y" using \<open>f \<in> set h\<close> assms(1) by (auto simp: snoc sorted_append)
    ultimately show "\<exists>f \<in> set (last_n n h). time_sub t f \<le> w"
      using y time_sub_mono order_trans by blast
  qed (use set_last_n in fastforce)
qed (simp add: last_n_def)

lemma ring_append:
  assumes "0 < th"
  shows "(if int (length (last_n (nat th) h @ [t])) > th then last_n (nat th) (last_n (nat th) h @ [t])
          else last_n (nat th) h @ [t]) = last_n (nat th) (h @ [t])"
proof -
  have "last_n (nat th) (last_n (nat th) h @ [t]) = last_n (nat th) (h @ [t])"
    using assms by (simp add: last_n_snoc last_n_last_n)
  then show ?thesis by auto
qed

lemma refines_failure:
  assumes R: "refines b0 b s" and t: "\<forall>f \<in> set (sp_hist s). f \<le> t"
  shows "fst (bstep b (BFail t)) = fst (spec_step since b0 s (BFail t)) \<and>
    refines b0 (snd (bstep b (BFail t))) (snd (spec_step since b0 s (BFail t)))"
proof (cases "breaker_enabled b")
  case False
  with R show ?thesis by (auto simp: breaker_failure_def refines_def breaker_enabled_def)
next
  case True
  define c where "c = decay b t"
  define u where "u = spec_decay b0 s t"
  have Rc: "refines b0 c u" using refines_decay [OF R, of t] by (simp add: c_def u_def)
  have hist: "since u = since s" "sp_hist u = sp_hist s" "sp_mark u \<le> length (sp_hist u)"
    using Rc by (simp_all add: u_def spec_decay_def refines_def)
  have en: "breaker_enabled c" "breaker_enabled b0" and th: "0 < threshold c"
    using True R by (auto simp: c_def refines_def breaker_enabled_def)
  define h where "h = since u @ [t]"
  define n where "n = nat (threshold c)"
  define fs where "fs = last_n n h"
  have sorted: "sorted h" using Rc t set_since [of s] by (auto simp: h_def hist refines_def sorted_append)
  have nth: "int n = threshold c" using th by (simp add: n_def)
  have len: "int (length fs) < threshold c \<longleftrightarrow> \<not> n \<le> length h"
    unfolding nth [symmetric] by (auto simp: fs_def)
  have win: "n \<le> length h \<Longrightarrow> (\<forall>f \<in> set fs. time_sub t f \<le> window c) \<longleftrightarrow> time_sub t (hd fs) \<le> window c"
    using sorted_snoc_last_n [of "since u" t n t "window c"] sorted th by (simp add: h_def fs_def n_def)
  have settings: "same_settings b0 c" "openUntil c = sp_until u" "br_level c = sp_level u"
    "failures c = last_n n (since u)"
    using Rc by (auto simp: refines_def n_def)
  have ring: "(if int (length (failures c @ [t])) > threshold c then last_n (nat (threshold c)) (failures c @ [t])
          else failures c @ [t]) = fs"
    unfolding settings(4) fs_def h_def n_def by (rule ring_append [OF th])
  have impl: "breaker_failure b t =
      (if time_before t (openUntil c) \<or> int (length fs) < threshold c \<or> time_sub t (hd fs) > window c
       then ((0, False), c\<lparr>failures := fs\<rparr>)
       else ((nextCooldown (c\<lparr>failures := fs\<rparr>), True),
             c\<lparr>openUntil := time_add t (nextCooldown (c\<lparr>failures := fs\<rparr>)), br_level := br_level c + 1, failures := []\<rparr>))"
    using True ring by (simp add: breaker_failure_def c_def [symmetric] Let_def)
  have cd: "nextCooldown (c\<lparr>failures := fs\<rparr>) = nextCooldown (b0\<lparr>br_level := sp_level u\<rparr>)"
    using settings by (simp add: nextCooldown_def Let_def)
  have spec: "spec_step since b0 s (BFail t) =
      (if sp_until u \<le> t \<and> n \<le> length h \<and> (\<forall>f \<in> set fs. time_sub t f \<le> window b0)
       then (Tripped (nextCooldown (b0\<lparr>br_level := sp_level u\<rparr>)),
         \<lparr>sp_hist = sp_hist u @ [t], sp_mark = Suc (length (sp_hist u)), sp_until = t + nextCooldown (b0\<lparr>br_level := sp_level u\<rparr>), sp_level = sp_level u + 1\<rparr>)
       else (Quiet, u\<lparr>sp_hist := sp_hist u @ [t]\<rparr>))"
    using en settings(1) by (simp add: u_def h_def fs_def n_def Let_def)
  show ?thesis
  proof (cases "sp_until u \<le> t \<and> n \<le> length h \<and> (\<forall>f \<in> set fs. time_sub t f \<le> window b0)")
    case trip: True
    then have "\<not> (time_before t (openUntil c) \<or> int (length fs) < threshold c \<or> time_sub t (hd fs) > window c)"
      using settings len win by (auto simp: go_defs)
    moreover have "spec_step since b0 s (BFail t) =
        (Tripped (nextCooldown (b0\<lparr>br_level := sp_level u\<rparr>)),
         \<lparr>sp_hist = sp_hist u @ [t], sp_mark = Suc (length (sp_hist u)), sp_until = t + nextCooldown (b0\<lparr>br_level := sp_level u\<rparr>), sp_level = sp_level u + 1\<rparr>)"
      unfolding spec by (rule if_P) (rule trip)
    ultimately show ?thesis
      using settings th by (simp add: impl cd refines_def go_defs breaker_enabled_def last_n_def)
  next
    case quiet: False
    then have "time_before t (openUntil c) \<or> int (length fs) < threshold c \<or> time_sub t (hd fs) > window c"
      using settings len win by (auto simp: go_defs)
    moreover have "spec_step since b0 s (BFail t) = (Quiet, u\<lparr>sp_hist := sp_hist u @ [t]\<rparr>)"
      unfolding spec by (rule if_not_P) (rule quiet)
    ultimately show ?thesis
      using settings sorted en hist(3) by (simp add: impl refines_def fs_def n_def h_def breaker_enabled_def)
  qed
qed

lemma refines_ok:
  assumes R: "refines b0 b s"
  shows "fst (bstep b (BOk t)) = fst (spec_step since b0 s (BOk t)) \<and>
    refines b0 (snd (bstep b (BOk t))) (snd (spec_step since b0 s (BOk t)))"
proof -
  define c where "c = decay b t"
  define u where "u = spec_decay b0 s t"
  have Rc: "refines b0 c u" using refines_decay [OF R, of t] by (simp add: c_def u_def)
  have ex: "list_ex (\<lambda>f. time_sub t f \<le> window c) (failures c) \<longleftrightarrow> (\<exists>f \<in> set (since u). time_sub t f \<le> window b0)"
  proof (cases "0 < threshold c")
    case True
    with Rc window_last_n [of "since u" "nat (threshold c)"] show ?thesis
      by (simp add: refines_def list_ex_iff)
  next
    case False
    with Rc show ?thesis by (simp add: refines_def breaker_enabled_def)
  qed
  show ?thesis
    using Rc ex
    by (auto simp: breaker_ok_def c_def [symmetric] u_def [symmetric] Let_def refines_def go_defs breaker_enabled_def)
qed

lemma refines_open:
  assumes R: "refines b0 b s"
  shows "fst (bstep b (BOpen t)) = fst (spec_step since b0 s (BOpen t)) \<and>
    refines b0 (snd (bstep b (BOpen t))) (snd (spec_step since b0 s (BOpen t)))"
  using refines_decay [OF R, of t] by (simp add: breaker_open_def Let_def refines_def go_defs)

lemma spec_hist_times:
  "\<forall>f \<in> set (sp_hist s). f \<le> t \<Longrightarrow> btime e = t \<Longrightarrow> \<forall>f \<in> set (sp_hist (snd (spec_step counted b s e))). f \<le> t"
  by (cases e) (auto simp: spec_decay_def Let_def)

lemma refines_step:
  assumes "refines b0 b s" "\<forall>f \<in> set (sp_hist s). f \<le> btime e"
  shows "fst (bstep b e) = fst (spec_step since b0 s e) \<and> refines b0 (snd (bstep b e)) (snd (spec_step since b0 s e))"
  using assms refines_failure refines_ok refines_open by (cases e) auto

lemma refines_run:
  assumes "refines b0 b s" "sorted (map btime es)" "\<forall>f \<in> set (sp_hist s). \<forall>e \<in> set es. f \<le> btime e"
  shows "fst (brun b es) = spec_run since b0 s es"
  using assms
proof (induction es arbitrary: b s)
  case (Cons e es)
  have step: "fst (bstep b e) = fst (spec_step since b0 s e)"
    "refines b0 (snd (bstep b e)) (snd (spec_step since b0 s e))"
    using refines_step [OF Cons.prems(1), of e] Cons.prems(3) by auto
  have "\<forall>f \<in> set (sp_hist (snd (spec_step since b0 s e))). f \<le> btime e"
    using spec_hist_times [of s "btime e" e since b0] Cons.prems(3) by simp
  with Cons.prems(2) have "\<forall>f \<in> set (sp_hist (snd (spec_step since b0 s e))). \<forall>e' \<in> set es. f \<le> btime e'"
    by force
  from Cons.IH [OF step(2) _ this] Cons.prems(2) step(1) show ?case
    by (simp add: split_beta)
qed simp

text \<open>C18: on every sequence of calls with a clock that does not run backwards, the breaker
  answers as the specification that counts the failures since the last trip: it trips
  exactly when it is closed and the last \<open>threshold\<close> of them all lie inside the window, and an
  ok exit resets the level exactly when it is closed and none of them does.  A failure from
  before the last trip no longer counts, also not for the reset.\<close>

theorem breaker_refines:
  assumes "sorted (map btime es)"
  shows "fst (brun (newBreaker cfg) es) = spec_run since (newBreaker cfg) spec_init es"
  using assms
  by (intro refines_run) (auto simp: refines_def newBreaker_def spec_init_def since_def last_n_def)

lemma breaker_refines_witness:
  "fst (brun demo_breaker [BFail 1, BOpen 2, BFail 3, BFail 4]) =
   spec_run since demo_breaker spec_init [BFail 1, BOpen 2, BFail 3, BFail 4]"
  unfolding demo_breaker_def by (rule breaker_refines) simp

section \<open>The contract of the README\<close>

text \<open>Failures from before the last trip are older than the window when the breaker has closed
  again, if the window is shorter than the cooldown: then it makes no difference which
  failures count.\<close>

definition aged :: "breaker \<Rightarrow> bspec \<Rightarrow> bool" where
  "aged b s \<longleftrightarrow> (\<forall>f \<in> set (take (sp_mark s) (sp_hist s)). f + cooldown b \<le> sp_until s)"







lemma aged_simps [simp]:
  "aged b (s\<lparr>sp_level := l\<rparr>) = aged b s" "aged b (spec_decay c s t) = aged b s"
  "sp_mark s \<le> length (sp_hist s) \<Longrightarrow> aged b (s\<lparr>sp_hist := sp_hist s @ [t]\<rparr>) = aged b s"
  by (simp_all add: aged_def spec_decay_def)









section \<open>Pauses\<close>

text \<open>The trips of a run: the time of each, and its cooldown.\<close>

fun trips :: "breaker \<Rightarrow> bevent list \<Rightarrow> (gtime \<times> duration) list" where
  "trips b [] = []"
| "trips b (e # es) = (case bstep b e of
     (Tripped d, b') \<Rightarrow> (btime e, d) # trips b' es
   | (_, b') \<Rightarrow> trips b' es)"

lemma breaker_failure_tripped:
  assumes "breaker_failure b t = ((d, True), b')"
  shows "breaker_enabled b" "openUntil b \<le> t" "openUntil b' = t + d" "d = nextCooldown (decay b t)"
    "same_settings b b'" "br_level b' = br_level (decay b t) + 1"
  using assms by (auto simp: breaker_failure_def Let_def go_defs nextCooldown_def split: if_splits)

lemma breaker_failure_quiet:
  assumes "breaker_failure b t = ((d, False), b')"
  shows "openUntil b' = openUntil b" "same_settings b b'" "br_level b' \<le> br_level b"
  using assms br_level_decay_le [of b t]
  by (auto simp: breaker_failure_def Let_def split: if_splits)

lemma breaker_ok_frame: "openUntil (breaker_ok b t) = openUntil b" "br_level (breaker_ok b t) \<le> br_level b"
  using br_level_decay_le [of b t] by (auto simp: breaker_ok_def Let_def)

lemma cooldown_ok_frame:
  "cooldown_ok b \<Longrightarrow> same_settings b c \<Longrightarrow> br_level c < 2 ^ 63 \<Longrightarrow> cooldown_ok c"
  by (simp add: cooldown_ok_def)

lemma cooldown_ok_decay: "cooldown_ok b \<Longrightarrow> cooldown_ok (decay b t)"
  using br_level_decay_le [of b t] by (simp add: cooldown_ok_def)

lemma trip_cooldown:
  assumes "breaker_failure b t = ((d, True), b')" "cooldown_ok b"
  shows "cooldown b \<le> d" "d \<le> maxCooldown b" "0 < d"
  using nextCooldown_bounds [OF cooldown_ok_decay [OF assms(2), of t]] breaker_failure_tripped [OF assms(1)]
  by (auto simp: breaker_enabled_def)

lemma bstep_quiet:
  assumes "bstep b e = (r, b')" "\<forall>d. r \<noteq> Tripped d"
  shows "openUntil b' = openUntil b" "same_settings b b'" "br_level b' \<le> br_level b"
proof -
  have "openUntil b' = openUntil b \<and> same_settings b b' \<and> br_level b' \<le> br_level b"
  proof (cases e)
    case (BFail t)
    obtain d tr c where f: "breaker_failure b t = ((d, tr), c)" by (metis surj_pair)
    with assms BFail show ?thesis using breaker_failure_quiet [of b t d c] by (cases tr) auto
  next
    case (BOk t)
    with assms show ?thesis using breaker_ok_frame [of b t] same_settings_ok [of b t] by auto
  next
    case (BOpen t)
    with assms show ?thesis using br_level_decay_le [of b t] by (auto simp: breaker_open_def Let_def)
  qed
  then show "openUntil b' = openUntil b" "same_settings b b'" "br_level b' \<le> br_level b" by auto
qed

lemma trips_spaced:
  assumes "cooldown_ok b" "br_level b + length es < 2 ^ 63"
  shows "(\<forall>(t, d) \<in> set (trips b es). openUntil b \<le> t \<and> cooldown b \<le> d \<and> d \<le> maxCooldown b) \<and>
    sorted_wrt (\<lambda>(t, d) (t', d'). t + d \<le> t') (trips b es)"
  using assms
proof (induction es arbitrary: b)
  case (Cons e es)
  obtain r b' where st: "bstep b e = (r, b')" by (cases "bstep b e")
  show ?case
  proof (cases "\<exists>d. r = Tripped d")
    case False
    then have "cooldown_ok b'"
      using bstep_quiet [OF st] Cons.prems cooldown_ok_frame [of b b'] by auto
    then show ?thesis
      using Cons.IH [of b'] bstep_quiet [OF st] Cons.prems(2) False st by (auto split: bout.splits)
  next
    case True
    then obtain d t where d: "r = Tripped d" and e: "e = BFail t" "breaker_failure b t = ((d, True), b')"
      using st by (cases e) (auto split: prod.splits if_splits)
    note ft = breaker_failure_tripped [OF e(2)] and cd = trip_cooldown [OF e(2) Cons.prems(1)]
    have lv: "br_level b' \<le> br_level b + 1" using ft(6) br_level_decay_le [of b t] by simp
    then have "cooldown_ok b'" using ft(5) Cons.prems cooldown_ok_frame [of b b'] by simp
    then have IH: "\<forall>(t', d') \<in> set (trips b' es). t + d \<le> t' \<and> cooldown b \<le> d' \<and> d' \<le> maxCooldown b"
      "sorted_wrt (\<lambda>(t, d) (t', d'). t + d \<le> t') (trips b' es)"
      using Cons.IH [of b'] lv ft Cons.prems(2) by auto
    have "trips b (e # es) = (t, d) # trips b' es" using st d e by simp
    then show ?thesis using IH ft(2) cd by (fastforce split: prod.splits)
  qed
qed simp

text \<open>C19: the breaker rate-limits churn.  In any run, each trip pauses the pool for a
  cooldown between \<open>exit_cooldown\<close> and \<open>exit_cooldown_max\<close>, and the next trip comes no
  earlier than the end of that pause.\<close>

theorem trips_rate_limited:
  assumes "cooldown_ok (newBreaker cfg)" "length es < 2 ^ 62"
  shows "(\<forall>(t, d) \<in> set (trips (newBreaker cfg) es). pc_ExitCooldown cfg \<le> d \<and> d \<le> pc_ExitCooldownMax cfg) \<and>
    sorted_wrt (\<lambda>(t, d) (t', d'). t + d \<le> t') (trips (newBreaker cfg) es)"
  using trips_spaced [OF assms(1), of es] assms(2) by (auto simp: newBreaker_def)

definition demo_cfg :: PoolConfig where
  "demo_cfg = builtinPool\<lparr>pc_Name := ''p'', pc_Channel := ''p'', pc_Command := [''w'']\<rparr>"

lemma demo_breaker_cfg: "newBreaker demo_cfg = demo_breaker"
  by (simp add: demo_cfg_def demo_breaker_def newBreaker_def)

lemma trips_rate_limited_witness:
  "sorted_wrt (\<lambda>(t, d) (t', d'). t + d \<le> t')
     (trips (newBreaker demo_cfg) [BFail 1, BFail 2, BFail 3, BFail 4])"
proof -
  have "cooldown_ok (newBreaker demo_cfg)" by (simp add: demo_breaker_cfg cooldown_ok_def)
  then show ?thesis by (rule trips_rate_limited [THEN conjunct2]) simp
qed

text \<open>After a trip the breaker is open during exactly the cooldown that was reported,
  and neither failures nor ok exits in between move its end.\<close>

theorem open_during_cooldown:
  assumes "breaker_failure b now = ((d, True), b')"
  shows "(\<forall>t. fst (breaker_open b' t) \<longleftrightarrow> t < now + d) \<and>
    (\<forall>e. now \<le> btime e \<and> btime e < now + d \<longrightarrow> openUntil (snd (bstep b' e)) = now + d)"
proof -
  note ft = breaker_failure_tripped [OF assms]
  have "openUntil (snd (bstep b' e)) = now + d" if "btime e < now + d" for e
  proof (cases "\<exists>x. fst (bstep b' e) = Tripped x")
    case True
    then obtain x where x: "fst (bstep b' e) = Tripped x" by blast
    then obtain t c where "e = BFail t" "breaker_failure b' t = ((x, True), c)"
      by (cases e) (auto split: prod.splits if_splits)
    with breaker_failure_tripped(2) [of b' t x c] ft(3) that show ?thesis by simp
  next
    case False
    obtain r c where "bstep b' e = (r, c)" by (cases "bstep b' e")
    with False bstep_quiet(1) [of b' e r c] ft(3) show ?thesis by auto
  qed
  then show ?thesis using ft(3) by (auto simp: breaker_open_def Let_def go_defs)
qed

lemma math_pow_0 [simp]: "math_pow x 0 = Fin 1"
  by (simp add: math_pow_def)

lemma nextCooldown_level_0:
  "0 \<le> cooldown b \<Longrightarrow> cooldown b \<le> maxCooldown b \<Longrightarrow> maxCooldown b \<le> 2 ^ 53 \<Longrightarrow> br_level b = 0 \<Longrightarrow>
   nextCooldown b = cooldown b"
proof -
  assume h: "0 \<le> cooldown b" "cooldown b \<le> maxCooldown b" "maxCooldown b \<le> 2 ^ 53" "br_level b = 0"
  then have e: "f64_of_int (cooldown b) = Fin (of_int (cooldown b))"
    "f64_of_int (maxCooldown b) = Fin (of_int (maxCooldown b))" by (auto intro!: f64_of_int_exact)
  have "(of_int (cooldown b) :: rat) \<le> of_int (2 ^ 53)" using h by (subst of_int_le_iff) linarith
  then have "(of_int (cooldown b) :: rat) < 2 ^ 63" by simp
  moreover have "to_f64 (of_int (cooldown b)) = Fin (of_int (cooldown b))" using e(1) by (simp add: f64_of_int_def)
  ultimately show ?thesis
    using h by (simp add: nextCooldown_def e f64_to_int64_Fin del: f64_to_int64.simps)
qed

lemma demo_third_failure:
  "breaker_failure (demo_breaker\<lparr>failures := [1, 2]\<rparr>) 3 =
   ((5000000000, True), demo_breaker\<lparr>openUntil := 5000000003, br_level := 1\<rparr>)"
proof -
  have "nextCooldown (demo_breaker\<lparr>failures := [1, 2, 3]\<rparr>) = 5000000000"
    by (simp add: nextCooldown_level_0)
  moreover have "demo_breaker\<lparr>failures := []\<rparr> = demo_breaker" by (simp add: demo_breaker_def newBreaker_def)
  ultimately show ?thesis
    by (simp add: breaker_failure_def breaker_enabled_def decay_def go_defs time_sub_def int64_defs)
qed

lemma open_during_cooldown_witness:
  "fst (breaker_open (demo_breaker\<lparr>openUntil := 5000000003, br_level := 1\<rparr>) 5000000002) \<and>
   \<not> fst (breaker_open (demo_breaker\<lparr>openUntil := 5000000003, br_level := 1\<rparr>) 5000000003)"
  using open_during_cooldown [OF demo_third_failure] by simp

text \<open>\<open>exit_failure_threshold: 0\<close> or \<open>exit_cooldown: 0\<close> turns the breaker off: in no
  run does it trip or report open at a time after Go's zero time.\<close>

theorem breaker_disabled:
  assumes "pc_ExitFailureThreshold cfg \<le> 0 \<or> pc_ExitCooldown cfg \<le> 0" "\<forall>e \<in> set es. 0 \<le> btime e"
  shows "set (fst (brun (newBreaker cfg) es)) \<subseteq> {Quiet, IsOpen False}"
proof -
  have "set (fst (brun b es)) \<subseteq> {Quiet, IsOpen False}"
    if "\<not> breaker_enabled b" "br_level b = 0" "openUntil b = 0" "failures b = []" for b
    using assms(2) that
  proof (induction es arbitrary: b)
    case (Cons e es)
    have "fst (bstep b e) \<in> {Quiet, IsOpen False} \<and> snd (bstep b e) = b"
      using Cons.prems by (cases e) (auto simp: breaker_failure_def breaker_ok_def breaker_open_def
          decay_def go_defs Let_def)
    with Cons.IH [OF _ Cons.prems(2-)] Cons.prems(1) show ?case by (auto simp: split_beta)
  qed simp
  from this [of "newBreaker cfg"] assms(1) show ?thesis
    by (auto simp: newBreaker_def breaker_enabled_def)
qed

lemma breaker_disabled_witness:
  "set (fst (brun (newBreaker (demo_cfg\<lparr>pc_ExitCooldown := 0\<rparr>)) [BFail 1, BFail 1, BFail 1, BOpen 2]))
     \<subseteq> {Quiet, IsOpen False}"
  by (rule breaker_disabled) simp_all

section \<open>Two corner cases\<close>

text \<open>
  The validator compares the multiplier with 1 by \<open>p.ExitCooldownMultiplier < 1\<close>, which is
  false for NaN (a yaml \<open>.nan\<close>).  From the second trip on the cooldown is then the
  conversion of a NaN, a time far in the past on amd64, and the trip pauses nothing.
\<close>

theorem nan_multiplier_pauses_nothing:
  assumes "multiplier b = NaN" "0 < br_level (decay b now)"
    and "breaker_failure b now = ((d, True), b')"
  shows "d = int64_min \<and> (\<forall>t \<ge> now. \<not> fst (breaker_open b' t))"
proof -
  note ft = breaker_failure_tripped [OF assms(3)]
  define c where "c = decay b now"
  have p: "math_pow (multiplier c) (br_level c) = NaN"
    using assms(1,2) by (cases "br_level c = 1") (auto simp: c_def math_pow_def)
  have "f64_mul x NaN = NaN" for x by (cases x) auto
  then have d: "d = int64_min" using ft(4) p by (simp add: nextCooldown_def c_def)
  then have "openUntil b' < now" using ft(3) by (simp add: int64_min_def)
  then show ?thesis using d by (auto simp: breaker_open_def Let_def go_defs)
qed

text \<open>
  A trip empties the ring, so an ok exit right after the cooldown resets the level even
  when failures from before the trip still lie inside the window.
\<close>

theorem ok_resets_inside_window:
  "let b = snd (breaker_failure (demo_breaker\<lparr>failures := [1, 2]\<rparr>) 3); t = 5000000003
   in br_level b = 1 \<and> time_sub t 3 \<le> window b \<and> br_level (breaker_ok b t) = 0"
  by (simp add: demo_third_failure breaker_ok_def decay_def go_defs time_sub_def int64_defs)

end
