(* ===== verification/LastLine.thy ===== *)
theory LastLine
  imports GoStrings
begin

text \<open>
  \<open>internal/proc/lastline.go\<close>, the bounded scanner of a worker's output, and
  \<open>internal/pool/result.go\<close>, which reads its line as a task count.  A method that changes
  the receiver returns it.  \<open>result_of\<close> is the contract on the whole output, whatever the
  chunks the pipe delivers it in.
\<close>

section \<open>The scanner\<close>

definition MaxResult :: nat where "MaxResult = 64"

record lastLine =
  ll_buf :: string
  ll_long :: bool
  ll_last :: string

definition lastLine_new :: lastLine where
  "lastLine_new = \<lparr>ll_buf = [], ll_long = False, ll_last = []\<rparr>"

abbreviation newline :: char where "newline \<equiv> CHR 0x0A"

text \<open>\<open>bytes.IndexByte\<close>; \<open>None\<close> is its -1.\<close>

fun index_byte :: "string \<Rightarrow> char \<Rightarrow> nat option" where
  "index_byte [] c = None"
| "index_byte (d # s) c = (if d = c then Some 0 else map_option Suc (index_byte s c))"

definition lastLine_take :: "lastLine \<Rightarrow> string \<Rightarrow> lastLine" where
  "lastLine_take w b =
     (if ll_long w then w
      else if length (ll_buf w) + length b > MaxResult then w\<lparr>ll_long := True, ll_buf := []\<rparr>
      else w\<lparr>ll_buf := ll_buf w @ b\<rparr>)"

definition endLine :: "lastLine \<Rightarrow> lastLine" where
  "endLine w =
     (let w = (if ll_long w then w\<lparr>ll_last := []\<rparr>
               else let s = trim_space (ll_buf w) in if s \<noteq> [] then w\<lparr>ll_last := s\<rparr> else w)
      in w\<lparr>ll_long := False, ll_buf := []\<rparr>)"

text \<open>The loop of \<open>Write\<close> over \<open>rest\<close>.\<close>

function write_loop :: "string \<Rightarrow> lastLine \<Rightarrow> lastLine" where
  "write_loop rest w =
     (if rest = [] then w
      else case index_byte rest newline of
        None \<Rightarrow> lastLine_take w rest
      | Some i \<Rightarrow> write_loop (drop (i + 1) rest) (endLine (lastLine_take w (take i rest))))"
  by pat_completeness auto
termination by (relation "measure (length \<circ> fst)") auto

declare write_loop.simps [simp del]

definition lastLine_Write :: "lastLine \<Rightarrow> string \<Rightarrow> nat \<times> lastLine" where
  "lastLine_Write w b = (length b, write_loop b w)"

definition lastLine_Line :: "lastLine \<Rightarrow> string \<times> lastLine" where
  "lastLine_Line w =
     (let w = (if ll_long w \<or> length (ll_buf w) > 0 then endLine w else w) in (ll_last w, w))"

section \<open>The task count\<close>

definition parseTasks :: "string \<Rightarrow> gint \<times> bool" where
  "parseTasks line =
     (if line = [] \<or> length line > MaxResult then (0, False)
      else case atoi line of
        None \<Rightarrow> (0, False)
      | Some n \<Rightarrow> if n < 0 then (0, False) else (n, True))"

section \<open>One byte at a time\<close>

definition ll_wf :: "lastLine \<Rightarrow> bool" where
  "ll_wf w \<longleftrightarrow> length (ll_buf w) \<le> MaxResult \<and> (ll_long w \<longrightarrow> ll_buf w = []) \<and> length (ll_last w) \<le> MaxResult"

definition ll_step :: "char \<Rightarrow> lastLine \<Rightarrow> lastLine" where
  "ll_step c w = (if c = newline then endLine w else lastLine_take w [c])"

lemma ll_wf_new: "ll_wf lastLine_new"
  by (simp add: ll_wf_def lastLine_new_def)

lemma ll_wf_take: "ll_wf w \<Longrightarrow> ll_wf (lastLine_take w b)"
  by (auto simp: ll_wf_def lastLine_take_def)

lemma ll_wf_endLine: "ll_wf w \<Longrightarrow> ll_wf (endLine w)"
  by (auto simp: ll_wf_def endLine_def Let_def intro: order_trans [OF length_trim_space])

lemma ll_wf_step: "ll_wf w \<Longrightarrow> ll_wf (ll_step c w)"
  by (simp add: ll_step_def ll_wf_take ll_wf_endLine)

lemma ll_wf_fold: "ll_wf w \<Longrightarrow> ll_wf (fold ll_step s w)"
  by (induction s arbitrary: w) (auto simp: ll_wf_step)

lemma take_Nil_bytes: "ll_wf w \<Longrightarrow> lastLine_take w [] = w"
  by (simp add: ll_wf_def lastLine_take_def)

lemma take_Cons_bytes: "ll_wf w \<Longrightarrow> lastLine_take w (c # s) = lastLine_take (lastLine_take w [c]) s"
  by (auto simp: ll_wf_def lastLine_take_def)

lemma take_fold: "ll_wf w \<Longrightarrow> newline \<notin> set s \<Longrightarrow> lastLine_take w s = fold ll_step s w"
proof (induction s arbitrary: w)
  case (Cons c s)
  then have "lastLine_take w (c # s) = lastLine_take (ll_step c w) s"
    using take_Cons_bytes [of w c s] by (auto simp: ll_step_def)
  with Cons show ?case by (simp add: ll_wf_step)
qed (simp add: take_Nil_bytes)

lemma index_byte_None: "index_byte s c = None \<longleftrightarrow> c \<notin> set s"
  by (induction s) auto

lemma index_byte_Some:
  "index_byte s c = Some i \<Longrightarrow> s = take i s @ c # drop (i + 1) s \<and> c \<notin> set (take i s)"
  by (induction s arbitrary: i) (auto split: if_splits)

lemma write_loop_fold: "ll_wf w \<Longrightarrow> write_loop s w = fold ll_step s w"
proof (induction s w rule: write_loop.induct)
  case (1 s w)
  show ?case
  proof (cases "index_byte s newline")
    case None
    then have "newline \<notin> set s" by (simp add: index_byte_None)
    with 1 None show ?thesis by (simp add: write_loop.simps [of s] take_fold)
  next
    case (Some i)
    then have s: "s = take i s @ newline # drop (i + 1) s" and n: "newline \<notin> set (take i s)" "s \<noteq> []"
      using index_byte_Some by auto
    have "write_loop s w = fold ll_step (drop (i + 1) s) (endLine (lastLine_take w (take i s)))"
      using Some n 1 by (simp add: write_loop.simps [of s] ll_wf_take ll_wf_endLine)
    also have "\<dots> = fold ll_step (take i s @ newline # drop (i + 1) s) w"
      using n 1 by (simp add: take_fold) (simp add: ll_step_def)
    finally show ?thesis by (simp only: s [symmetric])
  qed
qed

definition ll_writes :: "string list \<Rightarrow> lastLine" where
  "ll_writes chunks = fold (\<lambda>b w. snd (lastLine_Write w b)) chunks lastLine_new"

lemma ll_writes_fold: "ll_writes chunks = fold ll_step (concat chunks) lastLine_new"
proof -
  have "ll_wf w \<Longrightarrow> fold (\<lambda>b w. snd (lastLine_Write w b)) cs w = fold ll_step (concat cs) w" for cs w
    by (induction cs arbitrary: w) (auto simp: lastLine_Write_def write_loop_fold ll_wf_fold)
  then show ?thesis by (simp add: ll_writes_def ll_wf_new)
qed

section \<open>The contract on the whole output\<close>

fun lines_of :: "string \<Rightarrow> string list" where
  "lines_of [] = []"
| "lines_of (c # s) =
     (if c = newline then [] # lines_of s
      else case lines_of s of [] \<Rightarrow> [[c]] | l # ls \<Rightarrow> (c # l) # ls)"

definition counts :: "string \<Rightarrow> bool" where
  "counts l \<longleftrightarrow> length l > MaxResult \<or> trim_space l \<noteq> []"

definition line_result :: "string \<Rightarrow> string" where
  "line_result l = (if length l > MaxResult then [] else trim_space l)"

definition result_of :: "string \<Rightarrow> string" where
  "result_of out = (case filter counts (lines_of out) of [] \<Rightarrow> [] | l # ls \<Rightarrow> line_result (last (l # ls)))"

lemma lines_of_partial: "newline \<notin> set p \<Longrightarrow> lines_of p = (if p = [] then [] else [p])"
  by (induction p) auto

lemma lines_of_newline: "newline \<notin> set p \<Longrightarrow> lines_of (p @ newline # s) = p # lines_of s"
  by (induction p) auto

lemma lines_of_eq_Nil [simp]: "lines_of s = [] \<longleftrightarrow> s = []"
  by (cases s) (auto split: list.splits)

lemma lines_of_append: "lines_of (s @ newline # t) = lines_of (s @ [newline]) @ lines_of t"
proof (induction s)
  case (Cons c s)
  have "lines_of (s @ [newline]) \<noteq> []" by simp
  with Cons show ?case by (auto simp del: lines_of_eq_Nil split: list.splits)
qed simp

definition upd_line :: "string \<Rightarrow> string \<Rightarrow> string" where
  "upd_line l prev = (if counts l then line_result l else prev)"

text \<open>\<open>w\<close> holds the partial line \<open>p\<close>.\<close>

definition ll_holds :: "lastLine \<Rightarrow> string \<Rightarrow> bool" where
  "ll_holds w p \<longleftrightarrow> newline \<notin> set p \<and>
     (if length p > MaxResult then ll_long w \<and> ll_buf w = [] else \<not> ll_long w \<and> ll_buf w = p)"

lemma ll_holds_snoc: "ll_holds w p \<Longrightarrow> c \<noteq> newline \<Longrightarrow>
  ll_holds (ll_step c w) (p @ [c]) \<and> ll_last (ll_step c w) = ll_last w"
  by (auto simp: ll_holds_def ll_step_def lastLine_take_def split: if_splits)

lemma ll_holds_endLine: "ll_holds w p \<Longrightarrow>
  ll_holds (endLine w) [] \<and> ll_last (endLine w) = upd_line p (ll_last w)"
  by (auto simp: ll_holds_def endLine_def Let_def upd_line_def counts_def line_result_def split: if_splits)

lemma Line_fold:
  "ll_holds w p \<Longrightarrow>
   fst (lastLine_Line (fold ll_step s w)) = fold upd_line (lines_of (p @ s)) (ll_last w)"
proof (induction s arbitrary: w p)
  case Nil
  then have p: "newline \<notin> set p" by (simp add: ll_holds_def)
  have iff: "ll_long w \<or> ll_buf w \<noteq> [] \<longleftrightarrow> p \<noteq> []"
    using Nil by (auto simp: ll_holds_def split: if_splits)
  show ?case
    using iff ll_holds_endLine [OF Nil] by (simp add: lastLine_Line_def Let_def lines_of_partial [OF p])
next
  case (Cons c s)
  show ?case
  proof (cases "c = newline")
    case True
    have "newline \<notin> set p" using Cons.prems by (simp add: ll_holds_def)
    with True ll_holds_endLine [OF Cons.prems] Cons.IH [of "endLine w" "[]"]
    show ?thesis by (simp add: lines_of_newline ll_step_def)
  next
    case False
    with ll_holds_snoc [OF Cons.prems] Cons.IH [of "ll_step c w" "p @ [c]"]
    show ?thesis by simp
  qed
qed

lemma fold_upd_line:
  "fold upd_line ls a = (case filter counts ls of [] \<Rightarrow> a | k # ks \<Rightarrow> line_result (last (k # ks)))"
proof (induction ls rule: rev_induct)
  case (snoc l ls)
  then show ?case by (auto simp: upd_line_def split: list.splits)
qed simp

lemma Line_result_of: "fst (lastLine_Line (ll_writes chunks)) = result_of (concat chunks)"
proof -
  have "ll_holds lastLine_new []" by (simp add: ll_holds_def lastLine_new_def)
  from Line_fold [OF this, of "concat chunks"] show ?thesis
    by (simp add: ll_writes_fold result_of_def fold_upd_line lastLine_new_def)
qed

text \<open>C32: however the output of a worker is cut into writes, the kept line is the last
  line of the whole output that is not blank, trimmed; a last line longer than
  \<open>MaxResult\<close> bytes gives no result instead of an earlier or a truncated one.\<close>

theorem Line_is_last_line:
  "fst (lastLine_Line (fold (\<lambda>b w. snd (lastLine_Write w b)) chunks lastLine_new))
     = result_of (concat chunks)"
  using Line_result_of [of chunks] by (simp add: ll_writes_def)

text \<open>The scanner never holds more than \<open>MaxResult\<close> bytes of a partial line nor a
  longer result, after any sequence of writes.\<close>

theorem lastLine_memory_bound:
  "length (ll_buf (fold (\<lambda>b w. snd (lastLine_Write w b)) chunks lastLine_new)) \<le> 64 \<and>
   length (ll_last (fold (\<lambda>b w. snd (lastLine_Write w b)) chunks lastLine_new)) \<le> 64"
proof -
  have "ll_wf (ll_writes chunks)" by (simp add: ll_writes_fold ll_wf_fold ll_wf_new)
  then show ?thesis by (simp add: ll_writes_def ll_wf_def MaxResult_def)
qed

section \<open>From the printed count to the parsed one\<close>

lemma length_utoa: "n < 10 ^ Suc k \<Longrightarrow> length (utoa n) \<le> Suc k"
proof (induction k arbitrary: n)
  case (Suc k)
  show ?case
  proof (cases "n < 10")
    case False
    have "n div 10 < 10 ^ Suc k" using Suc.prems by auto
    with Suc.IH False show ?thesis by (simp add: utoa.simps [of n])
  qed (simp add: utoa.simps)
qed (simp add: utoa.simps)

lemma length_itoa: "in_int64 n \<Longrightarrow> length (itoa n) \<le> 20"
proof -
  assume n: "in_int64 n"
  show ?thesis
  proof (cases "n < 0")
    case True
    have "length (utoa (nat (- n))) \<le> Suc 18" using n True by (intro length_utoa) (simp add: int64_defs)
    with True show ?thesis by (simp add: itoa_def)
  next
    case False
    have "length (utoa (nat n)) \<le> Suc 18" using n False by (intro length_utoa) (simp add: int64_defs)
    with False show ?thesis by (simp add: itoa_def)
  qed
qed

lemma itoa_nonempty [simp]: "itoa n \<noteq> []"
  by (simp add: itoa_def)

lemma itoa_no_newline: "newline \<notin> set (itoa n)"
proof -
  have "\<not> visible newline" by (simp add: visible_def)
  then have "newline \<noteq> digit_char d" if "d < 10" for d
    using digit_char_visible [OF that] by metis
  with utoa_digits [of newline "nat n"] utoa_digits [of newline "nat (- n)"]
  show ?thesis by (auto simp: itoa_def)
qed

lemma result_of_last:
  assumes "newline \<notin> set l" "trim_space l \<noteq> []" "length l \<le> MaxResult"
  shows "result_of (pre @ newline # l @ [newline]) = trim_space l"
proof -
  have "lines_of (pre @ newline # l @ [newline]) = lines_of (pre @ [newline]) @ [l]"
    by (subst lines_of_append) (simp add: lines_of_newline assms)
  moreover have "counts l" "line_result l = trim_space l"
    using assms by (simp_all add: counts_def line_result_def)
  ultimately show ?thesis
    by (cases "filter counts (lines_of (pre @ [newline]))") (simp_all add: result_of_def)
qed

lemma result_of_single:
  assumes "newline \<notin> set l" "trim_space l \<noteq> []" "length l \<le> MaxResult"
  shows "result_of (l @ [newline]) = trim_space l"
proof -
  have "counts l" "line_result l = trim_space l"
    using assms by (simp_all add: counts_def line_result_def)
  then show ?thesis by (simp add: result_of_def lines_of_newline assms)
qed

lemma parseTasks_itoa: "0 \<le> n \<Longrightarrow> in_int64 n \<Longrightarrow> parseTasks (itoa n) = (n, True)"
  using length_itoa [of n] by (simp add: parseTasks_def MaxResult_def atoi_itoa)

text \<open>A worker that ends its output with a line holding a count, as \<open>strconv.Itoa\<close>
  prints it, is credited with exactly that count, whatever it printed before and however
  the pipe cut the bytes.\<close>

theorem parseTasks_printed_count:
  assumes "0 \<le> n" "in_int64 n" "concat chunks = pre @ newline # itoa n @ [newline]"
  shows "parseTasks (fst (lastLine_Line (fold (\<lambda>b w. snd (lastLine_Write w b)) chunks lastLine_new)))
           = (n, True)"
proof -
  have "result_of (concat chunks) = itoa n"
    using assms length_itoa [OF assms(2)]
    by (simp add: result_of_last itoa_no_newline itoa_visible MaxResult_def)
  with Line_result_of [of chunks] assms show ?thesis by (simp add: ll_writes_def parseTasks_itoa)
qed

lemma parseTasks_printed_count_witness:
  "parseTasks (fst (lastLine_Line (fold (\<lambda>b w. snd (lastLine_Write w b))
     [''done'' @ [newline, CHR ''4''], [CHR ''2'', newline]] lastLine_new))) = (42, True)"
proof (rule parseTasks_printed_count [of 42 _ "''done''"])
  have "itoa 42 = ''42''" by code_simp
  then show "concat [''done'' @ [newline, CHR ''4''], [CHR ''2'', newline]]
    = ''done'' @ newline # itoa 42 @ [newline]" by simp
qed (simp_all add: int64_defs)

lemma parseTasks_nonneg: "parseTasks l = (n, ok) \<Longrightarrow> 0 \<le> n \<and> in_int64 n \<and> (\<not> ok \<longrightarrow> n = 0)"
  by (auto simp: parseTasks_def atoi_in_int64 int64_defs split: if_splits option.splits dest!: atoi_in_int64)

end
