(* ===== verification/Proc.thy ===== *)
theory Proc
  imports LastLine Config
begin

text \<open>
  Package \<open>internal/proc\<close>: what to start and how it ended (\<open>proc.go\<close>), the \<open>os/exec\<close>
  spawner (\<open>exec.go\<close>), graceful termination (\<open>terminate.go\<close>), and the in-memory spawner of
  \<open>proctest/fake.go\<close>.  \<open>os/exec\<close> and the kernel are arguments: the started pid, the
  result of \<open>Wait\<close>, the errors of \<open>kill\<close>.

  The locale \<open>process_laws\<close> is the \<open>Process\<close> interface \<open>Terminate\<close> is written against; it
  is interpreted on \<open>FakeProcess\<close> here and on \<open>execProcess\<close> in \<open>ExecProcess\<close>.
\<close>

section \<open>Specifications and exits\<close>

definition Stdout :: string where "Stdout = ''stdout''"
definition Stderr :: string where "Stderr = ''stderr''"
definition StreamNone :: string where "StreamNone = ''none''"

lemmas stream_defs = Stdout_def Stderr_def StreamNone_def

record Spec =
  Spec_Cmd :: "string list"
  Spec_Dir :: string
  Spec_Env :: "string gmap"
  Spec_InheritEnv :: bool
  Spec_ResultStream :: string

record Exit =
  Exit_Code :: gint
  Exit_Signal :: "signal option"
  Exit_Err :: "string option"
  Exit_Result :: string

definition zeroExit :: Exit where
  "zeroExit = \<lparr>Exit_Code = 0, Exit_Signal = None, Exit_Err = None, Exit_Result = []\<rparr>"

text \<open>The errors of \<open>Signal\<close> and \<open>KillGroup\<close>.\<close>

datatype perr = ErrProcessDone | ErrProcess string

section \<open>The exec spawner\<close>

definition waitDelay :: duration where "waitDelay = 5 * second"

text \<open>
  What \<open>Spawn\<close> sets of an \<open>exec.Cmd\<close>: \<open>None\<close> is the nil environment, which would inherit
  the parent's, and the two flags say which stream goes to the scanner (the other one
  goes to the null device).
\<close>

record exec_cmd =
  cmd_Args :: "string list"
  cmd_Dir :: string
  cmd_Env :: "string list option"
  cmd_Setpgid :: bool
  cmd_WaitDelay :: duration
  cmd_Stdout_result :: bool
  cmd_Stderr_result :: bool

record execProcess =
  ep_cmd :: exec_cmd
  ep_pid :: gint
  ep_result :: "lastLine option"

datatype spawn_error = SpawnCtx string | SpawnEmptyCommand | SpawnStart string string

definition buildEnv :: "string list \<Rightarrow> Spec \<Rightarrow> string list" where
  "buildEnv environ spec =
     (let keys = sort (map fst (Spec_Env spec));
          env = (if Spec_InheritEnv spec then environ else [])
      in env @ map (\<lambda>k. k @ ''='' @ (case map_of (Spec_Env spec) k of Some v \<Rightarrow> v | None \<Rightarrow> [])) keys)"

definition exec_Spawn ::
  "string list \<Rightarrow> (exec_cmd \<Rightarrow> string + gint) \<Rightarrow> string option \<Rightarrow> Spec \<Rightarrow> spawn_error + execProcess"
where
  "exec_Spawn environ start ctx_err spec =
     (case ctx_err of
        Some e \<Rightarrow> Inl (SpawnCtx e)
      | None \<Rightarrow>
          if Spec_Cmd spec = [] then Inl SpawnEmptyCommand
          else
            let so = Spec_ResultStream spec = Stdout;
                se = (\<not> so \<and> Spec_ResultStream spec = Stderr);
                cmd = \<lparr>cmd_Args = Spec_Cmd spec, cmd_Dir = Spec_Dir spec,
                       cmd_Env = Some (buildEnv environ spec), cmd_Setpgid = True,
                       cmd_WaitDelay = waitDelay, cmd_Stdout_result = so, cmd_Stderr_result = se\<rparr>
            in (case start cmd of
                  Inl e \<Rightarrow> Inl (SpawnStart (hd (Spec_Cmd spec)) e)
                | Inr pid \<Rightarrow>
                    Inr \<lparr>ep_cmd = cmd, ep_pid = pid,
                         ep_result = (if so \<or> se then Some lastLine_new else None)\<rparr>))"

text \<open>\<open>kill\<close> is the \<open>kill\<close> system call on a pid or, negated, on a process group.\<close>

datatype errno = ESRCH | Errno string

definition exec_KillGroup :: "(int \<Rightarrow> signal \<Rightarrow> errno option) \<Rightarrow> execProcess \<Rightarrow> perr option" where
  "exec_KillGroup kill p =
     (case kill (- ep_pid p) SIGKILL of
        None \<Rightarrow> None
      | Some ESRCH \<Rightarrow> Some ErrProcessDone
      | Some (Errno e) \<Rightarrow> Some (ErrProcess e))"

text \<open>
  The error of \<open>Wait\<close> as \<open>errors.Is\<close> and \<open>errors.As\<close> see it, and the \<open>WaitStatus\<close> of a
  reaped child.
\<close>

datatype wait_error = ErrWaitDelay | ExitError | WaitError string
datatype wait_status = Exited gint | Signaled signal

definition waitFailed :: "wait_error option \<Rightarrow> string option" where
  "waitFailed err =
     (case err of
        None \<Rightarrow> None
      | Some ErrWaitDelay \<Rightarrow> None
      | Some ExitError \<Rightarrow> None
      | Some (WaitError e) \<Rightarrow> Some e)"

definition exitFrom :: "wait_status \<Rightarrow> wait_error option \<Rightarrow> Exit" where
  "exitFrom state err =
     (case waitFailed err of
        Some e \<Rightarrow> zeroExit\<lparr>Exit_Code := -1, Exit_Err := Some e\<rparr>
      | None \<Rightarrow>
          (case state of
             Signaled sig \<Rightarrow> zeroExit\<lparr>Exit_Code := -1, Exit_Signal := Some sig\<rparr>
           | Exited code \<Rightarrow> zeroExit\<lparr>Exit_Code := code\<rparr>))"

text \<open>The reaping goroutine: the output written by then is in \<open>ep_result\<close>.\<close>

definition execProcess_wait :: "execProcess \<Rightarrow> wait_status \<Rightarrow> wait_error option \<Rightarrow> Exit" where
  "execProcess_wait p state err =
     (let exit = exitFrom state err
      in case ep_result p of
           None \<Rightarrow> exit
         | Some w \<Rightarrow> exit\<lparr>Exit_Result := fst (lastLine_Line w)\<rparr>)"

text \<open>The bytes the copying goroutine of \<open>os/exec\<close> hands to the scanner.\<close>

definition ep_output :: "string list \<Rightarrow> execProcess \<Rightarrow> execProcess" where
  "ep_output chunks p =
     p\<lparr>ep_result := map_option (fold (\<lambda>b w. snd (lastLine_Write w b)) chunks) (ep_result p)\<rparr>"

text \<open>\<open>os/exec\<close> documents that the last of several entries for a key is the one used.\<close>

definition env_lookup :: "string \<Rightarrow> string list \<Rightarrow> string option" where
  "env_lookup k env =
     (case find (\<lambda>kv. has_prefix kv (k @ ''='')) (rev env) of
        None \<Rightarrow> None
      | Some kv \<Rightarrow> Some (drop (length k + 1) kv))"

lemma has_prefix_entry:
  assumes "CHR ''='' \<notin> set k" "CHR ''='' \<notin> set k'"
  shows "has_prefix (k' @ ''='' @ v) (k @ ''='') \<longleftrightarrow> k' = k"
proof
  assume "has_prefix (k' @ ''='' @ v) (k @ ''='')"
  then obtain r where "k' @ CHR ''='' # v = k @ CHR ''='' # r" by (auto simp: has_prefix_iff)
  then have "takeWhile (\<lambda>c. c \<noteq> CHR ''='') (k' @ CHR ''='' # v) = takeWhile (\<lambda>c. c \<noteq> CHR ''='') (k @ CHR ''='' # r)"
    by simp
  moreover have tw: "takeWhile (\<lambda>c. c \<noteq> CHR ''='') (s @ CHR ''='' # t) = s" if "CHR ''='' \<notin> set s" for s t :: string
    using that by (induction s) auto
  ultimately show "k' = k" using tw [of k' v] tw [of k r] assms by simp
qed (simp add: has_prefix_iff)

lemma find_entry:
  assumes "CHR ''='' \<notin> set k" "list_all (\<lambda>k'. CHR ''='' \<notin> set k') ks"
  shows "find (\<lambda>kv. has_prefix kv (k @ ''='')) (map (\<lambda>k'. k' @ ''='' @ f k') ks)
    = (if k \<in> set ks then Some (k @ ''='' @ f k) else None)"
  using assms(2)
proof (induction ks)
  case (Cons k' ks)
  with has_prefix_entry [OF assms(1), of k' "f k'"] show ?case by auto
qed simp

text \<open>The child sees \<open>spec.Env\<close> on top of the parent's environment when it inherits
  and nothing else when it does not: an entry of \<open>spec.Env\<close> wins over the inherited one,
  and the list does not depend on the order in which Go ranges over the map.\<close>

theorem buildEnv_lookup:
  assumes "gmap_ok (Spec_Env spec)" "list_all (\<lambda>k'. CHR ''='' \<notin> set k') (k # map fst (Spec_Env spec))"
    and "mset (Spec_Env spec) = mset m"
  shows "env_lookup k (buildEnv environ spec) =
      (case map_of (Spec_Env spec) k of
         Some v \<Rightarrow> Some v
       | None \<Rightarrow> if Spec_InheritEnv spec then env_lookup k environ else None) \<and>
    buildEnv environ (spec\<lparr>Spec_Env := m\<rparr>) = buildEnv environ spec"
proof -
  define f where "f k' = (case map_of (Spec_Env spec) k' of Some v \<Rightarrow> v | None \<Rightarrow> [])" for k'
  let ?ks = "sort (map fst (Spec_Env spec))"
  have "list_all (\<lambda>k'. CHR ''='' \<notin> set k') (rev ?ks)" using assms(2) by (simp add: list_all_iff)
  with assms(2) have
    "find (\<lambda>kv. has_prefix kv (k @ ''='')) (map (\<lambda>k'. k' @ ''='' @ f k') (rev ?ks))
       = (if k \<in> set (rev ?ks) then Some (k @ ''='' @ f k) else None)"
    by (intro find_entry) simp_all
  then have "env_lookup k (buildEnv environ spec) =
      (if k \<in> fst ` set (Spec_Env spec) then Some (f k)
       else if Spec_InheritEnv spec then env_lookup k environ else None)"
    by (simp add: env_lookup_def buildEnv_def Let_def rev_map find_append flip: f_def)
  also have "\<dots> = (case map_of (Spec_Env spec) k of
         Some v \<Rightarrow> Some v
       | None \<Rightarrow> if Spec_InheritEnv spec then env_lookup k environ else None)"
    by (cases "map_of (Spec_Env spec) k")
       (simp_all add: f_def domIff flip: dom_map_of_conv_image_fst)
  finally show ?thesis
    using sort_keys_perm [OF assms(3)] map_of_perm [OF assms(1,3)] by (simp add: buildEnv_def)
qed

definition demo_spec :: Spec where
  "demo_spec = \<lparr>Spec_Cmd = [''w''], Spec_Dir = [], Spec_Env = [(''B'', ''2''), (''A'', ''1'')],
     Spec_InheritEnv = True, Spec_ResultStream = ''stdout''\<rparr>"

lemma buildEnv_lookup_witness:
  "env_lookup ''A'' (buildEnv [''A=0'', ''C=3''] demo_spec) = Some ''1'' \<and>
   env_lookup ''C'' (buildEnv [''A=0'', ''C=3''] demo_spec) = Some ''3''"
proof
  have A: "env_lookup ''A'' (buildEnv env demo_spec) = Some ''1''" for env
    using buildEnv_lookup [of demo_spec "''A''" "Spec_Env demo_spec" env] by (simp add: demo_spec_def)
  show "env_lookup ''A'' (buildEnv [''A=0'', ''C=3''] demo_spec) = Some ''1''" by (rule A)
  have "env_lookup ''C'' [''A=0'', ''C=3''] = Some ''3''" by code_simp
  then show "env_lookup ''C'' (buildEnv [''A=0'', ''C=3''] demo_spec) = Some ''3''"
    using buildEnv_lookup [of demo_spec "''C''" "Spec_Env demo_spec" "[''A=0'', ''C=3'']"]
    by (simp add: demo_spec_def)
qed

text \<open>The exit of a spawned child carries the last line of the output it wrote to the
  selected stream, and no result when no stream is read; its code, signal and error are
  those of the wait status, and a wait-delay expiry is not an error.\<close>

theorem exec_exit:
  assumes "exec_Spawn environ start ctx_err spec = Inr p"
  shows "execProcess_wait (ep_output chunks p) state err =
    \<lparr>Exit_Code = (case (err, state) of (Some (WaitError e), _) \<Rightarrow> -1 | (_, Exited c) \<Rightarrow> c | (_, Signaled s) \<Rightarrow> -1),
     Exit_Signal = (case (err, state) of (Some (WaitError e), _) \<Rightarrow> None | (_, Exited c) \<Rightarrow> None | (_, Signaled s) \<Rightarrow> Some s),
     Exit_Err = (case err of Some (WaitError e) \<Rightarrow> Some e | _ \<Rightarrow> None),
     Exit_Result = (if Spec_ResultStream spec \<in> {Stdout, Stderr} then result_of (concat chunks) else [])\<rparr>"
proof -
  have "ep_result p = (if Spec_ResultStream spec \<in> {Stdout, Stderr} then Some lastLine_new else None)"
    using assms by (auto simp: exec_Spawn_def Let_def split: option.splits if_splits sum.splits)
  then have "ep_result (ep_output chunks p) =
      (if Spec_ResultStream spec \<in> {Stdout, Stderr} then Some (ll_writes chunks) else None)"
    by (simp add: ep_output_def ll_writes_def)
  moreover have "fst (lastLine_Line (ll_writes chunks)) = result_of (concat chunks)"
    by (rule Line_result_of)
  ultimately show ?thesis
    by (simp add: execProcess_wait_def exitFrom_def waitFailed_def zeroExit_def
        split: option.split wait_error.split wait_status.split)
qed

lemma exec_exit_witness:
  "\<exists>p. exec_Spawn [] (\<lambda>_. Inr 7) None demo_spec = Inr p \<and>
     Exit_Code (execProcess_wait (ep_output [''4'', ''2'' @ [newline]] p) (Exited 3) (Some ErrWaitDelay)) = 3 \<and>
     Exit_Result (execProcess_wait (ep_output [''4'', ''2'' @ [newline]] p) (Exited 3) (Some ErrWaitDelay)) = ''42''"
proof -
  obtain p where p: "exec_Spawn [] (\<lambda>_. Inr 7) None demo_spec = Inr p"
    by (simp add: exec_Spawn_def demo_spec_def Let_def)
  have "result_of (''42'' @ [newline]) = ''42''" by code_simp
  with exec_exit [OF p, of "[''4'', ''2'' @ [newline]]" "Exited 3" "Some ErrWaitDelay"] p
  show ?thesis by (simp add: demo_spec_def stream_defs)
qed

text \<open>A group kill that finds nobody left reports the process as done, any other failure
  as it is.\<close>

lemma exec_KillGroup_iff:
  "exec_KillGroup kill p = Some ErrProcessDone \<longleftrightarrow> kill (- ep_pid p) SIGKILL = Some ESRCH"
  by (simp add: exec_KillGroup_def split: option.split errno.split)

section \<open>Termination\<close>

text \<open>
  The \<open>Process\<close> interface on a state \<open>'p\<close> that holds the process and its channel.
  \<open>Process_Done\<close> is a receive, \<open>None\<close> when it blocks for ever.  The receive that competes
  with a timer is \<open>select\<close>: \<open>None\<close> when the timer fires first.
\<close>

record 'p Process =
  Process_PID :: "'p \<Rightarrow> gint"
  Process_Signal :: "'p \<Rightarrow> signal \<Rightarrow> perr option \<times> 'p"
  Process_KillGroup :: "'p \<Rightarrow> perr option \<times> 'p"
  Process_Done :: "'p \<Rightarrow> Exit option \<times> 'p"

definition deliver :: "'p Process \<Rightarrow> 'p \<Rightarrow> signal \<Rightarrow> bool \<times> 'p" where
  "deliver P p sig =
     (case Process_Signal P p sig of (err, p) \<Rightarrow> (err = None \<or> err = Some ErrProcessDone, p))"

definition proc_kill :: "'p Process \<Rightarrow> 'p \<Rightarrow> Exit option \<times> 'p" where
  "proc_kill P p = (case Process_KillGroup P p of (_, p) \<Rightarrow> Process_Done P p)"

definition Terminate ::
  "'p Process \<Rightarrow> (duration \<Rightarrow> 'p \<Rightarrow> Exit option \<times> 'p) \<Rightarrow> 'p \<Rightarrow> signal option \<Rightarrow> duration \<Rightarrow> Exit option \<times> 'p"
where
  "Terminate P select p sig grace =
     (let sig = (case sig of None \<Rightarrow> SIGTERM | Some s \<Rightarrow> s)
      in case deliver P p sig of
           (False, p) \<Rightarrow> proc_kill P p
         | (True, p) \<Rightarrow>
             (case select grace p of
                (Some exit, p) \<Rightarrow> (Some exit, p)
              | (None, p) \<Rightarrow> proc_kill P p))"

text \<open>
  What the interface promises: \<open>ok\<close> processes are alive or have an unread exit, \<open>ready\<close>
  ones have ended with the exit \<open>e\<close>, which is in the channel or will be without further
  help.  A signal does nothing to those; a group kill ends every process, and does not change
  an exit that is already there.
\<close>

locale process_laws =
  fixes P :: "'p Process"
    and select :: "duration \<Rightarrow> 'p \<Rightarrow> Exit option \<times> 'p"
    and ok :: "'p \<Rightarrow> bool"
    and ready :: "'p \<Rightarrow> Exit \<Rightarrow> bool"
  assumes ready_ok: "ready p e \<Longrightarrow> ok p"
    and signal_ok: "ok p \<Longrightarrow> ok (snd (Process_Signal P p s))"
    and signal_ready: "ready p e \<Longrightarrow> Process_Signal P p s = (None, p) \<or> Process_Signal P p s = (Some ErrProcessDone, p)"
    and kill_ready: "ok p \<Longrightarrow> \<exists>e. ready (snd (Process_KillGroup P p)) e"
    and kill_keeps: "ready p e \<Longrightarrow> snd (Process_KillGroup P p) = p"
    and done_ready: "ready p e \<Longrightarrow> \<exists>q. Process_Done P p = (Some e, q)"
    and select_ready: "ready p e \<Longrightarrow> select g p = Process_Done P p \<or> select g p = (None, p)"
    and select_timeout: "ok p \<Longrightarrow> select g p = (None, q) \<Longrightarrow> ok q"
begin

lemma kill_returns: "ok p \<Longrightarrow> \<exists>e q. proc_kill P p = (Some e, q)"
  using kill_ready [of p] done_ready by (fastforce simp: proc_kill_def split: prod.splits)

lemma kill_ready_exit: "ready p e \<Longrightarrow> fst (proc_kill P p) = Some e"
  using kill_keeps [of p e] done_ready [of p e] by (auto simp: proc_kill_def split: prod.splits)

lemma deliver_ok: "ok p \<Longrightarrow> deliver P p s = (r, q) \<Longrightarrow> ok q"
  using signal_ok [of p s] by (auto simp: deliver_def split: prod.splits)

text \<open>\<open>Terminate\<close> always comes back with an exit.\<close>

lemma Terminate_returns: "ok p \<Longrightarrow> \<exists>e q. Terminate P select p sig g = (Some e, q)"
proof -
  assume p: "ok p"
  define s where "s = (case sig of None \<Rightarrow> SIGTERM | Some s \<Rightarrow> s)"
  obtain r q where d: "deliver P p s = (r, q)" by fastforce
  then have q: "ok q" using p deliver_ok by blast
  obtain x q' where sel: "select g q = (x, q')" by fastforce
  then have "x = None \<Longrightarrow> ok q'" using q select_timeout by blast
  with kill_returns [of q] kill_returns [of q'] q d sel show ?thesis
    by (cases r; cases x) (auto simp: Terminate_def Let_def simp flip: s_def)
qed

text \<open>A process that ended by itself keeps its own exit.\<close>

lemma Terminate_ready: "ready p e \<Longrightarrow> fst (Terminate P select p sig g) = Some e"
  using signal_ready [of p e "case sig of None \<Rightarrow> SIGTERM | Some s \<Rightarrow> s"] select_ready [of p e g]
    done_ready [of p e] kill_ready_exit [of p e]
  by (auto simp: Terminate_def deliver_def Let_def)

end

section \<open>The fake spawner\<close>

text \<open>
  \<open>fp_done\<close> is the buffer of the channel, \<open>fp_once\<close> the state of the \<open>sync.Once\<close> of
  \<open>end\<close>, which closes the channel after the send.
\<close>

record FakeProcess =
  fp_pid :: gint
  fp_spec :: Spec
  fp_done :: "Exit option"
  fp_closed :: bool
  fp_once :: bool
  fp_finished :: bool
  fp_signals :: "signal list"

definition fp_end :: "FakeProcess \<Rightarrow> Exit \<Rightarrow> FakeProcess" where
  "fp_end p exit =
     (if fp_once p then p
      else p\<lparr>fp_once := True, fp_finished := True, fp_done := Some exit, fp_closed := True\<rparr>)"

definition fp_Finish :: "FakeProcess \<Rightarrow> gint \<Rightarrow> FakeProcess" where
  "fp_Finish p code = fp_end p (zeroExit\<lparr>Exit_Code := code\<rparr>)"

definition fp_FinishResult :: "FakeProcess \<Rightarrow> gint \<Rightarrow> string \<Rightarrow> FakeProcess" where
  "fp_FinishResult p code line = fp_end p (zeroExit\<lparr>Exit_Code := code, Exit_Result := line\<rparr>)"

definition fp_Kill :: "FakeProcess \<Rightarrow> signal \<Rightarrow> FakeProcess" where
  "fp_Kill p sig = fp_end p (zeroExit\<lparr>Exit_Code := -1, Exit_Signal := Some sig\<rparr>)"

definition fp_Signal :: "FakeProcess \<Rightarrow> signal \<Rightarrow> perr option \<times> FakeProcess" where
  "fp_Signal p sig =
     (if fp_finished p then (Some ErrProcessDone, p)
      else (None, p\<lparr>fp_signals := fp_signals p @ [sig]\<rparr>))"

definition fp_KillGroup :: "FakeProcess \<Rightarrow> perr option \<times> FakeProcess" where
  "fp_KillGroup p =
     (case fp_Signal p SIGKILL of
        (Some err, p) \<Rightarrow> (Some err, p)
      | (None, p) \<Rightarrow> (None, fp_Kill p SIGKILL))"

text \<open>A receive: the buffered exit, the zero value of a closed channel, or for ever.\<close>

definition fp_recv :: "FakeProcess \<Rightarrow> Exit option \<times> FakeProcess" where
  "fp_recv p =
     (case fp_done p of
        Some e \<Rightarrow> (Some e, p\<lparr>fp_done := None\<rparr>)
      | None \<Rightarrow> if fp_closed p then (Some zeroExit, p) else (None, p))"

definition fakeProcess :: "FakeProcess Process" where
  "fakeProcess = \<lparr>Process_PID = fp_pid, Process_Signal = fp_Signal,
     Process_KillGroup = fp_KillGroup, Process_Done = fp_recv\<rparr>"

text \<open>
  The process during the grace period: \<open>script\<close> says with which exit a test ends it
  before the timer fires, if it does.
\<close>

definition fp_select ::
  "(duration \<Rightarrow> FakeProcess \<Rightarrow> Exit option) \<Rightarrow> duration \<Rightarrow> FakeProcess \<Rightarrow> Exit option \<times> FakeProcess"
where
  "fp_select script grace p =
     (let p = (case script grace p of None \<Rightarrow> p | Some e \<Rightarrow> fp_end p e) in
      case fp_recv p of (Some e, q) \<Rightarrow> (Some e, q) | (None, _) \<Rightarrow> (None, p))"

text \<open>A process whose exit nobody has read yet.\<close>

definition fp_ok :: "FakeProcess \<Rightarrow> bool" where
  "fp_ok p \<longleftrightarrow> fp_once p = fp_finished p \<and> fp_closed p = fp_finished p \<and>
     (fp_done p = None \<longleftrightarrow> \<not> fp_finished p)"

definition fp_ready :: "FakeProcess \<Rightarrow> Exit \<Rightarrow> bool" where
  "fp_ready p e \<longleftrightarrow> fp_ok p \<and> fp_done p = Some e"

lemmas fp_defs = fp_ok_def fp_ready_def fp_Signal_def fp_KillGroup_def fp_Kill_def fp_end_def
  fp_recv_def fp_select_def fakeProcess_def

lemma fp_ok_end: "fp_ok p \<Longrightarrow> fp_ok (fp_end p e)"
  by (simp add: fp_ok_def fp_end_def)

interpretation fake: process_laws fakeProcess "fp_select script" fp_ok fp_ready
proof
  fix p q :: FakeProcess and e s g
  show "fp_ready p e \<Longrightarrow> fp_ok p" by (simp add: fp_ready_def)
  show "fp_ok p \<Longrightarrow> fp_ok (snd (Process_Signal fakeProcess p s))" by (simp add: fp_defs)
  show "fp_ready p e \<Longrightarrow> Process_Signal fakeProcess p s = (None, p) \<or>
      Process_Signal fakeProcess p s = (Some ErrProcessDone, p)"
    by (auto simp: fp_defs)
  show "fp_ok p \<Longrightarrow> \<exists>e. fp_ready (snd (Process_KillGroup fakeProcess p)) e"
    by (cases "fp_finished p") (auto simp: fp_defs)
  show "fp_ready p e \<Longrightarrow> snd (Process_KillGroup fakeProcess p) = p" by (auto simp: fp_defs)
  show "fp_ready p e \<Longrightarrow> \<exists>q. Process_Done fakeProcess p = (Some e, q)" by (auto simp: fp_defs)
  show "fp_ready p e \<Longrightarrow> fp_select script g p = Process_Done fakeProcess p \<or> fp_select script g p = (None, p)"
    by (auto simp: fp_defs split: option.splits)
  show "fp_ok p \<Longrightarrow> fp_select script g p = (None, q) \<Longrightarrow> fp_ok q"
    by (auto simp: fp_select_def Let_def fp_ok_end split: option.splits prod.splits)
qed

text \<open>\<open>Terminate\<close> always returns the exit of the process; one that had already ended
  keeps its own exit and is sent nothing.\<close>

theorem Terminate_fake_returns:
  assumes "fp_ok p"
  shows "(\<exists>e q. Terminate fakeProcess (fp_select script) p sig grace = (Some e, q)) \<and>
    (fp_finished p \<longrightarrow> fst (Terminate fakeProcess (fp_select script) p sig grace) = fp_done p \<and>
       fp_signals (snd (Terminate fakeProcess (fp_select script) p sig grace)) = fp_signals p)"
proof (intro conjI impI)
  show "\<exists>e q. Terminate fakeProcess (fp_select script) p sig grace = (Some e, q)"
    using assms by (rule fake.Terminate_returns)
  assume "fp_finished p"
  with assms obtain e where e: "fp_done p = Some e" "fp_ready p e" by (auto simp: fp_ready_def fp_ok_def)
  show "fst (Terminate fakeProcess (fp_select script) p sig grace) = fp_done p"
    using fake.Terminate_ready [OF e(2)] e(1) by simp
  from e have "fp_finished p" "fp_once p" by (auto simp: fp_ready_def fp_ok_def)
  with e show "fp_signals (snd (Terminate fakeProcess (fp_select script) p sig grace)) = fp_signals p"
    by (auto simp: Terminate_def deliver_def fp_defs Let_def split: option.split)
qed

definition demo_fake :: FakeProcess where
  "demo_fake = \<lparr>fp_pid = 1, fp_spec = demo_spec, fp_done = None, fp_closed = False, fp_once = False,
     fp_finished = False, fp_signals = []\<rparr>"

lemma Terminate_fake_returns_witness:
  "fst (Terminate fakeProcess (fp_select (\<lambda>_ _. None)) (fp_Finish demo_fake 3) (Some SIGINT) 5)
     = Some (zeroExit\<lparr>Exit_Code := 3\<rparr>)"
  using Terminate_fake_returns [of "fp_Finish demo_fake 3" "\<lambda>_ _. None" "Some SIGINT" 5]
  by (simp add: fp_ok_def fp_Finish_def fp_end_def demo_fake_def)

text \<open>A running process gets \<open>sig\<close>, or \<open>SIGTERM\<close> by default, first; only one that
  outlives the grace period gets \<open>SIGKILL\<close> too, and then its exit is that kill.\<close>

theorem Terminate_fake_escalates:
  assumes "fp_ok p" "\<not> fp_finished p"
  shows "(let s = (case sig of None \<Rightarrow> SIGTERM | Some s \<Rightarrow> s);
              p' = p\<lparr>fp_signals := fp_signals p @ [s]\<rparr>;
              (r, q) = Terminate fakeProcess (fp_select script) p sig grace
          in case script grace p' of
               Some e \<Rightarrow> r = Some e \<and> fp_signals q = fp_signals p @ [s]
             | None \<Rightarrow> r = Some (zeroExit\<lparr>Exit_Code := -1, Exit_Signal := Some SIGKILL\<rparr>) \<and>
                 fp_signals q = fp_signals p @ [s, SIGKILL])"
  using assms
  by (simp add: Terminate_def deliver_def proc_kill_def fp_defs Let_def split: option.split)

lemma Terminate_fake_escalates_witness:
  "case Terminate fakeProcess (fp_select (\<lambda>_ _. None)) demo_fake None 5 of
     (r, q) \<Rightarrow> r = Some (zeroExit\<lparr>Exit_Code := -1, Exit_Signal := Some SIGKILL\<rparr>) \<and>
       fp_signals q = [SIGTERM, SIGKILL]"
  using Terminate_fake_escalates [of demo_fake None "\<lambda>_ _. None" 5]
  by (simp add: fp_ok_def demo_fake_def)

subsection \<open>The spawner\<close>

record FakeSpawner =
  fs_next :: gint
  fs_procs :: "FakeProcess list"
  fs_Err :: "string option"

definition fs_new :: FakeSpawner where
  "fs_new = \<lparr>fs_next = 0, fs_procs = [], fs_Err = None\<rparr>"

definition fs_Spawn :: "FakeSpawner \<Rightarrow> Spec \<Rightarrow> (string + FakeProcess) \<times> FakeSpawner" where
  "fs_Spawn s spec =
     (case fs_Err s of
        Some e \<Rightarrow> (Inl e, s)
      | None \<Rightarrow>
          let n = fs_next s + 1;
              p = \<lparr>fp_pid = n, fp_spec = spec, fp_done = None, fp_closed = False, fp_once = False,
                   fp_finished = False, fp_signals = []\<rparr>
          in (Inr p, s\<lparr>fs_next := n, fs_procs := fs_procs s @ [p]\<rparr>))"

text \<open>The process at the pointer \<open>Spawn\<close> returned changes in the list too.\<close>

definition fs_update :: "FakeSpawner \<Rightarrow> gint \<Rightarrow> (FakeProcess \<Rightarrow> FakeProcess) \<Rightarrow> FakeSpawner" where
  "fs_update s pid f = s\<lparr>fs_procs := map (\<lambda>p. if fp_pid p = pid then f p else p) (fs_procs s)\<rparr>"

definition fs_Procs :: "FakeSpawner \<Rightarrow> FakeProcess list" where
  "fs_Procs s = fs_procs s"

definition fs_Specs :: "FakeSpawner \<Rightarrow> Spec list" where
  "fs_Specs s = map fp_spec (fs_procs s)"

definition fs_Running :: "FakeSpawner \<Rightarrow> FakeProcess list" where
  "fs_Running s = filter (\<lambda>p. \<not> fp_finished p) (fs_Procs s)"

definition fs_wf :: "FakeSpawner \<Rightarrow> bool" where
  "fs_wf s \<longleftrightarrow> map fp_pid (fs_procs s) = map int [1..<Suc (length (fs_procs s))] \<and>
     fs_next s = int (length (fs_procs s))"

lemma fs_wf_new: "fs_wf fs_new"
  by (simp add: fs_wf_def fs_new_def)

lemma fs_wf_Spawn: "fs_wf s \<Longrightarrow> fs_wf (snd (fs_Spawn s spec))"
  by (auto simp: fs_wf_def fs_Spawn_def Let_def split: option.split)

lemma fs_wf_update: "fs_wf s \<Longrightarrow> (\<And>p. fp_pid (f p) = fp_pid p) \<Longrightarrow> fs_wf (fs_update s pid f)"
  by (auto simp: fs_wf_def fs_update_def comp_def if_distrib cong: if_cong)

end
