(* ===== verification/PoolOps.thy ===== *)
theory PoolOps
  imports Breaker Proc
begin

text \<open>
  \<open>internal/pool/pool.go\<close> and \<open>metrics.go\<close>: one pool.  The record \<open>pool\<close> is the Go
  struct; \<open>pool_sys\<close> adds what the pool does to the outside, in order: how often it read
  the clock and called the spawner, its log lines, its metric events, and its reaper
  goroutines, one per spawned worker.  The clock's readings and the spawner's answers come
  from an \<open>env\<close>.  Each locked section of the code is one function here; \<open>PoolRun\<close>
  interleaves them.

  \<open>running\<close> and the wait groups are unbounded integers: \<open>pool_inv\<close> of \<open>PoolRun\<close> keeps
  \<open>running\<close> between 0 and \<open>Concurrency\<close>, so none of the additions here can wrap.
\<close>

section \<open>The pool and its surroundings\<close>

definition KillTTL :: string where "KillTTL = ''ttl''"
definition KillShutdown :: string where "KillShutdown = ''shutdown''"

lemmas kill_reasons = KillTTL_def KillShutdown_def

definition SourceRedis :: string where "SourceRedis = ''redis''"
definition SourceHTTP :: string where "SourceHTTP = ''http''"
definition SourcePoke :: string where "SourcePoke = ''poke''"
definition SourceWorker :: string where "SourceWorker = ''worker''"

text \<open>One constructor per method of the \<open>Metrics\<close> interface.\<close>

datatype mevent =
    MSpawn string
  | MSpawnError string
  | MExit string string string duration
  | MKill string string
  | MTrip string
  | MHint string string
  | MDrop string string string
  | MTasks string gint

record env =
  env_now :: "nat \<Rightarrow> gtime"
  env_spawn :: "nat \<Rightarrow> Spec \<Rightarrow> string + gint"

record exitRecord =
  er_pid :: gint
  er_exit :: Exit
  er_killReason :: string
  er_result :: string
  er_running :: gint
  er_duration :: duration
  er_tasks :: gint
  er_hasTasks :: bool

text \<open>Where the goroutine \<open>reap\<close> of a worker is.\<close>

datatype phase =
    Waiting
  | Killing string
  | Ended Exit string
  | Stamped Exit string gtime
  | RecordedExit exitRecord
  | ReportedExit exitRecord
  | Reaped

record worker =
  w_pid :: gint
  w_started :: gtime
  w_ttl :: "duration option"
  w_phase :: phase

record pool =
  p_cfg :: PoolConfig
  p_running :: gint
  p_breaker :: breaker
  p_lastHint :: gtime
  p_lastExit :: gtime
  p_lastExitCode :: gint
  p_lastTasks :: gint
  p_hasLastTasks :: bool
  p_stopping :: bool
  p_stop :: bool
  p_reapers :: gint
  p_bg :: gint

record pool_sys = pool +
  s_reads :: nat
  s_spawns :: nat
  s_log :: "logline list"
  s_metrics :: "mevent list"
  s_workers :: "worker list"

definition pool_New :: "PoolConfig \<Rightarrow> pool_sys" where
  "pool_New cfg = \<lparr>
     p_cfg = cfg, p_running = 0, p_breaker = newBreaker cfg, p_lastHint = 0, p_lastExit = 0,
     p_lastExitCode = 0, p_lastTasks = 0, p_hasLastTasks = False, p_stopping = False, p_stop = False,
     p_reapers = 0, p_bg = 0,
     s_reads = 0, s_spawns = 0, s_log = [], s_metrics = [], s_workers = []\<rparr>"

definition pool_Name :: "pool_sys \<Rightarrow> string" where "pool_Name s = pc_Name (p_cfg s)"
definition pool_Running :: "pool_sys \<Rightarrow> gint" where "pool_Running s = p_running s"

text \<open>The calls into the clock, the logger (\<open>log.With("pool", name)\<close>) and the metrics.\<close>

definition clock_now :: "env \<Rightarrow> pool_sys \<Rightarrow> gtime \<times> pool_sys" where
  "clock_now E s = (env_now E (s_reads s), s\<lparr>s_reads := Suc (s_reads s)\<rparr>)"

definition plog :: "level \<Rightarrow> string \<Rightarrow> attrs \<Rightarrow> pool_sys \<Rightarrow> pool_sys" where
  "plog lvl msg as s = s\<lparr>s_log := s_log s @ [(lvl, msg, (''pool'', AStr (pc_Name (p_cfg s))) # as)]\<rparr>"

definition pmetric :: "mevent \<Rightarrow> pool_sys \<Rightarrow> pool_sys" where
  "pmetric e s = s\<lparr>s_metrics := s_metrics s @ [e]\<rparr>"

section \<open>Classification and naming of exits\<close>

definition classify :: "PoolConfig \<Rightarrow> Exit \<Rightarrow> bool \<Rightarrow> string" where
  "classify cfg exit killed =
     (if killed then ''killed''
      else if Exit_Signal exit = None \<and> Exit_Err exit = None \<and> List.member (pc_OkExitCodes cfg) (Exit_Code exit)
      then ''ok'' else ''failure'')"

definition signalName :: "signal \<Rightarrow> string" where "signalName sig = Signal_String sig"

definition exitCode :: "Exit \<Rightarrow> string \<Rightarrow> string" where
  "exitCode exit killReason =
     (if killReason \<noteq> [] then killReason
      else case Exit_Signal exit of
        Some sig \<Rightarrow> signalName sig
      | None \<Rightarrow> itoa (Exit_Code exit))"

definition exit_attrs :: "exitRecord \<Rightarrow> attrs" where
  "exit_attrs r =
     [(''pid'', AInt (er_pid r)), (''code'', AInt (Exit_Code (er_exit r))), (''result'', AStr (er_result r)),
      (''running'', AInt (er_running r)), (''duration'', ADur (er_duration r))]
     @ (if er_killReason r \<noteq> [] then [(''reason'', AStr (er_killReason r))] else [])
     @ (case Exit_Signal (er_exit r) of None \<Rightarrow> [] | Some sig \<Rightarrow> [(''signal'', AStr (signalName sig))])
     @ (case Exit_Err (er_exit r) of None \<Rightarrow> [] | Some e \<Rightarrow> [(''err'', AErr e)])
     @ (if er_hasTasks r then [(''tasks'', AInt (er_tasks r))] else [])"

section \<open>Spawning and hints\<close>

definition failureLocked :: "env \<Rightarrow> string \<Rightarrow> attr \<Rightarrow> pool_sys \<Rightarrow> pool_sys" where
  "failureLocked E lastKey cause s =
     (case clock_now E s of (now, s) \<Rightarrow>
      case breaker_failure (p_breaker s) now of ((d, tripped), b) \<Rightarrow>
      let s = s\<lparr>p_breaker := b\<rparr> in
      if \<not> tripped then s
      else plog Error ''breaker_trip''
             [(''failures'', AInt (threshold b)), (''window'', ADur (window b)), (''cooldown'', ADur d),
              (''breaker_level'', AInt (int (br_level b))), (''open_until'', ATime (openUntil b)),
              (lastKey, cause)]
             (pmetric (MTrip (pc_Name (p_cfg s))) s))"

definition pool_spec :: "PoolConfig \<Rightarrow> Spec" where
  "pool_spec cfg = \<lparr>Spec_Cmd = pc_Command cfg, Spec_Dir = pc_Dir cfg, Spec_Env = pc_Env cfg,
     Spec_InheritEnv = pc_InheritEnv cfg, Spec_ResultStream = pc_ResultStream cfg\<rparr>"

text \<open>The deadline of a worker: the duration its timer is armed with.\<close>

definition ttlTimer :: "PoolConfig \<Rightarrow> duration option" where
  "ttlTimer cfg = (if pc_TTL cfg \<le> 0 then None else Some (pc_TTL cfg))"

definition spawnLocked :: "env \<Rightarrow> string \<Rightarrow> pool_sys \<Rightarrow> bool \<times> pool_sys" where
  "spawnLocked E source s =
     (let name = pc_Name (p_cfg s);
          answer = env_spawn E (s_spawns s) (pool_spec (p_cfg s));
          s = s\<lparr>s_spawns := Suc (s_spawns s)\<rparr>
      in case answer of
           Inl err \<Rightarrow>
             let s = plog Error ''spawn_error'' [(''source'', AStr source), (''err'', AErr err)] s;
                 s = pmetric (MSpawnError name) s
             in (False, failureLocked E ''err'' (AErr err) s)
         | Inr pid \<Rightarrow>
             let s = s\<lparr>p_running := p_running s + 1\<rparr>;
                 s = pmetric (MSpawn name) s;
                 s = plog Info ''spawn'' [(''pid'', AInt pid), (''source'', AStr source),
                       (''running'', AInt (p_running s))] s;
                 s = s\<lparr>p_reapers := p_reapers s + 1\<rparr>
             in case clock_now E s of (now, s) \<Rightarrow>
                (True, s\<lparr>s_workers := s_workers s @ [\<lparr>w_pid = pid, w_started = now,
                           w_ttl = ttlTimer (p_cfg s), w_phase = Waiting\<rparr>]\<rparr>))"

text \<open>The loop of \<open>Hint\<close>: at most \<open>want\<close> spawns, stopping at the first that fails.\<close>

fun spawn_loop :: "env \<Rightarrow> string \<Rightarrow> nat \<Rightarrow> pool_sys \<Rightarrow> nat \<times> pool_sys" where
  "spawn_loop E source 0 s = (0, s)"
| "spawn_loop E source (Suc want) s =
     (case spawnLocked E source s of
        (False, s) \<Rightarrow> (0, s)
      | (True, s) \<Rightarrow> (case spawn_loop E source want s of (k, s) \<Rightarrow> (Suc k, s)))"

definition pool_Hint :: "env \<Rightarrow> string \<Rightarrow> gint \<Rightarrow> pool_sys \<Rightarrow> gint \<times> pool_sys" where
  "pool_Hint E source n s =
     (let name = pc_Name (p_cfg s); channel = pc_Channel (p_cfg s) in
      if p_stopping s then
        let s = plog Debug ''drop'' [(''reason'', AStr ''shutdown''), (''source'', AStr source),
                  (''channel'', AStr channel), (''count'', AInt n)] s
        in (0, pmetric (MDrop source name ''shutdown'') s)
      else
        case clock_now E s of (now, s) \<Rightarrow>
        let s = s\<lparr>p_lastHint := now\<rparr>;
            s = pmetric (MHint source name) s
        in case breaker_open (p_breaker s) now of (isopen, b) \<Rightarrow>
        let s = s\<lparr>p_breaker := b\<rparr> in
        if isopen then
          let s = plog Debug ''drop'' [(''reason'', AStr ''exit_cooldown''), (''source'', AStr source),
                    (''channel'', AStr channel), (''count'', AInt n), (''open_until'', ATime (openUntil b))] s
          in (0, pmetric (MDrop source name ''exit_cooldown'') s)
        else
          let want = min n (pc_Concurrency (p_cfg s) - p_running s)
          in case spawn_loop E source (nat want) s of (spawned, s) \<Rightarrow> (int spawned, s))"

section \<open>Reaping\<close>

text \<open>\<open>w.phase\<close> of the \<open>i\<close>-th goroutine.\<close>

definition set_phase :: "nat \<Rightarrow> phase \<Rightarrow> pool_sys \<Rightarrow> pool_sys" where
  "set_phase i ph s = s\<lparr>s_workers := (s_workers s)[i := (s_workers s ! i)\<lparr>w_phase := ph\<rparr>]\<rparr>"

text \<open>The three branches of the \<open>select\<close> of \<open>wait\<close>, and the return of \<open>Terminate\<close>.  Leaving
  \<open>wait\<close> stops the timer.\<close>

definition leave_wait :: "nat \<Rightarrow> Exit \<Rightarrow> string \<Rightarrow> pool_sys \<Rightarrow> pool_sys" where
  "leave_wait i exit reason s =
     s\<lparr>s_workers := (s_workers s)[i := (s_workers s ! i)\<lparr>w_ttl := None, w_phase := Ended exit reason\<rparr>]\<rparr>"

definition wait_done :: "nat \<Rightarrow> Exit \<Rightarrow> pool_sys \<Rightarrow> pool_sys" where
  "wait_done i exit s = leave_wait i exit [] s"

definition wait_ttl :: "nat \<Rightarrow> pool_sys \<Rightarrow> pool_sys" where
  "wait_ttl i s =
     (let cfg = p_cfg s;
          s = plog Info ''ttl_kill'' [(''pid'', AInt (w_pid (s_workers s ! i))), (''ttl'', ADur (pc_TTL cfg)),
                (''signal'', AStr (signalName (pc_TermSignal cfg))), (''grace'', ADur (pc_GraceShutdown cfg))] s
      in set_phase i (Killing KillTTL) (pmetric (MKill (pc_Name cfg) KillTTL) s))"

definition wait_stop :: "nat \<Rightarrow> pool_sys \<Rightarrow> pool_sys" where
  "wait_stop i s =
     (let cfg = p_cfg s;
          s = plog Info ''shutdown_kill'' [(''pid'', AInt (w_pid (s_workers s ! i))),
                (''signal'', AStr (signalName (pc_TermSignal cfg))), (''grace'', ADur (pc_GraceShutdown cfg))] s
      in set_phase i (Killing KillShutdown) (pmetric (MKill (pc_Name cfg) KillShutdown) s))"

definition recordExit :: "env \<Rightarrow> exitRecord \<Rightarrow> gtime \<Rightarrow> pool_sys \<Rightarrow> (string \<times> gint) \<times> pool_sys" where
  "recordExit E r exitedAt s =
     (let s = s\<lparr>p_running := p_running s - 1, p_lastExit := exitedAt, p_lastExitCode := Exit_Code (er_exit r)\<rparr>;
          s = (if er_hasTasks r then s\<lparr>p_lastTasks := er_tasks r, p_hasLastTasks := True\<rparr> else s);
          result = classify (p_cfg s) (er_exit r) (er_killReason r \<noteq> []);
          s = (if result = ''ok'' then s\<lparr>p_breaker := breaker_ok (p_breaker s) exitedAt\<rparr>
               else if result = ''failure'' then failureLocked E ''code'' (AInt (Exit_Code (er_exit r))) s
               else s)
      in ((result, p_running s), s))"

definition logExit :: "exitRecord \<Rightarrow> pool_sys \<Rightarrow> pool_sys" where
  "logExit r s =
     (let s = plog Info ''exit'' (exit_attrs r) s
      in if \<not> er_hasTasks r \<and> Exit_Result (er_exit r) \<noteq> [] then
           plog Debug ''result_ignored'' [(''pid'', AInt (er_pid r)), (''line'', AStr (Exit_Result (er_exit r)))] s
         else s)"

text \<open>The record \<open>reap\<close> has filled in when it takes the lock.\<close>

definition exit_record :: "worker \<Rightarrow> Exit \<Rightarrow> string \<Rightarrow> exitRecord" where
  "exit_record w exit reason =
     (case parseTasks (Exit_Result exit) of (tasks, hasTasks) \<Rightarrow>
      \<lparr>er_pid = w_pid w, er_exit = exit, er_killReason = reason, er_result = [], er_running = 0,
       er_duration = 0, er_tasks = tasks, er_hasTasks = hasTasks\<rparr>)"

text \<open>\<open>reap\<close> after \<open>wait\<close>: the clock reading, the locked record, the report, the chained
  hint with the deferred \<open>reapers.Done\<close>.\<close>

definition reap_stamp :: "env \<Rightarrow> nat \<Rightarrow> Exit \<Rightarrow> string \<Rightarrow> pool_sys \<Rightarrow> pool_sys" where
  "reap_stamp E i exit reason s =
     (case clock_now E s of (exitedAt, s) \<Rightarrow> set_phase i (Stamped exit reason exitedAt) s)"

definition reap_record :: "env \<Rightarrow> nat \<Rightarrow> Exit \<Rightarrow> string \<Rightarrow> gtime \<Rightarrow> pool_sys \<Rightarrow> pool_sys" where
  "reap_record E i exit reason exitedAt s =
     (let w = s_workers s ! i; r = exit_record w exit reason
      in case recordExit E r exitedAt s of ((result, running), s) \<Rightarrow>
         set_phase i (RecordedExit (r\<lparr>er_result := result, er_running := running,
           er_duration := time_sub exitedAt (w_started w)\<rparr>)) s)"

definition reap_report :: "nat \<Rightarrow> exitRecord \<Rightarrow> pool_sys \<Rightarrow> pool_sys" where
  "reap_report i r s =
     (let name = pc_Name (p_cfg s);
          s = pmetric (MExit name (er_result r) (exitCode (er_exit r) (er_killReason r)) (er_duration r)) s;
          s = (if er_hasTasks r then pmetric (MTasks name (er_tasks r)) s else s)
      in set_phase i (ReportedExit r) (logExit r s))"

definition reap_chain :: "env \<Rightarrow> nat \<Rightarrow> exitRecord \<Rightarrow> pool_sys \<Rightarrow> pool_sys" where
  "reap_chain E i r s =
     (let s = (if er_result r = ''ok'' \<and> er_tasks r > 0 then snd (pool_Hint E SourceWorker (er_tasks r) s) else s)
      in set_phase i Reaped (s\<lparr>p_reapers := p_reapers s - 1\<rparr>))"

text \<open>The whole goroutine when nothing interleaves: the worker ended with \<open>exit\<close> for
  \<open>reason\<close> (empty when by itself).\<close>

definition pool_wait :: "nat \<Rightarrow> Exit \<Rightarrow> string \<Rightarrow> pool_sys \<Rightarrow> pool_sys" where
  "pool_wait i exit reason s =
     leave_wait i exit reason
       (if reason = [] then s else if reason = KillTTL then wait_ttl i s else wait_stop i s)"

definition reap :: "env \<Rightarrow> nat \<Rightarrow> Exit \<Rightarrow> string \<Rightarrow> pool_sys \<Rightarrow> pool_sys" where
  "reap E i exit reason s =
     (let s = pool_wait i exit reason s;
          s = reap_stamp E i exit reason s
      in case w_phase (s_workers s ! i) of
           Stamped _ _ exitedAt \<Rightarrow>
             let s = reap_record E i exit reason exitedAt s
             in (case w_phase (s_workers s ! i) of
                   RecordedExit r \<Rightarrow> reap_chain E i r (reap_report i r s)
                 | _ \<Rightarrow> s)
         | _ \<Rightarrow> s)"

section \<open>The poke ticker\<close>

text \<open>
  \<open>poke.go\<close>.  Each \<open>Start\<close> with a poke interval launches one goroutine, counted by \<open>bg\<close>;
  \<open>wake\<close> is the branch its \<open>select\<close> takes.
\<close>

datatype wake = WakeCtx | WakeStop | WakeTick

definition pool_Start :: "pool_sys \<Rightarrow> pool_sys" where
  "pool_Start s = (if pc_Poke (p_cfg s) \<le> 0 then s else s\<lparr>p_bg := p_bg s + 1\<rparr>)"

definition awaitTick :: "wake \<Rightarrow> bool \<Rightarrow> bool" where
  "awaitTick w ctx_done = (case w of WakeCtx \<Rightarrow> False | WakeStop \<Rightarrow> False | WakeTick \<Rightarrow> \<not> ctx_done)"

text \<open>One round of \<open>pokeLoop\<close>: a hint, or the end of the goroutine.\<close>

definition poke_round :: "env \<Rightarrow> wake \<Rightarrow> bool \<Rightarrow> pool_sys \<Rightarrow> pool_sys" where
  "poke_round E w ctx_done s =
     (if awaitTick w ctx_done then
        case pool_Hint E SourcePoke (pc_PokeCount (p_cfg s)) s of (n, s) \<Rightarrow>
        plog Debug ''hint'' [(''source'', AStr SourcePoke), (''channel'', AStr (pc_Channel (p_cfg s))),
          (''count'', AInt (pc_PokeCount (p_cfg s))), (''spawned'', AInt n)] s
      else s\<lparr>p_bg := p_bg s - 1\<rparr>)"

section \<open>Snapshots and shutdown\<close>

record Stats =
  st_Running :: gint
  st_Concurrency :: gint
  st_LastHint :: gtime
  st_LastExit :: gtime
  st_LastExitCode :: gint
  st_LastTasks :: gint
  st_HasLastTasks :: bool
  st_BreakerOpenUntil :: gtime
  st_BreakerLevel :: gint

definition pool_Stats :: "env \<Rightarrow> pool_sys \<Rightarrow> Stats \<times> pool_sys" where
  "pool_Stats E s =
     (let st = \<lparr>st_Running = p_running s, st_Concurrency = pc_Concurrency (p_cfg s),
            st_LastHint = p_lastHint s, st_LastExit = p_lastExit s, st_LastExitCode = p_lastExitCode s,
            st_LastTasks = p_lastTasks s, st_HasLastTasks = p_hasLastTasks s, st_BreakerOpenUntil = 0,
            st_BreakerLevel = int (br_level (p_breaker s))\<rparr>
      in case clock_now E s of (now, s) \<Rightarrow>
         case breaker_open (p_breaker s) now of (isopen, b) \<Rightarrow>
         (if isopen then st\<lparr>st_BreakerOpenUntil := openUntil b\<rparr> else st, s\<lparr>p_breaker := b\<rparr>))"

text \<open>\<open>Shutdown\<close> up to its wait, and what the wait may return then: \<open>Some e\<close> is the error
  of an ended context.\<close>

definition Shutdown_begin :: "pool_sys \<Rightarrow> pool_sys" where
  "Shutdown_begin s =
     (if p_stopping s then s
      else plog Info ''shutdown'' [(''running'', AInt (p_running s))] (s\<lparr>p_stopping := True, p_stop := True\<rparr>))"

definition Shutdown_returns :: "pool_sys \<Rightarrow> string option \<Rightarrow> string option \<Rightarrow> bool" where
  "Shutdown_returns s ctx_err r \<longleftrightarrow>
     (r = None \<and> p_reapers s = 0 \<and> p_bg s = 0) \<or> (r \<noteq> None \<and> r = ctx_err)"

end
