(* ===== verification/PoolRun.thy ===== *)
theory PoolRun
  imports PoolOps
begin

text \<open>
  The pool under concurrency.  \<open>pool_step\<close> interleaves the locked sections of
  \<open>PoolOps\<close>: any goroutine may call \<open>Hint\<close>, \<open>Stats\<close> or \<open>Shutdown\<close> at any time, every
  reaper advances on its own, and the branch a \<open>select\<close> takes is open wherever several
  are ready.  \<open>pool_inv\<close> holds in every reachable state.
\<close>

section \<open>What the operations leave alone\<close>

text \<open>The part of the state that only spawns, exits and shutdown change.\<close>

definition core :: "pool_sys \<Rightarrow> PoolConfig \<times> gint \<times> bool \<times> bool \<times> gint \<times> gint \<times> worker list" where
  "core s = (p_cfg s, p_running s, p_stopping s, p_stop s, p_reapers s, p_bg s, s_workers s)"

text \<open>How many workers the metrics say were started and reaped.\<close>

definition spawned_events :: "pool_sys \<Rightarrow> nat" where
  "spawned_events s = length (filter (\<lambda>e. case e of MSpawn _ \<Rightarrow> True | _ \<Rightarrow> False) (s_metrics s))"

definition exit_events :: "pool_sys \<Rightarrow> nat" where
  "exit_events s = length (filter (\<lambda>e. case e of MExit _ _ _ _ \<Rightarrow> True | _ \<Rightarrow> False) (s_metrics s))"

lemmas event_defs = spawned_events_def exit_events_def

lemma plog_simps [simp]:
  "core (plog l m as s) = core s" "s_metrics (plog l m as s) = s_metrics s"
  "s_spawns (plog l m as s) = s_spawns s" "s_reads (plog l m as s) = s_reads s"
  "p_breaker (plog l m as s) = p_breaker s" "p_lastHint (plog l m as s) = p_lastHint s"
  "p_running (plog l m as s) = p_running s" "p_cfg (plog l m as s) = p_cfg s"
  "s_workers (plog l m as s) = s_workers s" "p_reapers (plog l m as s) = p_reapers s"
  "p_stopping (plog l m as s) = p_stopping s" "p_stop (plog l m as s) = p_stop s" "p_bg (plog l m as s) = p_bg s"
  by (simp_all add: plog_def core_def)

lemma pmetric_simps [simp]:
  "core (pmetric e s) = core s" "s_metrics (pmetric e s) = s_metrics s @ [e]"
  "s_spawns (pmetric e s) = s_spawns s" "s_reads (pmetric e s) = s_reads s"
  "p_breaker (pmetric e s) = p_breaker s" "p_lastHint (pmetric e s) = p_lastHint s"
  "p_running (pmetric e s) = p_running s" "p_cfg (pmetric e s) = p_cfg s"
  "s_workers (pmetric e s) = s_workers s" "p_reapers (pmetric e s) = p_reapers s"
  "p_stopping (pmetric e s) = p_stopping s" "p_stop (pmetric e s) = p_stop s" "p_bg (pmetric e s) = p_bg s"
  by (simp_all add: pmetric_def core_def)

text \<open>\<open>failureLocked\<close> reads the clock once and moves the breaker.\<close>

lemma failureLocked_frame:
  "core (failureLocked E k v s) = core s"
  "spawned_events (failureLocked E k v s) = spawned_events s"
  "exit_events (failureLocked E k v s) = exit_events s"
  "s_spawns (failureLocked E k v s) = s_spawns s"
  "s_reads (failureLocked E k v s) = Suc (s_reads s)"
  "p_breaker (failureLocked E k v s) = snd (breaker_failure (p_breaker s) (env_now E (s_reads s)))"
  "p_lastHint (failureLocked E k v s) = p_lastHint s"
  by (simp_all add: failureLocked_def clock_now_def event_defs Let_def core_def split: prod.split)

section \<open>Spawning\<close>

text \<open>The answer of the spawner's next call, and of the \<open>k\<close>-th after it.\<close>

definition answer :: "env \<Rightarrow> pool_sys \<Rightarrow> nat \<Rightarrow> string + gint" where
  "answer E s k = env_spawn E (s_spawns s + k) (pool_spec (p_cfg s))"

lemma spawnLocked_Inl:
  assumes "answer E s 0 = Inl err"
  shows "fst (spawnLocked E src s) = False" "core (snd (spawnLocked E src s)) = core s"
    "spawned_events (snd (spawnLocked E src s)) = spawned_events s"
    "exit_events (snd (spawnLocked E src s)) = exit_events s"
    "s_reads (snd (spawnLocked E src s)) = Suc (s_reads s)"
    "s_spawns (snd (spawnLocked E src s)) = Suc (s_spawns s)"
    "p_breaker (snd (spawnLocked E src s)) = snd (breaker_failure (p_breaker s) (env_now E (s_reads s)))"
    "p_lastHint (snd (spawnLocked E src s)) = p_lastHint s"
  using assms by (simp_all add: spawnLocked_def answer_def Let_def failureLocked_frame)
    (simp_all add: core_def event_defs)

lemma spawnLocked_Inr:
  assumes "answer E s 0 = Inr pid"
  shows "fst (spawnLocked E src s)"
    "core (snd (spawnLocked E src s)) = (p_cfg s, p_running s + 1, p_stopping s, p_stop s, p_reapers s + 1, p_bg s,
      s_workers s @ [\<lparr>w_pid = pid, w_started = env_now E (s_reads s), w_ttl = ttlTimer (p_cfg s), w_phase = Waiting\<rparr>])"
    "spawned_events (snd (spawnLocked E src s)) = Suc (spawned_events s)"
    "exit_events (snd (spawnLocked E src s)) = exit_events s"
    "s_reads (snd (spawnLocked E src s)) = Suc (s_reads s)"
    "s_spawns (snd (spawnLocked E src s)) = Suc (s_spawns s)"
    "p_breaker (snd (spawnLocked E src s)) = p_breaker s"
    "p_lastHint (snd (spawnLocked E src s)) = p_lastHint s"
  using assms by (simp_all add: spawnLocked_def answer_def Let_def clock_now_def event_defs core_def)

text \<open>\<open>k\<close> workers were started, all of them waiting.\<close>

definition started :: "pool_sys \<Rightarrow> nat \<Rightarrow> pool_sys \<Rightarrow> bool" where
  "started s k s' \<longleftrightarrow> (\<exists>ws. length ws = k \<and> list_all (\<lambda>w. w_phase w = Waiting) ws \<and>
     core s' = (p_cfg s, p_running s + int k, p_stopping s, p_stop s, p_reapers s + int k, p_bg s, s_workers s @ ws)) \<and>
     spawned_events s' = spawned_events s + k \<and> exit_events s' = exit_events s"

lemma started_0: "core s' = core s \<Longrightarrow> spawned_events s' = spawned_events s \<Longrightarrow> exit_events s' = exit_events s \<Longrightarrow>
  started s 0 s'"
  by (simp add: started_def core_def)

lemma started_trans: "started s k s' \<Longrightarrow> started s' l s'' \<Longrightarrow> started s (k + l) s''"
  unfolding started_def core_def
  by (elim conjE exE, intro conjI, rule_tac x = "ws @ wsa" in exI) (simp_all add: list_all_append)

lemma spawnLocked_started:
  "started s (if fst (spawnLocked E src s) then 1 else 0) (snd (spawnLocked E src s))"
proof (cases "answer E s 0")
  case (Inl err)
  with spawnLocked_Inl [OF this, of src] show ?thesis by (simp add: started_0)
next
  case (Inr pid)
  show ?thesis
    unfolding started_def using spawnLocked_Inr [OF Inr, of src]
    by (intro conjI exI [of _ "[\<lparr>w_pid = pid, w_started = env_now E (s_reads s), w_ttl = ttlTimer (p_cfg s), w_phase = Waiting\<rparr>]"])
       simp_all
qed

text \<open>How many of the next \<open>n\<close> spawns succeed before the first failure.\<close>

fun good :: "env \<Rightarrow> pool_sys \<Rightarrow> nat \<Rightarrow> nat \<Rightarrow> nat" where
  "good E s k 0 = 0"
| "good E s k (Suc n) = (case answer E s k of Inl _ \<Rightarrow> 0 | Inr _ \<Rightarrow> Suc (good E s (Suc k) n))"

lemma good_le: "good E s k n \<le> n"
  by (induction n arbitrary: k) (auto split: sum.split)

lemma good_all: "(\<And>i. i < n \<Longrightarrow> \<exists>pid. answer E s (k + i) = Inr pid) \<Longrightarrow> good E s k n = n"
proof (induction n arbitrary: k)
  case (Suc n)
  from Suc.prems [of 0] obtain pid where "answer E s k = Inr pid" by auto
  moreover have "good E s (Suc k) n = n"
    using Suc.prems [of "Suc i" for i] by (intro Suc.IH) (simp add: add.commute)
  ultimately show ?case by simp
qed simp

lemma good_shift:
  "s_spawns s' = s_spawns s + d \<Longrightarrow> p_cfg s' = p_cfg s \<Longrightarrow> good E s' k n = good E s (d + k) n"
  by (induction n arbitrary: k) (simp_all add: answer_def add.assoc split: sum.split)

lemma spawn_loop_started:
  "started s (fst (spawn_loop E src n s)) (snd (spawn_loop E src n s)) \<and>
   fst (spawn_loop E src n s) = good E s 0 n \<and>
   s_spawns (snd (spawn_loop E src n s)) \<le> s_spawns s + n \<and>
   p_lastHint (snd (spawn_loop E src n s)) = p_lastHint s"
proof (induction n arbitrary: s)
  case 0
  then show ?case by (simp add: started_0)
next
  case (Suc n)
  obtain r t where st: "spawnLocked E src s = (r, t)" by fastforce
  show ?case
  proof (cases "answer E s 0")
    case (Inl err)
    with spawnLocked_Inl [OF this, of src] st show ?thesis by (simp add: started_0)
  next
    case (Inr pid)
    note sp = spawnLocked_Inr [OF Inr, of src]
    have t: "r" "s_spawns t = s_spawns s + 1" "p_cfg t = p_cfg s" "p_lastHint t = p_lastHint s"
      using sp st by (simp_all add: core_def)
    have "started s 1 t" using spawnLocked_started [of s E src] st t by simp
    moreover have "good E t 0 n = good E s 1 n" using good_shift [of t s 1 E 0 n] t by simp
    ultimately show ?thesis
      using Suc.IH [of t] st t Inr started_trans [of s 1 t] by (auto split: prod.split)
  qed
qed

section \<open>Hints\<close>

definition hint_grants :: "env \<Rightarrow> pool_sys \<Rightarrow> gint \<Rightarrow> nat" where
  "hint_grants E s n =
     (if p_stopping s \<or> env_now E (s_reads s) < openUntil (p_breaker s) then 0
      else good E s 0 (nat (min n (pc_Concurrency (p_cfg s) - p_running s))))"

lemma hint_grants_room: "0 < hint_grants E s n \<Longrightarrow>
  int (hint_grants E s n) \<le> n \<and> p_running s + int (hint_grants E s n) \<le> pc_Concurrency (p_cfg s)"
  using good_le [of E s 0 "nat (min n (pc_Concurrency (p_cfg s) - p_running s))"]
  by (auto simp: hint_grants_def split: if_splits)

lemma pool_Hint_started:
  "started s (hint_grants E s n) (snd (pool_Hint E src n s)) \<and>
   fst (pool_Hint E src n s) = int (hint_grants E s n)"
proof (cases "p_stopping s")
  case True
  then show ?thesis
    by (auto simp: pool_Hint_def hint_grants_def Let_def event_defs intro!: started_0)
next
  case False
  define now where "now = env_now E (s_reads s)"
  define t where "t = pmetric (MHint src (pc_Name (p_cfg s))) (s\<lparr>s_reads := Suc (s_reads s), p_lastHint := now\<rparr>)"
  define b where "b = decay (p_breaker s) now"
  define u where "u = t\<lparr>p_breaker := b\<rparr>"
  have st: "started s 0 u"
    by (rule started_0) (simp_all add: u_def t_def core_def event_defs)
  have pu: "p_cfg u = p_cfg s" "p_running u = p_running s" "s_spawns u = s_spawns s"
    by (simp_all add: u_def t_def)
  have bo: "breaker_open (p_breaker t) now = (now < openUntil (p_breaker s), b)"
    by (simp add: t_def b_def breaker_open_def go_defs Let_def)
  show ?thesis
  proof (cases "now < openUntil (p_breaker s)")
    case True
    then have "hint_grants E s n = 0" by (simp add: hint_grants_def now_def)
    moreover have "pool_Hint E src n s = (0, pmetric (MDrop src (pc_Name (p_cfg s)) ''exit_cooldown'')
        (plog Debug ''drop'' [(''reason'', AStr ''exit_cooldown''), (''source'', AStr src),
          (''channel'', AStr (pc_Channel (p_cfg s))), (''count'', AInt n), (''open_until'', ATime (openUntil b))] u))"
      using False True bo by (simp add: pool_Hint_def clock_now_def Let_def t_def u_def now_def)
    moreover have "started s 0 (pmetric e (plog l m as u))" if "case e of MDrop _ _ _ \<Rightarrow> True | _ \<Rightarrow> False" for e l m as
      using that by (intro started_0) (auto simp: u_def t_def core_def event_defs split: mevent.splits)
    ultimately show ?thesis by simp
  next
    case closed: False
    let ?w = "nat (min n (pc_Concurrency (p_cfg s) - p_running s))"
    have "pool_Hint E src n s = (case spawn_loop E src ?w u of (k, s) \<Rightarrow> (int k, s))"
      using False closed bo by (simp add: pool_Hint_def clock_now_def Let_def t_def u_def now_def)
    moreover have "good E u 0 ?w = good E s 0 ?w"
      using good_shift [of u s 0 E 0 ?w] pu by simp
    moreover have "hint_grants E s n = good E s 0 ?w"
      using False closed by (simp add: hint_grants_def now_def)
    ultimately show ?thesis
      using spawn_loop_started [of u E src ?w] started_trans [OF st] by (auto split: prod.split)
  qed
qed

lemma core_eqD: "core s = (c, r, sg, sp, rp, bg, ws) \<Longrightarrow>
  p_cfg s = c \<and> p_running s = r \<and> p_stopping s = sg \<and> p_stop s = sp \<and> p_reapers s = rp \<and> p_bg s = bg \<and> s_workers s = ws"
  by (simp add: core_def)

text \<open>C1: \<open>Hint\<close> starts exactly \<open>min n (concurrency - running)\<close> workers when every spawn
  succeeds, stops at the first spawn that fails, and starts none while the breaker is open
  or the pool is shutting down; it returns their number and takes one slot for each.\<close>

theorem Hint_starts:
  "(let (k, s') = pool_Hint E src n s;
        want = nat (min n (pc_Concurrency (p_cfg s) - p_running s));
        answers = map (\<lambda>i. env_spawn E (s_spawns s + i) (pool_spec (p_cfg s))) [0..<want]
    in k = (if p_stopping s \<or> env_now E (s_reads s) < openUntil (p_breaker s) then 0
            else int (length (takeWhile (\<lambda>a. case a of Inl _ \<Rightarrow> False | Inr _ \<Rightarrow> True) answers))) \<and>
       p_running s' = p_running s + k \<and> length (s_workers s') = length (s_workers s) + nat k)"
proof -
  have good: "good E s k m = length (takeWhile (\<lambda>a. case a of Inl _ \<Rightarrow> False | Inr _ \<Rightarrow> True)
      (map (\<lambda>i. env_spawn E (s_spawns s + i) (pool_spec (p_cfg s))) [k..<k + m]))" for k m
  proof (induction m arbitrary: k)
    case (Suc m)
    have "[k..<k + Suc m] = k # [Suc k..<Suc k + m]" by (subst upt_conv_Cons) simp_all
    with Suc [of "Suc k"] show ?case by (simp add: answer_def split: sum.split)
  qed simp
  obtain k s' where H: "pool_Hint E src n s = (k, s')" by fastforce
  have "started s (hint_grants E s n) s'" and k: "k = int (hint_grants E s n)"
    using pool_Hint_started [of s E n src] H by simp_all
  then have "p_running s' = p_running s + k" "length (s_workers s') = length (s_workers s) + nat k"
    by (auto simp: started_def dest: core_eqD)
  moreover have "k = (if p_stopping s \<or> env_now E (s_reads s) < openUntil (p_breaker s) then 0
      else int (good E s 0 (nat (min n (pc_Concurrency (p_cfg s) - p_running s)))))"
    using k by (simp add: hint_grants_def)
  ultimately show ?thesis by (simp add: H good)
qed

section \<open>Steps\<close>

datatype action =
    AHint string gint | AStats | AStart | APoke wake bool | AShutdown
  | ADone nat Exit | ATtl nat | AStop nat | ATerminated nat Exit
  | AStamp nat | ARecord nat | AReport nat | AChain nat

text \<open>The \<open>i\<close>-th goroutine exists and is at \<open>ph\<close>.\<close>

definition is_at :: "pool_sys \<Rightarrow> nat \<Rightarrow> phase \<Rightarrow> bool" where
  "is_at s i ph \<longleftrightarrow> i < length (s_workers s) \<and> w_phase (s_workers s ! i) = ph"

inductive pool_step :: "env \<Rightarrow> pool_sys \<Rightarrow> action \<Rightarrow> pool_sys \<Rightarrow> bool" for E where
  hint: "pool_step E s (AHint src n) (snd (pool_Hint E src n s))"
| stats: "pool_step E s AStats (snd (pool_Stats E s))"
| start: "pool_step E s AStart (pool_Start s)"
| poke: "0 < p_bg s \<Longrightarrow> w = WakeCtx \<longrightarrow> c \<Longrightarrow> w = WakeStop \<longrightarrow> p_stop s \<Longrightarrow>
    pool_step E s (APoke w c) (poke_round E w c s)"
| shutdown: "pool_step E s AShutdown (Shutdown_begin s)"
| worker_done: "is_at s i Waiting \<Longrightarrow> pool_step E s (ADone i e) (wait_done i e s)"
| worker_ttl: "is_at s i Waiting \<Longrightarrow> w_ttl (s_workers s ! i) \<noteq> None \<Longrightarrow> pool_step E s (ATtl i) (wait_ttl i s)"
| worker_stop: "is_at s i Waiting \<Longrightarrow> p_stop s \<Longrightarrow> pool_step E s (AStop i) (wait_stop i s)"
| terminated: "is_at s i (Killing r) \<Longrightarrow> pool_step E s (ATerminated i e) (leave_wait i e r s)"
| stamp: "is_at s i (Ended e r) \<Longrightarrow> pool_step E s (AStamp i) (reap_stamp E i e r s)"
| record_exit: "is_at s i (Stamped e r t) \<Longrightarrow> pool_step E s (ARecord i) (reap_record E i e r t s)"
| report: "is_at s i (RecordedExit r) \<Longrightarrow> pool_step E s (AReport i) (reap_report i r s)"
| chain: "is_at s i (ReportedExit r) \<Longrightarrow> pool_step E s (AChain i) (reap_chain E i r s)"

inductive_cases pool_stepE: "pool_step E s a s'"

inductive_simps pool_step_simps:
  "pool_step E s (AHint src n) s'" "pool_step E s AShutdown s'" "pool_step E s (ADone i e) s'"
  "pool_step E s (AStop i) s'" "pool_step E s (ATerminated i e) s'" "pool_step E s (AStamp i) s'"
  "pool_step E s (ARecord i) s'" "pool_step E s (AReport i) s'" "pool_step E s (AChain i) s'"

inductive pool_steps :: "env \<Rightarrow> pool_sys \<Rightarrow> action list \<Rightarrow> pool_sys \<Rightarrow> bool" for E where
  none: "pool_steps E s [] s"
| more: "pool_step E s a s' \<Longrightarrow> pool_steps E s' as s'' \<Longrightarrow> pool_steps E s (a # as) s''"

lemma pool_steps_append:
  "pool_steps E s as s' \<Longrightarrow> pool_steps E s' bs s'' \<Longrightarrow> pool_steps E s (as @ bs) s''"
  by (induction rule: pool_steps.induct) (auto intro: pool_steps.intros)

lemma pool_steps_one: "pool_step E s a s' \<Longrightarrow> pool_steps E s [a] s'"
  by (blast intro: pool_steps.intros)

definition reachable :: "env \<Rightarrow> PoolConfig \<Rightarrow> pool_sys \<Rightarrow> bool" where
  "reachable E cfg s \<longleftrightarrow> (\<exists>as. pool_steps E (pool_New cfg) as s)"

section \<open>The invariant\<close>

text \<open>A worker holds its slot until its exit is recorded, its reaper until it is done.\<close>

definition live :: "worker \<Rightarrow> bool" where
  "live w \<longleftrightarrow> (case w_phase w of RecordedExit _ \<Rightarrow> False | ReportedExit _ \<Rightarrow> False | Reaped \<Rightarrow> False | _ \<Rightarrow> True)"

definition reported :: "worker \<Rightarrow> bool" where
  "reported w \<longleftrightarrow> (case w_phase w of ReportedExit _ \<Rightarrow> True | Reaped \<Rightarrow> True | _ \<Rightarrow> False)"

definition unreaped :: "worker \<Rightarrow> bool" where
  "unreaped w \<longleftrightarrow> w_phase w \<noteq> Reaped"

abbreviation count :: "(worker \<Rightarrow> bool) \<Rightarrow> pool_sys \<Rightarrow> int" where
  "count P s \<equiv> int (length (filter P (s_workers s)))"

definition pool_inv :: "pool_sys \<Rightarrow> bool" where
  "pool_inv s \<longleftrightarrow> p_running s = count live s \<and> p_reapers s = count unreaped s \<and>
     p_running s \<le> max 0 (pc_Concurrency (p_cfg s)) \<and> p_stop s = p_stopping s \<and> 0 \<le> p_bg s \<and>
     spawned_events s = length (s_workers s) \<and> int (exit_events s) = count reported s"

lemma phase_of_worker: "live w \<longleftrightarrow> \<not> reported w \<and> (\<forall>r. w_phase w \<noteq> RecordedExit r)"
  by (auto simp: live_def reported_def split: phase.splits)

lemma waiting_flags: "w_phase w = Waiting \<Longrightarrow> live w \<and> unreaped w \<and> \<not> reported w"
  by (simp add: live_def reported_def unreaped_def)

lemma filter_waiting:
  "list_all (\<lambda>w. w_phase w = Waiting) ws \<Longrightarrow>
   filter live ws = ws \<and> filter unreaped ws = ws \<and> filter reported ws = []"
  by (induction ws) (auto simp: waiting_flags)

lemma pool_inv_New: "pool_inv (pool_New cfg)"
  by (simp add: pool_inv_def pool_New_def event_defs)

lemma pool_inv_started:
  assumes "pool_inv s" "started s k s'" "0 < k \<Longrightarrow> p_running s + int k \<le> pc_Concurrency (p_cfg s)"
  shows "pool_inv s'"
proof -
  obtain ws where ws: "length ws = k" "list_all (\<lambda>w. w_phase w = Waiting) ws"
    "core s' = (p_cfg s, p_running s + int k, p_stopping s, p_stop s, p_reapers s + int k, p_bg s, s_workers s @ ws)"
    "spawned_events s' = spawned_events s + k" "exit_events s' = exit_events s"
    using assms(2) by (auto simp: started_def)
  have "p_running s + int k \<le> max 0 (pc_Concurrency (p_cfg s))"
    using assms(1,3) by (cases "k = 0") (auto simp: pool_inv_def)
  with assms(1) ws(1,4,5) filter_waiting [OF ws(2)] core_eqD [OF ws(3)] show ?thesis
    by (simp add: pool_inv_def)
qed

lemma pool_inv_Hint: "pool_inv s \<Longrightarrow> pool_inv (snd (pool_Hint E src n s))"
  using pool_inv_started pool_Hint_started hint_grants_room by blast

text \<open>Moving one goroutine on: a slot, a reaper and a reported exit follow the phase.\<close>

lemma pool_inv_move:
  assumes "pool_inv s" "i < length (s_workers s)" "core s' = (p_cfg s, r, p_stopping s, p_stop s, p, p_bg s, (s_workers s)[i := w])"
    and "r = p_running s - of_bool (live (s_workers s ! i)) + of_bool (live w)" "live w \<Longrightarrow> live (s_workers s ! i)"
    and "p = p_reapers s - of_bool (unreaped (s_workers s ! i)) + of_bool (unreaped w)"
    and "spawned_events s' = spawned_events s"
    and "int (exit_events s') = int (exit_events s) - of_bool (reported (s_workers s ! i)) + of_bool (reported w)"
  shows "pool_inv s'"
  using assms(1,4-) core_eqD [OF assms(3)] length_filter_update [OF assms(2), of live w]
    length_filter_update [OF assms(2), of unreaped w] length_filter_update [OF assms(2), of reported w]
  by (auto simp: pool_inv_def of_bool_def split: if_splits)

lemma core_set_phase: "core (set_phase i ph s) =
  (p_cfg s, p_running s, p_stopping s, p_stop s, p_reapers s, p_bg s,
   (s_workers s)[i := (s_workers s ! i)\<lparr>w_phase := ph\<rparr>])"
  by (simp add: core_def set_phase_def)

lemma core_leave_wait: "core (leave_wait i e r s) =
  (p_cfg s, p_running s, p_stopping s, p_stop s, p_reapers s, p_bg s,
   (s_workers s)[i := (s_workers s ! i)\<lparr>w_ttl := None, w_phase := Ended e r\<rparr>])"
  by (simp add: core_def leave_wait_def)

lemma events_set_phase [simp]:
  "spawned_events (set_phase i ph s) = spawned_events s" "exit_events (set_phase i ph s) = exit_events s"
  "spawned_events (leave_wait i e r s) = spawned_events s" "exit_events (leave_wait i e r s) = exit_events s"
  by (simp_all add: event_defs set_phase_def leave_wait_def)

lemmas worker_flags = live_def unreaped_def reported_def is_at_def

lemma pool_inv_leave_wait:
  "pool_inv s \<Longrightarrow> is_at s i ph \<Longrightarrow> ph = Waiting \<or> ph = Killing q \<Longrightarrow> pool_inv (leave_wait i e r s)"
  by (rule pool_inv_move [OF _ _ core_leave_wait]) (auto simp: worker_flags)

text \<open>The steps of a goroutine, on the core and on the counted metrics.\<close>

lemma core_moves:
  "core (wait_ttl i s) = (p_cfg s, p_running s, p_stopping s, p_stop s, p_reapers s, p_bg s,
     (s_workers s)[i := (s_workers s ! i)\<lparr>w_phase := Killing KillTTL\<rparr>])"
  "core (wait_stop i s) = (p_cfg s, p_running s, p_stopping s, p_stop s, p_reapers s, p_bg s,
     (s_workers s)[i := (s_workers s ! i)\<lparr>w_phase := Killing KillShutdown\<rparr>])"
  "core (reap_stamp E i e r s) = (p_cfg s, p_running s, p_stopping s, p_stop s, p_reapers s, p_bg s,
     (s_workers s)[i := (s_workers s ! i)\<lparr>w_phase := Stamped e r (env_now E (s_reads s))\<rparr>])"
  "core (reap_report i x s) = (p_cfg s, p_running s, p_stopping s, p_stop s, p_reapers s, p_bg s,
     (s_workers s)[i := (s_workers s ! i)\<lparr>w_phase := ReportedExit x\<rparr>])"
  by (simp_all add: wait_ttl_def wait_stop_def reap_stamp_def clock_now_def reap_report_def logExit_def
      Let_def core_set_phase)

lemma events_moves:
  "spawned_events (wait_ttl i s) = spawned_events s" "exit_events (wait_ttl i s) = exit_events s"
  "spawned_events (wait_stop i s) = spawned_events s" "exit_events (wait_stop i s) = exit_events s"
  "spawned_events (reap_stamp E i e r s) = spawned_events s" "exit_events (reap_stamp E i e r s) = exit_events s"
  "spawned_events (reap_report i x s) = spawned_events s" "exit_events (reap_report i x s) = Suc (exit_events s)"
  by (simp_all add: event_defs wait_ttl_def wait_stop_def reap_stamp_def clock_now_def reap_report_def
      logExit_def set_phase_def Let_def)

lemma recordExit_core:
  "core (snd (recordExit E r t s)) =
     (p_cfg s, p_running s - 1, p_stopping s, p_stop s, p_reapers s, p_bg s, s_workers s)"
  "spawned_events (snd (recordExit E r t s)) = spawned_events s"
  "exit_events (snd (recordExit E r t s)) = exit_events s"
  by (simp_all add: recordExit_def Let_def failureLocked_frame) (simp_all add: core_def event_defs)

lemma reap_record_core:
  "\<exists>x. core (reap_record E i e r t s) = (p_cfg s, p_running s - 1, p_stopping s, p_stop s, p_reapers s, p_bg s,
     (s_workers s)[i := (s_workers s ! i)\<lparr>w_phase := RecordedExit x\<rparr>])"
  "spawned_events (reap_record E i e r t s) = spawned_events s"
  "exit_events (reap_record E i e r t s) = exit_events s"
proof -
  define x where "x = exit_record (s_workers s ! i) e r"
  obtain q n u where u: "recordExit E x t s = ((q, n), u)" by (metis surj_pair)
  with recordExit_core [of E x t s] core_eqD [of u]
  have c: "p_cfg u = p_cfg s" "p_running u = p_running s - 1" "p_stopping u = p_stopping s" "p_stop u = p_stop s"
    "p_reapers u = p_reapers s" "p_bg u = p_bg s" "s_workers u = s_workers s"
    and ev: "spawned_events u = spawned_events s" "exit_events u = exit_events s" by auto
  show "\<exists>x. core (reap_record E i e r t s) = (p_cfg s, p_running s - 1, p_stopping s, p_stop s, p_reapers s, p_bg s,
     (s_workers s)[i := (s_workers s ! i)\<lparr>w_phase := RecordedExit x\<rparr>])"
    using u by (simp add: reap_record_def Let_def core_set_phase c flip: x_def) blast
  show "spawned_events (reap_record E i e r t s) = spawned_events s"
    "exit_events (reap_record E i e r t s) = exit_events s"
    using u ev by (simp_all add: reap_record_def Let_def flip: x_def)
qed

lemma started_nth: "started s k s' \<Longrightarrow> i < length (s_workers s) \<Longrightarrow>
  i < length (s_workers s') \<and> s_workers s' ! i = s_workers s ! i"
  by (auto simp: started_def nth_append dest!: core_eqD)

definition chained :: "env \<Rightarrow> exitRecord \<Rightarrow> pool_sys \<Rightarrow> pool_sys" where
  "chained E r s =
     (if er_result r = ''ok'' \<and> er_tasks r > 0 then snd (pool_Hint E SourceWorker (er_tasks r) s) else s)"

lemma reap_chain_chained: "reap_chain E i r s = set_phase i Reaped ((chained E r s)\<lparr>p_reapers := p_reapers (chained E r s) - 1\<rparr>)"
  by (simp add: reap_chain_def chained_def Let_def)

lemma chained_started:
  "\<exists>k. started s k (chained E r s) \<and> (k = 0 \<or> p_running s + int k \<le> pc_Concurrency (p_cfg s))"
proof (cases "er_result r = ''ok'' \<and> er_tasks r > 0")
  case True
  with pool_Hint_started [of s E "er_tasks r" SourceWorker] hint_grants_room [of E s "er_tasks r"]
  show ?thesis by (intro exI [of _ "hint_grants E s (er_tasks r)"]) (auto simp: chained_def)
next
  case False
  then have "chained E r s = s" by (auto simp: chained_def)
  then show ?thesis by (auto intro!: exI [of _ 0] started_0)
qed

lemma pool_inv_chain:
  assumes "pool_inv s" "is_at s i (ReportedExit r)"
  shows "pool_inv (reap_chain E i r s)"
proof -
  let ?t = "chained E r s"
  obtain k where k: "started s k ?t" "k = 0 \<or> p_running s + int k \<le> pc_Concurrency (p_cfg s)"
    using chained_started [of s E r] by blast
  then have inv: "pool_inv ?t" using pool_inv_started [OF assms(1)] by auto
  have i: "i < length (s_workers ?t)" "w_phase (s_workers ?t ! i) = ReportedExit r"
    using started_nth [OF k(1), of i] assms(2) by (auto simp: is_at_def)
  have core: "core (reap_chain E i r s) = (p_cfg ?t, p_running ?t, p_stopping ?t, p_stop ?t, p_reapers ?t - 1, p_bg ?t,
      (s_workers ?t)[i := (s_workers ?t ! i)\<lparr>w_phase := Reaped\<rparr>])"
    by (simp add: reap_chain_chained core_set_phase)
  have ev: "spawned_events (reap_chain E i r s) = spawned_events ?t" "exit_events (reap_chain E i r s) = exit_events ?t"
    by (simp_all add: reap_chain_chained event_defs set_phase_def)
  show ?thesis by (rule pool_inv_move [OF inv i(1) core]) (use i(2) ev in \<open>simp_all add: worker_flags\<close>)
qed

lemma pool_inv_step: "pool_step E s a s' \<Longrightarrow> pool_inv s \<Longrightarrow> pool_inv s'"
proof (induction rule: pool_step.induct)
  case (stats s)
  then show ?case
    by (simp add: pool_Stats_def clock_now_def Let_def pool_inv_def event_defs split: prod.split)
next
  case (start s)
  then show ?case by (simp add: pool_Start_def pool_inv_def event_defs)
next
  case (poke s w c)
  obtain n t where H: "pool_Hint E SourcePoke (pc_PokeCount (p_cfg s)) s = (n, t)" by fastforce
  then have "pool_inv t" using pool_inv_Hint [of s E SourcePoke] poke by (metis snd_conv)
  with poke H show ?case by (simp add: poke_round_def pool_inv_def event_defs)
next
  case (shutdown s)
  then show ?case by (auto simp: Shutdown_begin_def pool_inv_def event_defs)
next
  case (worker_ttl s i)
  then show ?case
    by (intro pool_inv_move [OF _ _ core_moves(1)]) (simp_all add: worker_flags events_moves)
next
  case (worker_stop s i)
  then show ?case
    by (intro pool_inv_move [OF _ _ core_moves(2)]) (simp_all add: worker_flags events_moves)
next
  case (stamp s i e r)
  then show ?case
    by (intro pool_inv_move [OF _ _ core_moves(3)]) (simp_all add: worker_flags events_moves)
next
  case (record_exit s i e r t)
  obtain x where "core (reap_record E i e r t s) = (p_cfg s, p_running s - 1, p_stopping s, p_stop s, p_reapers s, p_bg s,
     (s_workers s)[i := (s_workers s ! i)\<lparr>w_phase := RecordedExit x\<rparr>])"
    using reap_record_core(1) by blast
  from record_exit pool_inv_move [OF _ _ this] show ?case by (simp add: worker_flags reap_record_core)
next
  case (report s i r)
  then show ?case
    by (intro pool_inv_move [OF _ _ core_moves(4)]) (simp_all add: worker_flags events_moves)
qed (auto simp: wait_done_def intro: pool_inv_Hint pool_inv_chain pool_inv_leave_wait)

lemma pool_inv_steps: "pool_steps E s as s' \<Longrightarrow> pool_inv s \<Longrightarrow> pool_inv s'"
  by (induction rule: pool_steps.induct) (auto dest: pool_inv_step)

lemma pool_inv_reachable: "reachable E cfg s \<Longrightarrow> pool_inv s"
  using pool_inv_steps pool_inv_New by (auto simp: reachable_def)

text \<open>C2: in every reachable state, under any interleaving of hints, exits, kills, pokes
  and shutdown, the pool counts exactly the workers that still hold a slot, and never more
  than \<open>concurrency\<close> of them.\<close>

theorem concurrency_never_exceeded:
  assumes "reachable E cfg s"
  shows "p_running s = count live s \<and> 0 \<le> p_running s \<and> p_running s \<le> max 0 (pc_Concurrency (p_cfg s))"
  using pool_inv_reachable [OF assms] by (simp add: pool_inv_def)

definition demo_env :: env where
  "demo_env = \<lparr>env_now = \<lambda>i. int i + 1, env_spawn = \<lambda>i _. Inr (int i + 100)\<rparr>"

definition demo_pool :: pool_sys where
  "demo_pool = snd (pool_Hint demo_env SourceHTTP 5 (pool_New demo_cfg))"

lemma demo_steps: "pool_steps demo_env (pool_New demo_cfg) [AHint SourceHTTP 5] demo_pool"
  unfolding demo_pool_def by (intro pool_steps_one pool_step.hint)

lemma demo_reachable: "reachable demo_env demo_cfg demo_pool"
  using demo_steps by (auto simp: reachable_def)

lemma concurrency_never_exceeded_witness: "0 \<le> p_running demo_pool \<and> p_running demo_pool = count live demo_pool"
  using concurrency_never_exceeded [OF demo_reachable] by simp

text \<open>The counters agree with the pool: in every reachable state the workers reported
  started are those reported reaped, those holding a slot, and those whose recorded exit
  is about to be reported.\<close>

theorem spawns_account_for_exits:
  assumes "reachable E cfg s"
  shows "int (spawned_events s) = int (exit_events s) + p_running s +
    int (length (filter (\<lambda>w. \<exists>r. w_phase w = RecordedExit r) (s_workers s)))"
proof -
  have "length ws = length (filter reported ws) + length (filter live ws) +
      length (filter (\<lambda>w. \<exists>r. w_phase w = RecordedExit r) ws)" for ws
    by (induction ws) (auto simp: live_def reported_def split: phase.splits)
  from this [of "s_workers s"] pool_inv_reachable [OF assms] show ?thesis by (simp add: pool_inv_def)
qed

lemma spawns_account_for_exits_witness: "int (spawned_events demo_pool) \<ge> p_running demo_pool"
  using spawns_account_for_exits [OF demo_reachable] by simp

section \<open>Shutdown\<close>

lemma step_cfg: "pool_step E s a s' \<Longrightarrow> p_cfg s' = p_cfg s"
proof (induction rule: pool_step.induct)
  case (hint s src n)
  then show ?case using pool_Hint_started [of s E n src] by (auto simp: started_def dest: core_eqD)
next
  case (poke s w c)
  have "p_cfg (snd (pool_Hint E SourcePoke n s)) = p_cfg s" for n
    using pool_Hint_started [of s E n SourcePoke] by (auto simp: started_def dest: core_eqD)
  then show ?case by (auto simp: poke_round_def split: prod.splits) (metis snd_conv)
next
  case (record_exit s i e r t)
  then show ?case using reap_record_core(1) [of E i e r t s] by (auto dest: core_eqD)
next
  case (chain s i r)
  obtain k where "started s k (chained E r s)" using chained_started by blast
  then show ?case by (auto simp: reap_chain_chained set_phase_def started_def dest: core_eqD)
qed (auto simp: pool_Stats_def clock_now_def Let_def pool_Start_def Shutdown_begin_def wait_done_def
  leave_wait_def wait_ttl_def wait_stop_def reap_stamp_def set_phase_def reap_report_def logExit_def split: prod.splits)

lemma cfg_reachable: "reachable E cfg s \<Longrightarrow> p_cfg s = cfg"
proof -
  have "pool_steps E t as s \<Longrightarrow> p_cfg s = p_cfg t" for t as
    by (induction rule: pool_steps.induct) (auto simp: step_cfg)
  then show "reachable E cfg s \<Longrightarrow> p_cfg s = cfg" by (auto simp: reachable_def pool_New_def)
qed

text \<open>A pool that is stopping calls the spawner no more.\<close>

definition halted :: "pool_sys \<Rightarrow> pool_sys \<Rightarrow> bool" where
  "halted s s' \<longleftrightarrow> p_stopping s' \<and> length (s_workers s') = length (s_workers s) \<and> s_spawns s' = s_spawns s"

lemma Hint_stopping:
  "p_stopping s \<Longrightarrow> core (snd (pool_Hint E src n s)) = core s \<and> s_spawns (snd (pool_Hint E src n s)) = s_spawns s \<and>
    s_reads (snd (pool_Hint E src n s)) = s_reads s \<and> p_breaker (snd (pool_Hint E src n s)) = p_breaker s"
  by (simp add: pool_Hint_def Let_def)

lemma recordExit_spawns: "s_spawns (snd (recordExit E r t s)) = s_spawns s"
  by (simp add: recordExit_def Let_def failureLocked_frame)

lemma reap_record_spawns: "s_spawns (reap_record E i e r t s) = s_spawns s"
  using recordExit_spawns [of E "exit_record (s_workers s ! i) e r" t s]
  by (auto simp: reap_record_def set_phase_def Let_def split: prod.splits)

lemma chained_stopping: "p_stopping s \<Longrightarrow> core (chained E r s) = core s \<and> s_spawns (chained E r s) = s_spawns s"
  using Hint_stopping [of s E SourceWorker "er_tasks r"] by (simp add: chained_def)

lemma core_eq: "core s' = core s \<Longrightarrow> p_stopping s' = p_stopping s \<and> s_workers s' = s_workers s \<and>
  p_bg s' = p_bg s \<and> p_reapers s' = p_reapers s \<and> p_running s' = p_running s \<and> p_cfg s' = p_cfg s"
  by (simp add: core_def)

lemma halted_step: "pool_step E s a s' \<Longrightarrow> p_stopping s \<Longrightarrow> halted s s'"
proof (induction rule: pool_step.induct)
  case (hint s src n)
  then show ?case using Hint_stopping [of s E src n] by (auto simp: halted_def dest: core_eq)
next
  case (poke s w c)
  obtain n t where H: "pool_Hint E SourcePoke (pc_PokeCount (p_cfg s)) s = (n, t)" by fastforce
  have "halted s t"
    using Hint_stopping [OF poke(4), of E SourcePoke "pc_PokeCount (p_cfg s)"] poke(4) H core_eq [of t s]
    by (simp add: halted_def)
  with H poke(4) show ?case by (simp add: poke_round_def halted_def)
next
  case (record_exit s i e r t)
  then show ?case using reap_record_core(1) [of E i e r t s] reap_record_spawns [of E i e r t s]
    by (auto simp: halted_def dest: core_eqD)
next
  case (chain s i r)
  then show ?case
    using chained_stopping [of s E r] core_eq [of "chained E r s" s]
    by (simp add: halted_def reap_chain_chained set_phase_def)
qed (auto simp: pool_Stats_def clock_now_def Let_def pool_Start_def Shutdown_begin_def wait_done_def halted_def
  leave_wait_def wait_ttl_def wait_stop_def reap_stamp_def set_phase_def reap_report_def logExit_def split: prod.splits)

lemma halted_steps: "pool_steps E s as s' \<Longrightarrow> p_stopping s \<Longrightarrow> halted s s'"
  by (induction rule: pool_steps.induct) (auto dest!: halted_step simp: halted_def)

text \<open>Once \<open>Shutdown\<close> has been called no hint, poke or chained hint ever calls the
  spawner again, and the pool stays stopped.\<close>

theorem no_spawn_after_shutdown:
  assumes "pool_steps E (Shutdown_begin s) as s'"
  shows "p_stopping s' \<and> s_spawns s' = s_spawns s \<and> length (s_workers s') = length (s_workers s)"
proof -
  have "p_stopping (Shutdown_begin s)" "s_spawns (Shutdown_begin s) = s_spawns s"
    "s_workers (Shutdown_begin s) = s_workers s" by (simp_all add: Shutdown_begin_def)
  with halted_steps [OF assms] show ?thesis by (simp add: halted_def)
qed

lemma no_spawn_after_shutdown_witness:
  "s_spawns (snd (pool_Hint demo_env SourceRedis 3 (Shutdown_begin demo_pool))) = s_spawns demo_pool"
  using no_spawn_after_shutdown [OF pool_steps_one [OF pool_step.hint [where src = SourceRedis and n = 3]]]
  by blast

text \<open>The steps that bring a stopping pool to its end, and how many of them are left.\<close>

fun drains :: "action \<Rightarrow> bool" where
  "drains (ADone i e) \<longleftrightarrow> True"
| "drains (ATtl i) \<longleftrightarrow> True"
| "drains (AStop i) \<longleftrightarrow> True"
| "drains (ATerminated i e) \<longleftrightarrow> True"
| "drains (AStamp i) \<longleftrightarrow> True"
| "drains (ARecord i) \<longleftrightarrow> True"
| "drains (AReport i) \<longleftrightarrow> True"
| "drains (AChain i) \<longleftrightarrow> True"
| "drains (APoke w c) \<longleftrightarrow> \<not> awaitTick w c"
| "drains _ \<longleftrightarrow> False"

fun rank :: "phase \<Rightarrow> nat" where
  "rank Waiting = 6"
| "rank (Killing r) = 5"
| "rank (Ended e r) = 4"
| "rank (Stamped e r t) = 3"
| "rank (RecordedExit x) = 2"
| "rank (ReportedExit x) = 1"
| "rank Reaped = 0"

definition drain :: "pool_sys \<Rightarrow> nat" where
  "drain s = sum_list (map (rank \<circ> w_phase) (s_workers s)) + nat (p_bg s)"

lemma sum_list_update_less:
  "i < length xs \<Longrightarrow> (f y :: nat) < f (xs ! i) \<Longrightarrow> sum_list (map f (xs[i := y])) < sum_list (map f xs)"
proof (induction xs arbitrary: i)
  case (Cons x xs)
  then show ?case by (cases i) auto
qed simp

lemma drain_move:
  assumes "is_at s i ph" "core s' = (c, r, sg, sp, p, p_bg s, (s_workers s)[i := w])" "rank (w_phase w) < rank ph"
  shows "drain s' < drain s"
  using assms sum_list_update_less [of i "s_workers s" "rank \<circ> w_phase" w]
  by (auto simp: drain_def is_at_def dest!: core_eqD)

lemma drain_step: "pool_step E s a s' \<Longrightarrow> drains a \<Longrightarrow> p_stopping s \<Longrightarrow> drain s' < drain s"
proof (induction rule: pool_step.induct)
  case (poke s w c)
  then show ?case by (simp add: poke_round_def drain_def)
next
  case (worker_done s i e)
  then show ?case by (auto simp: wait_done_def intro!: drain_move [OF _ core_leave_wait])
next
  case (worker_ttl s i)
  then show ?case by (auto intro!: drain_move [OF _ core_moves(1)])
next
  case (worker_stop s i)
  then show ?case by (auto intro!: drain_move [OF _ core_moves(2)])
next
  case (terminated s i r e)
  then show ?case by (auto intro!: drain_move [OF _ core_leave_wait])
next
  case (stamp s i e r)
  then show ?case by (auto intro!: drain_move [OF _ core_moves(3)])
next
  case (record_exit s i e r t)
  obtain x where "core (reap_record E i e r t s) = (p_cfg s, p_running s - 1, p_stopping s, p_stop s, p_reapers s, p_bg s,
     (s_workers s)[i := (s_workers s ! i)\<lparr>w_phase := RecordedExit x\<rparr>])"
    using reap_record_core(1) by blast
  from drain_move [OF record_exit(1) this] show ?case by simp
next
  case (report s i r)
  then show ?case by (auto intro!: drain_move [OF _ core_moves(4)])
next
  case (chain s i r)
  let ?t = "chained E r s"
  have t: "s_workers ?t = s_workers s" "p_bg ?t = p_bg s"
    using chained_stopping [OF chain(3), of E r] core_eq by blast+
  have "core (reap_chain E i r s) = (p_cfg ?t, p_running ?t, p_stopping ?t, p_stop ?t, p_reapers ?t - 1, p_bg s,
      (s_workers s)[i := (s_workers s ! i)\<lparr>w_phase := Reaped\<rparr>])"
    by (simp add: reap_chain_chained core_set_phase t)
  from drain_move [OF chain(1) this] show ?case by simp
qed simp_all

lemma drain_enabled:
  assumes "pool_inv s" "p_stopping s" "\<not> (p_reapers s = 0 \<and> p_bg s = 0)"
  shows "\<exists>a s'. drains a \<and> pool_step E s a s'"
proof (cases "p_bg s = 0")
  case False
  with assms(1) have "0 < p_bg s" by (simp add: pool_inv_def)
  then have "pool_step E s (APoke WakeStop False) (poke_round E WakeStop False s)"
    using assms by (intro pool_step.poke) (auto simp: pool_inv_def)
  then show ?thesis by (intro exI [of _ "APoke WakeStop False"]) (auto simp: awaitTick_def)
next
  case True
  with assms have "filter unreaped (s_workers s) \<noteq> []" by (auto simp: pool_inv_def)
  then obtain w where "w \<in> set (s_workers s)" "w_phase w \<noteq> Reaped"
    by (auto simp: filter_empty_conv unreaped_def)
  then obtain i where i: "i < length (s_workers s)" "w_phase (s_workers s ! i) \<noteq> Reaped"
    by (metis in_set_conv_nth)
  have stop: "p_stop s" using assms by (simp add: pool_inv_def)
  have at: "is_at s i (w_phase (s_workers s ! i))" using i by (simp add: is_at_def)
  show ?thesis
  proof (cases "w_phase (s_workers s ! i)")
    case Waiting
    then show ?thesis using at stop by (intro exI [of _ "AStop i"]) (auto intro: pool_step.worker_stop)
  next
    case (Killing r)
    then show ?thesis using at by (intro exI [of _ "ATerminated i zeroExit"]) (auto intro: pool_step.terminated)
  next
    case (Ended e r)
    then show ?thesis using at by (intro exI [of _ "AStamp i"]) (auto intro: pool_step.stamp)
  next
    case (Stamped e r t)
    then show ?thesis using at by (intro exI [of _ "ARecord i"]) (auto intro: pool_step.record_exit)
  next
    case (RecordedExit r)
    then show ?thesis using at by (intro exI [of _ "AReport i"]) (auto intro: pool_step.report)
  next
    case (ReportedExit r)
    then show ?thesis using at by (intro exI [of _ "AChain i"]) (auto intro: pool_step.chain)
  qed (use i in simp)
qed

lemma drain_run_length:
  "pool_steps E s as s' \<Longrightarrow> list_all drains as \<Longrightarrow> p_stopping s \<Longrightarrow> length as + drain s' \<le> drain s"
proof (induction rule: pool_steps.induct)
  case (more s a s' as s'')
  with drain_step [of E s a s'] halted_step [of E s a s'] show ?case by (simp add: halted_def)
qed simp

lemma all_reaped:
  assumes "pool_inv s" "p_reapers s = 0"
  shows "list_all (\<lambda>w. w_phase w = Reaped) (s_workers s)" "p_running s = 0" "exit_events s = spawned_events s"
proof -
  show r: "list_all (\<lambda>w. w_phase w = Reaped) (s_workers s)"
    using assms by (auto simp: pool_inv_def filter_empty_conv unreaped_def list_all_iff)
  then have "filter live (s_workers s) = []" "filter reported (s_workers s) = s_workers s"
    by (auto simp: filter_empty_conv filter_id_conv live_def reported_def list_all_iff)
  with assms(1) show "p_running s = 0" "exit_events s = spawned_events s" by (simp_all add: pool_inv_def)
qed

text \<open>C4: \<open>Shutdown\<close> terminates.  From any reachable state in which it was called, the
  reapers and the poke tickers can only take a bounded number of steps, and when no such
  step is left it returns nil with every worker reaped, no slot taken and every start
  reported as an exit.\<close>

theorem shutdown_drains:
  assumes "reachable E cfg s" "p_stopping s" "pool_steps E s as s'" "list_all drains as"
  shows "length as \<le> drain s \<and>
    ((\<forall>a s''. drains a \<longrightarrow> \<not> pool_step E s' a s'') \<longrightarrow>
       Shutdown_returns s' None None \<and> p_running s' = 0 \<and>
       list_all (\<lambda>w. w_phase w = Reaped) (s_workers s') \<and> exit_events s' = spawned_events s')"
proof (intro conjI impI)
  show "length as \<le> drain s" using drain_run_length [OF assms(3,4,2)] by simp
  assume stuck: "\<forall>a s''. drains a \<longrightarrow> \<not> pool_step E s' a s''"
  have inv: "pool_inv s'" using pool_inv_steps [OF assms(3)] pool_inv_reachable [OF assms(1)] by simp
  have "p_stopping s'" using halted_steps [OF assms(3,2)] by (simp add: halted_def)
  then have d: "p_reapers s' = 0 \<and> p_bg s' = 0" using drain_enabled [OF inv] stuck by blast
  then show "Shutdown_returns s' None None" by (simp add: Shutdown_returns_def)
  show "p_running s' = 0" "list_all (\<lambda>w. w_phase w = Reaped) (s_workers s')" "exit_events s' = spawned_events s'"
    using all_reaped [OF inv] d by auto
qed

text \<open>A stopping pool that takes drain steps as long as it can comes to rest.\<close>

lemma drain_rest:
  assumes "p_stopping s"
  shows "\<exists>as s'. pool_steps E s as s' \<and> list_all drains as \<and> (\<forall>a s''. drains a \<longrightarrow> \<not> pool_step E s' a s'')"
  using assms
proof (induction "drain s" arbitrary: s rule: less_induct)
  case less
  show ?case
  proof (cases "\<exists>a t. drains a \<and> pool_step E s a t")
    case True
    then obtain a t where t: "drains a" "pool_step E s a t" by blast
    moreover have "p_stopping t" using halted_step [OF t(2) less.prems] by (simp add: halted_def)
    ultimately obtain as s' where "pool_steps E t as s'" "list_all drains as" "\<forall>a s''. drains a \<longrightarrow> \<not> pool_step E s' a s''"
      using less.hyps [OF drain_step [OF t(2,1) less.prems]] by blast
    with t show ?thesis by (intro exI [of _ "a # as"] exI [of _ s']) (auto intro: pool_steps.more)
  next
    case False
    then show ?thesis by (intro exI [of _ "[]"] exI [of _ s]) (auto intro: pool_steps.none)
  qed
qed

text \<open>A pool with a worker, asked to shut down.\<close>

lemma shutdown_drains_witness:
  "p_running (Shutdown_begin demo_pool) = 1 \<and>
   (\<exists>as s'. pool_steps demo_env (Shutdown_begin demo_pool) as s' \<and> list_all drains as \<and>
      length as \<le> drain (Shutdown_begin demo_pool) \<and> Shutdown_returns s' None None \<and> p_running s' = 0)"
proof -
  let ?s = "Shutdown_begin demo_pool"
  have r: "reachable demo_env demo_cfg ?s"
    using demo_steps pool_steps_append pool_steps_one [OF pool_step.shutdown] unfolding reachable_def by blast
  have p: "p_stopping ?s" by (simp add: Shutdown_begin_def)
  have "p_running demo_pool = 1" by code_simp
  then have one: "p_running ?s = 1" by (simp add: Shutdown_begin_def)
  from drain_rest [OF p] obtain as s' where d: "pool_steps demo_env ?s as s'" "list_all drains as"
    "\<forall>a s''. drains a \<longrightarrow> \<not> pool_step demo_env s' a s''" by blast
  from shutdown_drains [OF r p d(1,2)] d one show ?thesis by blast
qed

abbreviation all_gone :: "pool_sys \<Rightarrow> bool" where
  "all_gone s \<equiv> list_all (\<lambda>w. w_phase w = Reaped) (s_workers s)"

lemma all_gone_Hint: "p_stopping s \<Longrightarrow> all_gone (snd (pool_Hint E src n s)) = all_gone s"
  using Hint_stopping [of s E src n] core_eq by metis

lemma all_gone_step: "pool_step E s a s' \<Longrightarrow> p_stopping s \<Longrightarrow> all_gone s \<Longrightarrow> all_gone s'"
proof (induction rule: pool_step.induct)
  case (hint s src n)
  then show ?case by (simp add: all_gone_Hint)
next
  case (poke s w c)
  then show ?case using all_gone_Hint [of s E SourcePoke "pc_PokeCount (p_cfg s)"]
    by (auto simp: poke_round_def split: prod.split)
qed (auto simp: pool_Stats_def clock_now_def Let_def pool_Start_def Shutdown_begin_def is_at_def list_all_length
  split: prod.splits)

lemma all_gone_steps: "pool_steps E s as s' \<Longrightarrow> p_stopping s \<Longrightarrow> all_gone s \<Longrightarrow> all_gone s'"
proof (induction rule: pool_steps.induct)
  case (more s a s' as s'')
  with halted_step [OF more(1)] all_gone_step [OF more(1)] show ?case by (simp add: halted_def)
qed simp

text \<open>A pool whose workers are all reaped after a shutdown stays empty: when \<open>Shutdown\<close>
  returns nil nothing is running and nothing will be started.\<close>

theorem shutdown_returns_empty:
  assumes "reachable E cfg s" "p_stopping s" "Shutdown_returns s None None" "pool_steps E s as s'"
  shows "p_running s' = 0 \<and> s_spawns s' = s_spawns s"
proof -
  have inv: "pool_inv s" by (rule pool_inv_reachable [OF assms(1)])
  have d: "p_reapers s = 0" using assms(3) by (simp add: Shutdown_returns_def)
  have h: "halted s s'" by (rule halted_steps [OF assms(4,2)])
  have "list_all (\<lambda>w. w_phase w = Reaped) (s_workers s')"
    using all_gone_steps [OF assms(4,2)] all_reaped [OF inv d] by simp
  then have "filter live (s_workers s') = []" by (auto simp: filter_empty_conv live_def list_all_iff)
  with pool_inv_steps [OF assms(4) inv] h show ?thesis by (simp add: pool_inv_def halted_def)
qed

lemma shutdown_returns_empty_witness:
  "p_running (snd (pool_Hint demo_env SourceRedis 3 (Shutdown_begin (pool_New demo_cfg)))) = 0"
proof -
  have r: "reachable demo_env demo_cfg (Shutdown_begin (pool_New demo_cfg))"
    unfolding reachable_def using pool_steps_one [OF pool_step.shutdown] by blast
  show ?thesis
    by (rule shutdown_returns_empty [OF r _ _ pool_steps_one [OF pool_step.hint], THEN conjunct1])
       (simp_all add: Shutdown_begin_def pool_New_def Shutdown_returns_def)
qed
end
