(* ===== verification/PoolExits.thy ===== *)
theory PoolExits
  imports PoolRun
begin

text \<open>
  What one exit does to a pool: its classification, the slot, the breaker, the metrics and
  the chained hint; what the breaker does to hints over whole runs; and the snapshot.
\<close>

section \<open>The breaker sees failures only\<close>

lemma recordExit_breaker:
  "p_breaker (snd (recordExit E r t s)) =
     (case fst (fst (recordExit E r t s)) of result \<Rightarrow>
      if result = ''ok'' then breaker_ok (p_breaker s) t
      else if result = ''failure'' then snd (breaker_failure (p_breaker s) (env_now E (s_reads s)))
      else p_breaker s)"
  by (simp add: recordExit_def Let_def failureLocked_frame)

lemma classify_result: "classify cfg e k \<in> {''ok'', ''failure'', ''killed''}"
  by (simp add: classify_def)

lemma recordExit_result: "fst (recordExit E r t s) =
  (classify (p_cfg s) (er_exit r) (er_killReason r \<noteq> []), p_running s - 1)"
proof -
  have "p_running (failureLocked E k v u) = p_running u" for k v u
    using failureLocked_frame(1) [of E k v u] by (simp add: core_def)
  then show ?thesis by (simp add: recordExit_def Let_def)
qed

text \<open>An exit always gives its slot back, and the breaker hears of it only as what it is:
  a worker doorbell killed counts neither as a failure nor as a success, an exit code in
  \<open>ok_exit_codes\<close> as a success, and every other code, every signal and every wait error as
  a failure.\<close>

theorem recordExit_feeds_breaker:
  "(let ((result, running), s') = recordExit E r t s; e = er_exit r
    in running = p_running s - 1 \<and> p_running s' = running \<and> p_lastExit s' = t \<and>
       p_lastExitCode s' = Exit_Code e \<and>
       (if er_killReason r \<noteq> [] then result = ''killed'' \<and> p_breaker s' = p_breaker s
        else if Exit_Signal e = None \<and> Exit_Err e = None \<and> Exit_Code e \<in> set (pc_OkExitCodes (p_cfg s))
        then result = ''ok'' \<and> p_breaker s' = breaker_ok (p_breaker s) t
        else result = ''failure'' \<and>
          p_breaker s' = snd (breaker_failure (p_breaker s) (env_now E (s_reads s)))))"
proof -
  obtain result running s' where R: "recordExit E r t s = ((result, running), s')" by (metis surj_pair)
  have fl: "p_running (failureLocked E k v u) = p_running u \<and> p_lastExit (failureLocked E k v u) = p_lastExit u \<and>
      p_lastExitCode (failureLocked E k v u) = p_lastExitCode u" for k v u
    by (simp add: failureLocked_def clock_now_def plog_def pmetric_def Let_def split: prod.split)
  have "result = classify (p_cfg s) (er_exit r) (er_killReason r \<noteq> [])" "running = p_running s - 1"
    using recordExit_result [of E r t s] R by simp_all
  moreover have "p_running s' = p_running s - 1 \<and> p_lastExit s' = t \<and> p_lastExitCode s' = Exit_Code (er_exit r)"
    using R fl by (auto simp: recordExit_def Let_def split: if_splits)
  moreover note recordExit_breaker [of E r t s]
  ultimately show ?thesis by (simp add: R classify_def)
qed

section \<open>The reaper, undisturbed\<close>

lemma is_at_set_phase: "i < length (s_workers s) \<Longrightarrow> is_at (set_phase i ph s) i ph"
  by (simp add: is_at_def set_phase_def)

lemma is_at_leave_wait: "i < length (s_workers s) \<Longrightarrow> is_at (leave_wait i e r s) i (Ended e r)"
  by (simp add: is_at_def leave_wait_def)

lemma workers_wait [simp]:
  "length (s_workers (wait_ttl i s)) = length (s_workers s)" "length (s_workers (wait_stop i s)) = length (s_workers s)"
  "length (s_workers (leave_wait i e r s)) = length (s_workers s)"
  "length (s_workers (set_phase i ph s)) = length (s_workers s)"
  by (simp_all add: wait_ttl_def wait_stop_def leave_wait_def set_phase_def Let_def)

text \<open>The reasons for which \<open>wait\<close> can return.\<close>

definition may_end :: "pool_sys \<Rightarrow> nat \<Rightarrow> string \<Rightarrow> bool" where
  "may_end s i reason \<longleftrightarrow> is_at s i Waiting \<and>
     (reason = [] \<or> reason = KillTTL \<and> w_ttl (s_workers s ! i) \<noteq> None \<or> reason = KillShutdown \<and> p_stop s)"

lemma pool_wait_steps:
  assumes "may_end s i reason"
  shows "\<exists>as. pool_steps E s as (pool_wait i e reason s) \<and> is_at (pool_wait i e reason s) i (Ended e reason)"
proof -
  have i: "is_at s i Waiting" "i < length (s_workers s)" using assms by (auto simp: may_end_def is_at_def)
  have at: "is_at (leave_wait i e reason t) i (Ended e reason)" if "length (s_workers t) = length (s_workers s)" for t
    using that i by (simp add: is_at_leave_wait)
  have k: "is_at (wait_ttl i s) i (Killing KillTTL)" "is_at (wait_stop i s) i (Killing KillShutdown)"
    using i by (auto simp: wait_ttl_def wait_stop_def Let_def intro!: is_at_set_phase)
  consider "reason = []" | "reason = KillTTL" "w_ttl (s_workers s ! i) \<noteq> None" | "reason = KillShutdown" "p_stop s"
    using assms by (auto simp: may_end_def)
  then show ?thesis
  proof cases
    case 1
    have "pool_steps E s [ADone i e] (pool_wait i e reason s)"
      using pool_steps_one [OF pool_step.worker_done [OF i(1)], of E e] 1 by (simp add: pool_wait_def wait_done_def)
    then show ?thesis using at [of s] 1 by (auto simp: pool_wait_def)
  next
    case 2
    have "pool_steps E s ([ATtl i] @ [ATerminated i e]) (leave_wait i e KillTTL (wait_ttl i s))"
      by (rule pool_steps_append [OF pool_steps_one [OF pool_step.worker_ttl [OF i(1) 2(2)]]
          pool_steps_one [OF pool_step.terminated [OF k(1)]]])
    then show ?thesis using at [of "wait_ttl i s"] 2(1) by (auto simp: pool_wait_def kill_reasons)
  next
    case 3
    have "pool_steps E s ([AStop i] @ [ATerminated i e]) (leave_wait i e KillShutdown (wait_stop i s))"
      by (rule pool_steps_append [OF pool_steps_one [OF pool_step.worker_stop [OF i(1) 3(2)]]
          pool_steps_one [OF pool_step.terminated [OF k(2)]]])
    then show ?thesis using at [of "wait_stop i s"] 3(1) by (auto simp: pool_wait_def kill_reasons)
  qed
qed

lemma recordExit_workers: "s_workers (snd (recordExit E r t s)) = s_workers s"
  using recordExit_core(1) [of E r t s] by (auto dest: core_eqD)

text \<open>The record \<open>reap\<close> reports.\<close>

definition final_record :: "worker \<Rightarrow> pool_sys \<Rightarrow> Exit \<Rightarrow> string \<Rightarrow> gtime \<Rightarrow> exitRecord" where
  "final_record w s e reason t =
     (exit_record w e reason)\<lparr>er_result := classify (p_cfg s) e (reason \<noteq> []), er_running := p_running s - 1,
       er_duration := time_sub t (w_started w)\<rparr>"

lemma exit_record_simps [simp]:
  "er_exit (exit_record w e reason) = e" "er_killReason (exit_record w e reason) = reason"
  "er_hasTasks (exit_record w e reason) = snd (parseTasks (Exit_Result e))"
  "er_tasks (exit_record w e reason) = fst (parseTasks (Exit_Result e))"
  by (simp_all add: exit_record_def split: prod.split)

lemma reap_record_final:
  "reap_record E i e reason t s =
     set_phase i (RecordedExit (final_record (s_workers s ! i) s e reason t))
       (snd (recordExit E (exit_record (s_workers s ! i) e reason) t s))"
  using recordExit_result [of E "exit_record (s_workers s ! i) e reason" t s]
  by (auto simp: reap_record_def Let_def final_record_def split: prod.split)

lemma reap_unfold:
  fixes E :: env and s :: pool_sys and e :: Exit and reason :: string and i :: nat
  assumes "i < length (s_workers s)"
  defines "u \<equiv> reap_stamp E i e reason (pool_wait i e reason s)"
    and "t \<equiv> env_now E (s_reads s)"
  shows "is_at u i (Stamped e reason t) \<and>
    reap E i e reason s = (let x = final_record (s_workers u ! i) u e reason t
       in reap_chain E i x (reap_report i x (reap_record E i e reason t u)))"
proof -
  have r: "s_reads (pool_wait i e reason s) = s_reads s"
    by (simp add: pool_wait_def leave_wait_def wait_ttl_def wait_stop_def set_phase_def Let_def)
  have l: "i < length (s_workers (pool_wait i e reason s))" using assms(1) by (simp add: pool_wait_def)
  have at: "is_at u i (Stamped e reason t)"
    using l r by (simp add: u_def t_def reap_stamp_def clock_now_def is_at_def set_phase_def)
  then have iu: "i < length (s_workers u)" by (simp add: is_at_def)
  have ph: "w_phase (s_workers (reap_record E i e reason t u) ! i) = RecordedExit (final_record (s_workers u ! i) u e reason t)"
    using iu by (simp add: reap_record_final set_phase_def recordExit_workers)
  show ?thesis using at ph by (simp add: reap_def flip: u_def) (simp add: is_at_def Let_def)
qed

text \<open>The \<open>reap\<close> goroutine run without interruption, from the end of its worker to its
  last statement, is a run of the step relation: the interleaved model contains the
  sequential code.\<close>

theorem reap_is_a_run:
  assumes "may_end s i reason"
  shows "\<exists>as. pool_steps E s as (reap E i e reason s) \<and> is_at (reap E i e reason s) i Reaped"
proof -
  define t where "t = env_now E (s_reads s)"
  define u where "u = reap_stamp E i e reason (pool_wait i e reason s)"
  define x where "x = final_record (s_workers u ! i) u e reason t"
  define v where "v = reap_record E i e reason t u"
  have i: "i < length (s_workers s)" using assms by (simp add: may_end_def is_at_def)
  have at: "is_at u i (Stamped e reason t)"
    and R: "reap E i e reason s = reap_chain E i x (reap_report i x v)"
    using reap_unfold [OF i, of E e reason] by (simp_all add: u_def t_def x_def v_def Let_def)
  then have iu: "i < length (s_workers u)" by (simp add: is_at_def)
  have v: "is_at v i (RecordedExit x)"
    using iu by (simp add: v_def x_def reap_record_final is_at_def set_phase_def recordExit_workers)
  have iv: "i < length (s_workers v)" using v by (simp add: is_at_def)
  have w: "is_at (reap_report i x v) i (ReportedExit x)"
    using iv by (simp add: reap_report_def logExit_def Let_def is_at_set_phase)
  obtain as where as: "pool_steps E s as (pool_wait i e reason s)" "is_at (pool_wait i e reason s) i (Ended e reason)"
    using pool_wait_steps [OF assms] by blast
  have "pool_step E (pool_wait i e reason s) (AStamp i) u"
    unfolding u_def by (rule pool_step.stamp [OF as(2)])
  moreover have "pool_step E u (ARecord i) v" unfolding v_def by (rule pool_step.record_exit [OF at])
  moreover note pool_step.report [OF v, of E]
  moreover have "pool_step E (reap_report i x v) (AChain i) (reap E i e reason s)"
    unfolding R by (rule pool_step.chain [OF w])
  ultimately have "pool_steps E (pool_wait i e reason s) [AStamp i, ARecord i, AReport i, AChain i] (reap E i e reason s)"
    by (blast intro: pool_steps.intros)
  with as(1) have "pool_steps E s (as @ [AStamp i, ARecord i, AReport i, AChain i]) (reap E i e reason s)"
    by (rule pool_steps_append)
  moreover have "is_at (reap E i e reason s) i Reaped"
  proof -
    obtain k where "started (reap_report i x v) k (chained E x (reap_report i x v))" using chained_started by blast
    from started_nth [OF this, of i] w show ?thesis
      by (auto simp: R reap_chain_chained is_at_def set_phase_def)
  qed
  ultimately show ?thesis by blast
qed

lemma demo_pool_started: "is_at demo_pool 0 Waiting \<and> length (s_workers demo_pool) = 1 \<and> p_running demo_pool = 1"
proof -
  have "hint_grants demo_env (pool_New demo_cfg) 5 = 1"
    by (simp add: hint_grants_def pool_New_def demo_env_def demo_cfg_def builtinPool_def newBreaker_def
        answer_def)
  then have "started (pool_New demo_cfg) 1 demo_pool"
    using pool_Hint_started [of "pool_New demo_cfg" demo_env 5 SourceHTTP] by (simp add: demo_pool_def)
  then show ?thesis
    by (auto simp: started_def pool_New_def is_at_def length_Suc_conv dest!: core_eqD)
qed

lemma reap_is_a_run_witness:
  "\<exists>as. pool_steps demo_env demo_pool as (reap demo_env 0 zeroExit [] demo_pool) \<and>
     is_at (reap demo_env 0 zeroExit [] demo_pool) 0 Reaped"
  by (rule reap_is_a_run) (simp add: may_end_def demo_pool_started)

section \<open>One worker out, its count in\<close>

lemma reap_report_frame:
  "core (reap_report i x s) = core (set_phase i (ReportedExit x) s)"
  "s_spawns (reap_report i x s) = s_spawns s" "s_reads (reap_report i x s) = s_reads s"
  "p_breaker (reap_report i x s) = p_breaker s"
  by (simp_all add: core_moves core_set_phase)
     (simp_all add: reap_report_def logExit_def set_phase_def Let_def)

text \<open>An ok exit recorded: the slot is free, the cooldown has not moved.\<close>

lemma reap_record_ok:
  assumes "classify (p_cfg u) e False = ''ok''"
  shows "p_cfg (reap_record E i e [] t u) = p_cfg u" "p_running (reap_record E i e [] t u) = p_running u - 1"
    "p_stopping (reap_record E i e [] t u) = p_stopping u" "s_spawns (reap_record E i e [] t u) = s_spawns u"
    "s_reads (reap_record E i e [] t u) = s_reads u"
    "openUntil (p_breaker (reap_record E i e [] t u)) = openUntil (p_breaker u)"
proof -
  define y where "y = exit_record (s_workers u ! i) e []"
  have v: "reap_record E i e [] t u =
      set_phase i (RecordedExit (final_record (s_workers u ! i) u e [] t)) (snd (recordExit E y t u))"
    by (simp add: reap_record_final y_def)
  have ok: "fst (fst (recordExit E y t u)) = ''ok''"
    using assms by (simp add: recordExit_result y_def)
  have "s_reads (snd (recordExit E y t u)) = s_reads u"
    using assms by (simp add: recordExit_def y_def Let_def)
  then show "s_reads (reap_record E i e [] t u) = s_reads u" by (simp add: v set_phase_def)
  show "openUntil (p_breaker (reap_record E i e [] t u)) = openUntil (p_breaker u)"
    using recordExit_breaker [of E y t u] ok breaker_ok_frame(1) by (simp add: v set_phase_def)
  show "p_cfg (reap_record E i e [] t u) = p_cfg u" "p_running (reap_record E i e [] t u) = p_running u - 1"
    "p_stopping (reap_record E i e [] t u) = p_stopping u" "s_spawns (reap_record E i e [] t u) = s_spawns u"
    using recordExit_core(1) [of E y t u] recordExit_spawns [of E y t u]
    by (simp_all add: v set_phase_def core_def)
qed

text \<open>The running count after a reap, in one equation.\<close>

lemma reap_refills:
  assumes "i < length (s_workers s)" "\<not> p_stopping s"
    and "\<And>k. \<exists>pid. env_spawn E k (pool_spec (p_cfg s)) = Inr pid"
    and "openUntil (p_breaker s) \<le> env_now E (Suc (s_reads s))"
    and "classify (p_cfg s) e False = ''ok''"
  shows "p_running (reap E i e [] s) = p_running s - 1 +
    max 0 (min (fst (parseTasks (Exit_Result e))) (pc_Concurrency (p_cfg s) - (p_running s - 1)))"
proof -
  define t where "t = env_now E (s_reads s)"
  define u where "u = reap_stamp E i e [] (pool_wait i e [] s)"
  define x where "x = final_record (s_workers u ! i) u e [] t"
  define v where "v = reap_record E i e [] t u"
  define w where "w = reap_report i x v"
  have R: "reap E i e [] s = reap_chain E i x w"
    using reap_unfold [OF assms(1), of E e "[]"] by (simp add: u_def t_def x_def v_def w_def Let_def)
  have u: "p_cfg u = p_cfg s" "p_running u = p_running s" "p_stopping u = p_stopping s"
    "s_spawns u = s_spawns s" "s_reads u = Suc (s_reads s)" "p_breaker u = p_breaker s"
    by (simp_all add: u_def reap_stamp_def clock_now_def pool_wait_def leave_wait_def set_phase_def)
  have x: "er_result x = ''ok''" "er_tasks x = fst (parseTasks (Exit_Result e))"
    using assms(5) by (simp_all add: x_def final_record_def u)
  have ok: "classify (p_cfg u) e False = ''ok''" using assms(5) by (simp add: u)
  have v: "p_cfg v = p_cfg s" "p_running v = p_running s - 1" "p_stopping v = p_stopping s"
      "s_spawns v = s_spawns s" "s_reads v = Suc (s_reads s)" "openUntil (p_breaker v) = openUntil (p_breaker s)"
    by (simp_all add: v_def reap_record_ok [OF ok] u)
  have w: "p_cfg w = p_cfg s" "p_running w = p_running s - 1" "p_stopping w = p_stopping s"
      "s_spawns w = s_spawns s" "s_reads w = Suc (s_reads s)" "openUntil (p_breaker w) = openUntil (p_breaker s)"
    using reap_report_frame [of i x v] v by (simp_all add: w_def core_set_phase) (simp_all add: core_def)
  have all: "good E w 0 m = m" for m
    by (rule good_all) (use assms(3) in \<open>simp add: answer_def w\<close>)
  have "hint_grants E w n = nat (min n (pc_Concurrency (p_cfg s) - (p_running s - 1)))" for n
    using assms(2,4) by (simp add: hint_grants_def w all)
  moreover have "started w (if 0 < er_tasks x then hint_grants E w (er_tasks x) else 0) (chained E x w)"
    using pool_Hint_started [of w E "er_tasks x" SourceWorker] started_0 [of w w] x(1) by (simp add: chained_def)
  then have "p_running (chained E x w) = p_running s - 1 +
      int (if 0 < er_tasks x then hint_grants E w (er_tasks x) else 0)"
    using w(2) by (auto simp: started_def dest!: core_eqD)
  ultimately have "p_running (chained E x w) = p_running s - 1 +
      max 0 (min (er_tasks x) (pc_Concurrency (p_cfg s) - (p_running s - 1)))" by auto
  then show ?thesis by (simp add: R reap_chain_chained x(2)) (simp add: set_phase_def)
qed

text \<open>A worker that exits ok by itself and prints a count is replaced at once by up to as
  many workers as it reported, as far as the freed concurrency allows; a count of 0, a
  failure or a kill starts none.\<close>

theorem reap_chains_count:
  assumes "i < length (s_workers s)" "\<not> p_stopping s"
    and "\<And>k. \<exists>pid. env_spawn E k (pool_spec (p_cfg s)) = Inr pid"
    and "openUntil (p_breaker s) \<le> env_now E (Suc (s_reads s))"
    and "classify (p_cfg s) e False = ''ok''"
  shows "p_running (reap E i e [] s) = p_running s - 1 +
    max 0 (min (fst (parseTasks (Exit_Result e))) (pc_Concurrency (p_cfg s) - (p_running s - 1)))"
  using reap_refills [OF assms] .

lemma demo_pool_fields: "p_stopping demo_pool = False" "openUntil (p_breaker demo_pool) = 0"
  "p_cfg demo_pool = demo_cfg" "s_reads demo_pool = 2"
  by (simp_all add: demo_pool_def pool_Hint_def pool_New_def demo_env_def clock_now_def Let_def breaker_open_def
      decay_def go_defs demo_cfg_def builtinPool_def spawnLocked_def newBreaker_def numeral_2_eq_2)

lemma reap_chains_count_witness:
  "p_running (reap demo_env 0 (zeroExit\<lparr>Exit_Result := ''3''\<rparr>) [] demo_pool) = 1"
proof -
  have "parseTasks ''3'' = (3, True)" by code_simp
  moreover have "p_running demo_pool = 1" by (simp add: demo_pool_started)
  ultimately show ?thesis
    using reap_chains_count [of 0 demo_pool demo_env "zeroExit\<lparr>Exit_Result := ''3''\<rparr>"]
    by (simp add: demo_pool_started demo_pool_fields)
       (simp add: demo_env_def classify_def zeroExit_def demo_cfg_def builtinPool_def)
qed

section \<open>Cooldowns over whole runs\<close>

lemma spawn_loop_reads: "spawn_loop E src m t = (k, u) \<Longrightarrow> s_reads t \<le> s_reads u"
proof (induction m arbitrary: t k u)
  case (Suc m)
  obtain r v where sp: "spawnLocked E src t = (r, v)" by fastforce
  have "s_reads t \<le> s_reads v"
    using spawnLocked_Inl(5) [of E t _ src] spawnLocked_Inr(5) [of E t _ src] sp by (cases "answer E t 0") auto
  with Suc.IH [of v] Suc.prems sp show ?case by (cases r) (auto split: prod.splits dest: order_trans)
qed simp

lemma reads_Hint: "s_reads s \<le> s_reads (snd (pool_Hint E src n s))"
  "\<not> p_stopping s \<Longrightarrow> s_reads s < s_reads (snd (pool_Hint E src n s))"
proof -
  show lt: "\<not> p_stopping s \<Longrightarrow> s_reads s < s_reads (snd (pool_Hint E src n s))"
    by (auto simp: pool_Hint_def clock_now_def Let_def split: prod.split dest!: spawn_loop_reads)
  show "s_reads s \<le> s_reads (snd (pool_Hint E src n s))"
    using lt Hint_stopping [of s E src n] by (cases "p_stopping s") auto
qed

lemma reads_recordExit: "s_reads s \<le> s_reads (snd (recordExit E r t s))"
  by (simp add: recordExit_def Let_def failureLocked_frame)

lemma reads_step: "pool_step E s a s' \<Longrightarrow> s_reads s \<le> s_reads s'"
proof (induction rule: pool_step.induct)
  case (hint s src n)
  then show ?case by (rule reads_Hint)
next
  case (poke s w c)
  then show ?case using reads_Hint(1) [of s E SourcePoke "pc_PokeCount (p_cfg s)"]
    by (auto simp: poke_round_def split: prod.split)
next
  case (record_exit s i e r t)
  then show ?case using reads_recordExit by (simp add: reap_record_final set_phase_def)
next
  case (report s i r)
  then show ?case by (simp add: reap_report_frame)
next
  case (chain s i r)
  then show ?case using reads_Hint(1) [of s E SourceWorker "er_tasks r"]
    by (simp add: reap_chain_chained set_phase_def chained_def)
qed (auto simp: pool_Stats_def clock_now_def Let_def pool_Start_def Shutdown_begin_def wait_done_def
  leave_wait_def wait_ttl_def wait_stop_def reap_stamp_def set_phase_def split: prod.splits)

text \<open>Every clock reading between the two states comes before \<open>u\<close>.\<close>

definition reads_before :: "env \<Rightarrow> gtime \<Rightarrow> pool_sys \<Rightarrow> pool_sys \<Rightarrow> bool" where
  "reads_before E u s s' \<longleftrightarrow> (\<forall>i. s_reads s \<le> i \<and> i < s_reads s' \<longrightarrow> env_now E i < u)"

definition paused :: "pool_sys \<Rightarrow> pool_sys \<Rightarrow> bool" where
  "paused s s' \<longleftrightarrow> s_spawns s' = s_spawns s \<and> openUntil (p_breaker s') = openUntil (p_breaker s)"

lemma paused_Hint:
  assumes "reads_before E (openUntil (p_breaker s)) s (snd (pool_Hint E src n s))"
  shows "paused s (snd (pool_Hint E src n s))"
proof (cases "p_stopping s")
  case True
  then show ?thesis using Hint_stopping [of s E src n] by (simp add: paused_def)
next
  case False
  then have "env_now E (s_reads s) < openUntil (p_breaker s)"
    using assms reads_Hint(2) by (auto simp: reads_before_def)
  with False show ?thesis
    by (simp add: paused_def pool_Hint_def clock_now_def Let_def breaker_open_def go_defs)
qed

lemma failure_in_cooldown: "t < openUntil b \<Longrightarrow> openUntil (snd (breaker_failure b t)) = openUntil b"
proof -
  assume t: "t < openUntil b"
  obtain d trip b' where f: "breaker_failure b t = ((d, trip), b')" by (metis surj_pair)
  with t breaker_failure_tripped(2) [of b t d b'] breaker_failure_quiet(1) [of b t d b'] show ?thesis
    by (cases trip) auto
qed

lemma paused_step: "pool_step E s a s' \<Longrightarrow> reads_before E (openUntil (p_breaker s)) s s' \<Longrightarrow> paused s s'"
proof (induction rule: pool_step.induct)
  case (hint s src n)
  then show ?case by (rule paused_Hint)
next
  case (poke s w c)
  obtain n t where H: "pool_Hint E SourcePoke (pc_PokeCount (p_cfg s)) s = (n, t)" by fastforce
  show ?case
  proof (cases "awaitTick w c")
    case True
    with poke(4) H have "paused s t"
      using paused_Hint [of E s SourcePoke "pc_PokeCount (p_cfg s)"] by (simp add: poke_round_def reads_before_def)
    with True H show ?thesis by (simp add: poke_round_def paused_def)
  qed (simp add: poke_round_def paused_def)
next
  case (record_exit s i e r t)
  define x where "x = exit_record (s_workers s ! i) e r"
  have "openUntil (p_breaker (snd (recordExit E x t s))) = openUntil (p_breaker s)"
  proof (cases "fst (fst (recordExit E x t s)) = ''failure''")
    case True
    then have "classify (p_cfg s) (er_exit x) (er_killReason x \<noteq> []) = ''failure''"
      by (simp add: recordExit_result)
    then have "s_reads (snd (recordExit E x t s)) = Suc (s_reads s)"
      by (simp add: recordExit_def Let_def failureLocked_frame)
    with record_exit(2) have "env_now E (s_reads s) < openUntil (p_breaker s)"
      by (simp add: reads_before_def reap_record_final set_phase_def x_def)
    with True show ?thesis by (simp add: recordExit_breaker failure_in_cooldown)
  next
    case False
    then show ?thesis using breaker_ok_frame(1) by (simp add: recordExit_breaker)
  qed
  then show ?case by (simp add: paused_def reap_record_final set_phase_def recordExit_spawns flip: x_def)
next
  case (report s i r)
  then show ?case by (simp add: paused_def reap_report_frame)
next
  case (chain s i r)
  have "reads_before E (openUntil (p_breaker s)) s (chained E r s)"
    using chain(2) by (simp add: reap_chain_chained set_phase_def reads_before_def)
  then have "paused s (chained E r s)"
    using paused_Hint [of E s SourceWorker "er_tasks r"] by (auto simp: chained_def paused_def)
  then show ?case by (simp add: paused_def reap_chain_chained set_phase_def)
qed (auto simp: paused_def pool_Stats_def clock_now_def Let_def breaker_open_def pool_Start_def Shutdown_begin_def
  wait_done_def leave_wait_def wait_ttl_def wait_stop_def reap_stamp_def set_phase_def split: prod.splits)

text \<open>C5: while the clock is before the end of a cooldown nothing is spawned, whatever hints,
  pokes, chained hints, exits and failures happen in between, and the end does not move.\<close>

theorem cooldown_blocks_spawns:
  assumes "pool_steps E s as s'"
    and "\<forall>i. s_reads s \<le> i \<and> i < s_reads s' \<longrightarrow> env_now E i < openUntil (p_breaker s)"
  shows "s_spawns s' = s_spawns s \<and> openUntil (p_breaker s') = openUntil (p_breaker s)"
  using assms
proof (induction rule: pool_steps.induct)
  case (more s a s' as s'')
  have "pool_steps E t bs u \<Longrightarrow> s_reads t \<le> s_reads u" for t bs u
    by (induction rule: pool_steps.induct) (auto dest: reads_step)
  then have r: "s_reads s \<le> s_reads s'" "s_reads s' \<le> s_reads s''" using reads_step [OF more(1)] more(2) by auto
  with more(4) have "paused s s'" by (intro paused_step [OF more(1)]) (auto simp: reads_before_def)
  with more r show ?case by (auto simp: paused_def)
qed simp

definition cooling_pool :: pool_sys where
  "cooling_pool = (pool_New demo_cfg)\<lparr>p_breaker := demo_breaker\<lparr>openUntil := 5000000003, br_level := 1\<rparr>\<rparr>"

lemma cooldown_blocks_spawns_witness:
  "s_spawns (snd (pool_Hint demo_env SourceHTTP 4 cooling_pool)) = 0"
proof -
  have "s_reads (snd (pool_Hint demo_env SourceHTTP 4 cooling_pool)) = 1" "s_reads cooling_pool = 0"
    "s_spawns cooling_pool = 0"
    by (simp_all add: cooling_pool_def pool_New_def pool_Hint_def clock_now_def Let_def breaker_open_def
        demo_env_def go_defs)
  then show ?thesis
    using cooldown_blocks_spawns [OF pool_steps_one [OF pool_step.hint [of demo_env cooling_pool SourceHTTP 4]]]
    by (simp add: demo_env_def cooling_pool_def)
qed

section \<open>The snapshot\<close>

text \<open>
  \<open>Stats\<close> reads the level before \<open>open\<close> lets it decay: the first snapshot after the quiet
  period still shows the old level, and the next one shows 0.
\<close>

theorem Stats_level_stale:
  assumes "0 < br_level (p_breaker s)" "openUntil (p_breaker s) + maxCooldown (p_breaker s) \<le> env_now E (s_reads s)"
    and "env_now E (s_reads s) \<le> env_now E (Suc (s_reads s))"
  shows "st_BreakerLevel (fst (pool_Stats E s)) = int (br_level (p_breaker s)) \<and>
    st_BreakerLevel (fst (pool_Stats E (snd (pool_Stats E s)))) = 0"
  using assms by (simp add: pool_Stats_def clock_now_def breaker_open_def decay_def go_defs Let_def)

text \<open>A snapshot reports the slots taken and the configured limit, shows an open breaker
  exactly while hints are refused, with the end of the cooldown, and changes nothing a
  later hint could see.\<close>

theorem Stats_agrees_with_Hint:
  assumes "0 \<le> env_now E (s_reads s)"
  shows "(let (st, s') = pool_Stats E s in
    st_Running st = p_running s \<and> st_Concurrency st = pc_Concurrency (p_cfg s) \<and>
    (st_BreakerOpenUntil st \<noteq> 0 \<longleftrightarrow> env_now E (s_reads s) < openUntil (p_breaker s)) \<and>
    (st_BreakerOpenUntil st \<noteq> 0 \<longrightarrow> st_BreakerOpenUntil st = openUntil (p_breaker s) \<and>
       fst (pool_Hint E src n s) = 0) \<and>
    core s' = core s \<and> s_spawns s' = s_spawns s \<and> s_metrics s' = s_metrics s)"
  using assms pool_Hint_started [of s E n src]
  by (auto simp: pool_Stats_def clock_now_def breaker_open_def decay_def go_defs Let_def core_def hint_grants_def)

lemma Stats_agrees_with_Hint_witness:
  "st_BreakerOpenUntil (fst (pool_Stats demo_env cooling_pool)) \<noteq> 0 \<longleftrightarrow>
     env_now demo_env (s_reads cooling_pool) < openUntil (p_breaker cooling_pool)"
proof -
  have "0 \<le> env_now demo_env (s_reads cooling_pool)" by (simp add: demo_env_def)
  from Stats_agrees_with_Hint [OF this, of SourceHTTP 1] show ?thesis
    by (cases "pool_Stats demo_env cooling_pool") simp
qed
end
