(* ===== verification/Durations.thy ===== *)
theory Durations
  imports Float64 GoStrings
begin

text \<open>
  The text form of durations: \<open>config.Duration\<close> of \<open>types.go\<close> with the two functions of
  package \<open>time\<close> it is made of, \<open>ParseDuration\<close> and \<open>Duration.String\<close>, with their unsigned
  64-bit arithmetic and the double arithmetic of fractions.  Every duration of a document
  passes through the first, every duration \<open>check\<close> prints through the second.

  The unsigned sums are natural numbers; the guards of the code keep all of them below
  \<open>2 ^ 64\<close> except the sum over the terms, which is reduced as the machine does.
\<close>

section \<open>Division of doubles\<close>

fun f64_div :: "f64 \<Rightarrow> f64 \<Rightarrow> f64" where
  "f64_div (Fin x) (Fin y) =
     (if y \<noteq> 0 then to_f64 (x / y) else if x = 0 then NaN else if 0 < x then PosInf else NegInf)"
| "f64_div NaN y = NaN"
| "f64_div x NaN = NaN"
| "f64_div (Fin x) y = Fin 0"
| "f64_div x (Fin y) = (if 0 \<le> y then x else f64_neg x)"
| "f64_div x y = NaN"

section \<open>\<open>time.ParseDuration\<close>\<close>

fun leadingInt :: "string \<Rightarrow> nat \<Rightarrow> (nat \<times> string) option" where
  "leadingInt [] x = Some (x, [])"
| "leadingInt (c # s) x =
     (case digit_val c of
        None \<Rightarrow> Some (x, c # s)
      | Some d \<Rightarrow>
          if x > 2 ^ 63 div 10 then None
          else if x * 10 + d > 2 ^ 63 then None
          else leadingInt s (x * 10 + d))"

text \<open>The digits after the point: their value, the power of ten it is over, the rest.  Digits
  that no longer fit are skipped.\<close>

fun leadingFraction :: "string \<Rightarrow> nat \<Rightarrow> f64 \<Rightarrow> bool \<Rightarrow> nat \<times> f64 \<times> string" where
  "leadingFraction [] x scale overflow = (x, scale, [])"
| "leadingFraction (c # s) x scale overflow =
     (case digit_val c of
        None \<Rightarrow> (x, scale, c # s)
      | Some d \<Rightarrow>
          if overflow then leadingFraction s x scale True
          else if x > (2 ^ 63 - 1) div 10 then leadingFraction s x scale True
          else if x * 10 + d > 2 ^ 63 then leadingFraction s x scale True
          else leadingFraction s (x * 10 + d) (f64_mul scale (f64_of_int 10)) False)"

definition unitMap :: "(string \<times> nat) list" where
  "unitMap = [(''ns'', 1), (''us'', 1000), ([CHR 0xC2, CHR 0xB5, CHR ''s''], 1000),
     ([CHR 0xCE, CHR 0xBC, CHR ''s''], 1000), (''ms'', 1000000), (''s'', 1000000000),
     (''m'', 60000000000), (''h'', 3600000000000)]"

definition number_char :: "char \<Rightarrow> bool" where
  "number_char c \<longleftrightarrow> c = CHR ''.'' \<or> digit_val c \<noteq> None"

text \<open>The value of a term before its sum: the integer part, then the fraction.\<close>

definition term_value :: "nat \<Rightarrow> nat \<Rightarrow> f64 \<Rightarrow> nat \<Rightarrow> nat option" where
  "term_value v f scale unit =
     (if v > 2 ^ 63 div unit then None
      else let v = v * unit in
        if f > 0 then
          let v = v + nat (f64_to_int64 (f64_mul (f64_of_int (int f)) (f64_div (f64_of_int (int unit)) scale)))
          in if v > 2 ^ 63 then None else Some v
        else Some v)"

text \<open>One round of the loop: a number with its unit.\<close>

definition parse_term :: "string \<Rightarrow> (nat \<times> string) option" where
  "parse_term s =
     (if s = [] \<or> \<not> number_char (hd s) then None
      else case leadingInt s 0 of
        None \<Rightarrow> None
      | Some (v, s1) \<Rightarrow>
          let pre = (length s1 \<noteq> length s);
              (f, scale, s2) = (if s1 \<noteq> [] \<and> hd s1 = CHR ''.'' then leadingFraction (tl s1) 0 (Fin 1) False else (0, Fin 1, s1));
              post = (s1 \<noteq> [] \<and> hd s1 = CHR ''.'' \<and> length s2 \<noteq> length (tl s1));
              u = takeWhile (\<lambda>c. \<not> number_char c) s2
          in if \<not> pre \<and> \<not> post then None
             else if u = [] then None
             else case map_of unitMap u of
               None \<Rightarrow> None
             | Some unit \<Rightarrow> map_option (\<lambda>w. (w, dropWhile (\<lambda>c. \<not> number_char c) s2)) (term_value v f scale unit))"

lemma leadingInt_length: "leadingInt s x = Some (v, r) \<Longrightarrow> length r \<le> length s"
  by (induction s x rule: leadingInt.induct) (auto split: option.splits if_splits)

lemma leadingFraction_length: "length (snd (snd (leadingFraction s x sc ov))) \<le> length s"
  by (induction s arbitrary: x sc ov) (auto intro: le_SucI split: option.split)

lemma dropWhile_shorter: "takeWhile P s \<noteq> [] \<Longrightarrow> length (dropWhile P s) < length s"
  by (cases s) (auto simp: length_dropWhile_le less_Suc_eq_le split: if_splits)

lemma parse_term_shorter: "parse_term s = Some (w, r) \<Longrightarrow> length r < length s"
proof -
  assume a: "parse_term s = Some (w, r)"
  then obtain v s1 where s1: "leadingInt s 0 = Some (v, s1)" by (auto simp: parse_term_def split: option.splits if_splits)
  define t where "t = (if s1 \<noteq> [] \<and> hd s1 = CHR ''.'' then leadingFraction (tl s1) 0 (Fin 1) False else (0, Fin 1, s1))"
  obtain f sc s2 where t: "t = (f, sc, s2)" by (cases t)
  have "length s2 \<le> length s1"
    using leadingFraction_length [of "tl s1" 0 "Fin 1" False] t by (auto simp: t_def split: if_splits)
  moreover have "r = dropWhile (\<lambda>c. \<not> number_char c) s2" "takeWhile (\<lambda>c. \<not> number_char c) s2 \<noteq> []"
    using a by (auto simp: parse_term_def s1 Let_def t t_def [symmetric] split: if_splits option.splits)
  ultimately show ?thesis using leadingInt_length [OF s1] dropWhile_shorter [of _ s2] by fastforce
qed

function parse_terms :: "string \<Rightarrow> nat \<Rightarrow> nat option" where
  "parse_terms s d =
     (if s = [] then Some d
      else case parse_term s of
        None \<Rightarrow> None
      | Some (v, r) \<Rightarrow> let d = (d + v) mod 2 ^ 64 in if d > 2 ^ 63 then None else parse_terms r d)"
  by pat_completeness auto
termination by (relation "measure (length \<circ> fst)") (auto dest: parse_term_shorter)

declare parse_terms.simps [simp del]

definition ParseDuration :: "string \<Rightarrow> duration option" where
  "ParseDuration s =
     (let neg = (s \<noteq> [] \<and> hd s = CHR ''-'');
          s = (if s \<noteq> [] \<and> (hd s = CHR ''-'' \<or> hd s = CHR ''+'') then tl s else s)
      in if s = ''0'' then Some 0
         else if s = [] then None
         else case parse_terms s 0 of
           None \<Rightarrow> None
         | Some d \<Rightarrow>
             if neg then Some (wrap64 (- int d))
             else if d > 2 ^ 63 - 1 then None
             else Some (int d))"

section \<open>\<open>Duration.String\<close>\<close>

text \<open>\<open>fmtFrac\<close> writes from the right: \<open>buf\<close> is what is already there.\<close>

fun fmtFrac_loop :: "nat \<Rightarrow> nat \<Rightarrow> bool \<Rightarrow> string \<Rightarrow> bool \<times> string \<times> nat" where
  "fmtFrac_loop 0 v printing buf = (printing, buf, v)"
| "fmtFrac_loop (Suc n) v printing buf =
     (let printing = (printing \<or> v mod 10 \<noteq> 0)
      in fmtFrac_loop n (v div 10) printing (if printing then digit_char (v mod 10) # buf else buf))"

definition fmtFrac :: "nat \<Rightarrow> nat \<Rightarrow> string \<Rightarrow> string \<times> nat" where
  "fmtFrac v prec buf =
     (case fmtFrac_loop prec v False buf of
        (printing, buf, v) \<Rightarrow> (if printing then CHR ''.'' # buf else buf, v))"

definition fmtInt :: "nat \<Rightarrow> string \<Rightarrow> string" where
  "fmtInt v buf = utoa v @ buf"

definition fmt_small :: "nat \<Rightarrow> string" where
  "fmt_small u =
     (let (unit, prec) = (if u < 1000 then (''ns'', 0) else if u < 1000000 then ([CHR 0xC2, CHR 0xB5, CHR ''s''], 3) else (''ms'', 6));
          (buf, u) = fmtFrac u prec unit
      in fmtInt u buf)"

definition fmt_large :: "nat \<Rightarrow> string" where
  "fmt_large u =
     (let (buf, u) = fmtFrac u 9 ''s'';
          buf = fmtInt (u mod 60) buf; u = u div 60
      in if u > 0 then
           let buf = fmtInt (u mod 60) (CHR ''m'' # buf); u = u div 60
           in if u > 0 then fmtInt u (CHR ''h'' # buf) else buf
         else buf)"

definition Duration_format :: "duration \<Rightarrow> string" where
  "Duration_format d =
     (let u = nat \<bar>d\<bar>;
          buf = (if u = 0 then ''0s'' else if u < nat second then fmt_small u else fmt_large u)
      in if d < 0 then CHR ''-'' # buf else buf)"

section \<open>\<open>config.Duration\<close>\<close>

definition Duration_UnmarshalText :: "string \<Rightarrow> duration option" where
  "Duration_UnmarshalText b = ParseDuration b"

definition Duration_String :: "duration \<Rightarrow> string" where
  "Duration_String d = Duration_format d"

definition Duration_MarshalText :: "duration \<Rightarrow> string" where
  "Duration_MarshalText d = Duration_String d"

section \<open>Reading back what was printed\<close>

lemma leadingInt_utoa: "v \<le> 2 ^ 63 \<Longrightarrow> leadingInt (utoa v @ s) 0 = leadingInt s v"
proof (induction v arbitrary: s rule: utoa.induct)
  case (1 v)
  show ?case
  proof (cases "v < 10")
    case True
    then show ?thesis by (simp add: utoa.simps [of v])
  next
    case False
    have "v div 10 \<le> 2 ^ 63 div 10" using 1(2) by (rule div_le_mono)
    moreover have "v div 10 \<le> 2 ^ 63" using 1(2) by linarith
    ultimately show ?thesis
      using 1 False by (simp add: utoa.simps [of v])
  qed
qed

definition stops :: "string \<Rightarrow> bool" where
  "stops s \<longleftrightarrow> s = [] \<or> digit_val (hd s) = None"

lemma leadingInt_stop: "stops s \<Longrightarrow> leadingInt s v = Some (v, s)"
  by (cases s) (auto simp: stops_def)

text \<open>The last \<open>n\<close> decimal digits of a number, with leading zeros.\<close>

fun fixed :: "nat \<Rightarrow> nat \<Rightarrow> string" where
  "fixed 0 v = []"
| "fixed (Suc n) v = fixed n (v div 10) @ [digit_char (v mod 10)]"

lemma length_fixed [simp]: "length (fixed n v) = n"
  by (induction n arbitrary: v) auto

lemma mod_Suc_digits: "(v mod 10 ^ Suc n) div 10 = (v div 10) mod 10 ^ n" "(v mod 10 ^ Suc n) mod 10 = v mod (10 :: nat)"
proof -
  have "v mod 10 ^ Suc n = 10 * ((v div 10) mod 10 ^ n) + v mod 10" by (simp add: mod_mult2_eq)
  then show "(v mod 10 ^ Suc n) div 10 = (v div 10) mod 10 ^ n" by simp
  show "(v mod 10 ^ Suc n) mod 10 = v mod 10" by (simp add: mod_mod_cancel)
qed

lemma fixed_mod: "fixed n (v mod 10 ^ n) = fixed n v"
proof (induction n arbitrary: v)
  case (Suc n)
  then show ?case by (simp only: fixed.simps mod_Suc_digits)
qed simp

lemma fmtFrac_loop_True: "fmtFrac_loop n v True buf = (True, fixed n v @ buf, v div 10 ^ n)"
  by (induction n arbitrary: v buf) (simp_all add: Let_def div_mult2_eq)

lemma fmtFrac_loop_False:
  "(v mod 10 ^ n = 0 \<and> fmtFrac_loop n v False buf = (False, buf, v div 10 ^ n)) \<or>
   (\<exists>k f. k \<le> n \<and> 0 < k \<and> 0 < f \<and> f < 10 ^ k \<and> v mod 10 ^ n = f * 10 ^ (n - k) \<and>
      fmtFrac_loop n v False buf = (True, fixed k f @ buf, v div 10 ^ n))"
proof (induction n arbitrary: v)
  case (Suc n)
  have v: "v mod 10 ^ Suc n = 10 * ((v div 10) mod 10 ^ n) + v mod 10" by (simp add: mod_mult2_eq)
  show ?case
  proof (cases "v mod 10 = 0")
    case False
    then have "0 < v mod 10 ^ Suc n" using v by linarith
    moreover have "fmtFrac_loop (Suc n) v False buf = (True, fixed (Suc n) (v mod 10 ^ Suc n) @ buf, v div 10 ^ Suc n)"
      using False by (simp add: Let_def fmtFrac_loop_True fixed_mod div_mult2_eq del: power_Suc fixed.simps) (simp add: div_mult2_eq)
    ultimately show ?thesis
      by (intro disjI2 exI [of _ "Suc n"] exI [of _ "v mod 10 ^ Suc n"]) simp
  next
    case True
    then have step: "fmtFrac_loop (Suc n) v False buf = fmtFrac_loop n (v div 10) False buf"
      and d: "(v div 10) div 10 ^ n = v div 10 ^ Suc n" by (simp_all add: Let_def div_mult2_eq)
    from Suc.IH [of "v div 10"] show ?thesis
    proof (elim disjE exE conjE, goal_cases)
      case 1
      then show ?case using v True step d by simp
    next
      case (2 k f)
      then have "10 * (f * 10 ^ (n - k)) = f * 10 ^ (Suc n - k)" by (simp add: Suc_diff_le)
      with 2 show ?case using v True step d by (intro disjI2 exI [of _ k] exI [of _ f]) simp
    qed
  qed
qed simp

lemma pow10_exact: "n \<le> 15 \<Longrightarrow> f64_of_int (10 ^ n) = Fin (10 ^ n)"
proof -
  assume "n \<le> 15"
  then have "(10 :: int) ^ n \<le> 10 ^ 15" by (rule power_increasing) simp
  then show ?thesis by (subst f64_of_int_exact) auto
qed

lemma to_f64_nat: "n \<le> 2 ^ 53 \<Longrightarrow> to_f64 (of_nat n) = Fin (of_nat n)"
  using f64_of_int_exact [of "int n"] by (simp add: f64_of_int_def)

lemma next_digit_small: "y < 100000000000000 \<Longrightarrow> d < (10 :: nat) \<Longrightarrow> y * 10 + d \<le> 9223372036854775808"
  by linarith

lemma leadingFraction_fixed:
  "j + k \<le> 15 \<Longrightarrow> x < 10 ^ j \<Longrightarrow> f < 10 ^ k \<Longrightarrow>
   leadingFraction (fixed k f @ s) x (Fin (10 ^ j)) False =
     leadingFraction s (x * 10 ^ k + f) (Fin (10 ^ (j + k))) False"
proof (induction k arbitrary: f s)
  case (Suc k)
  let ?y = "x * 10 ^ k + f div 10"
  have f: "f div 10 < 10 ^ k" using Suc.prems(3) by (simp add: less_mult_imp_div_less)
  have "?y < 10 ^ (j + k)"
  proof -
    have "?y < x * 10 ^ k + 10 ^ k" using f by simp
    also have "\<dots> = Suc x * 10 ^ k" by simp
    also have "\<dots> \<le> 10 ^ j * 10 ^ k" using Suc.prems(2) by (intro mult_right_mono) auto
    finally show ?thesis by (simp add: power_add)
  qed
  also have "(10 :: nat) ^ (j + k) \<le> 10 ^ 14" using Suc.prems(1) by (intro power_increasing) auto
  finally have y: "?y < 10 ^ 14" .
  have "f mod 10 < 10" by simp
  moreover have "?y < 100000000000000" using y by simp
  ultimately have "?y * 10 + f mod 10 \<le> 9223372036854775808" by (intro next_digit_small)
  then have b: "?y * 10 + f mod 10 \<le> 2 ^ 63" by simp
  have m: "f64_mul (Fin (10 ^ (j + k))) (f64_of_int 10) = Fin (10 ^ (j + Suc k))"
  proof -
    have "(10 :: nat) ^ (j + Suc k) \<le> 10 ^ 15" using Suc.prems(1) by (intro power_increasing) auto
    then have "to_f64 (of_nat (10 ^ (j + Suc k))) = Fin (of_nat (10 ^ (j + Suc k)))" by (intro to_f64_nat) simp
    then show ?thesis using pow10_exact [of 1] by (simp add: mult.commute)
  qed
  have "leadingFraction (fixed (Suc k) f @ s) x (Fin (10 ^ j)) False =
      leadingFraction (digit_char (f mod 10) # s) ?y (Fin (10 ^ (j + k))) False"
    using Suc.IH [OF _ Suc.prems(2) f] Suc.prems(1) by simp
  also have "\<dots> = leadingFraction s (?y * 10 + f mod 10) (f64_mul (Fin (10 ^ (j + k))) (f64_of_int 10)) False"
    using y b by simp
  also have "?y * 10 + f mod 10 = x * 10 ^ Suc k + f" by simp
  finally show ?case by (simp add: m)
qed simp


lemma term_value_int: "v \<le> 2 ^ 63 div unit \<Longrightarrow> term_value v 0 sc unit = Some (v * unit)"
  by (simp add: term_value_def Let_def)

lemma term_value_fraction:
  assumes "0 < f" "f < 10 ^ k" "k \<le> n" "n \<le> 9" "v * 10 ^ n + f * 10 ^ (n - k) \<le> 2 ^ 63"
  shows "term_value v f (Fin (10 ^ k)) (10 ^ n) = Some (v * 10 ^ n + f * 10 ^ (n - k))"
proof -
  have le: "(10 :: nat) ^ m \<le> 10 ^ 9" if "m \<le> 9" for m using that by (intro power_increasing) auto
  have "f * 10 ^ (n - k) \<le> 10 ^ k * 10 ^ (n - k)" using assms(2) by (intro mult_right_mono) auto
  also have "\<dots> = 10 ^ n" using assms(3) by (simp flip: power_add)
  finally have r: "f * 10 ^ (n - k) \<le> 10 ^ 9" using le [OF assms(4)] by linarith
  have "f < 10 ^ 9" using assms(2) le [of k] assms(3,4) by linarith
  then have F: "f64_of_int (int f) = Fin (of_nat f)" by (subst f64_of_int_exact) auto
  have U: "f64_of_int (int (10 ^ n)) = Fin (10 ^ n)" using pow10_exact [of n] assms(4) by simp
  have "(10 :: nat) ^ (n - k) \<le> 10 ^ 9" using le [of "n - k"] assms(4) by simp
  then have small: "10 ^ (n - k) \<le> (2 :: nat) ^ 53" by (rule order_trans) simp
  have "(10 :: rat) ^ n = 10 ^ (n - k) * 10 ^ k" using assms(3) by (simp flip: power_add)
  then have "(10 :: rat) ^ n / 10 ^ k = of_nat (10 ^ (n - k))" by simp
  then have D: "f64_div (Fin (10 ^ n)) (Fin (10 ^ k)) = Fin (of_nat (10 ^ (n - k)))"
    using to_f64_nat [OF small] by simp
  have "of_nat f * of_nat (10 ^ (n - k)) = (of_nat (f * 10 ^ (n - k)) :: rat)" by simp
  then have M: "f64_mul (Fin (of_nat f)) (Fin (of_nat (10 ^ (n - k)))) = Fin (of_nat (f * 10 ^ (n - k)))"
    using to_f64_nat [of "f * 10 ^ (n - k)"] r by (simp del: of_nat_mult)
  have "(of_nat (f * 10 ^ (n - k)) :: rat) \<le> of_nat (10 ^ 9)" using r by (simp only: of_nat_le_iff)
  then have "(of_nat (f * 10 ^ (n - k)) :: rat) < 2 ^ 63" by simp
  then have I: "f64_to_int64 (Fin (of_nat (f * 10 ^ (n - k)))) = int (f * 10 ^ (n - k))"
    by (subst f64_to_int64_Fin) (simp_all del: of_nat_mult)
  have v: "v \<le> 2 ^ 63 div 10 ^ n"
  proof -
    have "v * 10 ^ n \<le> 2 ^ 63" using assms(5) by simp
    then show ?thesis by (metis div_le_mono nonzero_mult_div_cancel_right power_not_zero zero_neq_numeral)
  qed
  have "nat (f64_to_int64 (f64_mul (f64_of_int (int f)) (f64_div (f64_of_int (int (10 ^ n))) (Fin (10 ^ k))))) = f * 10 ^ (n - k)"
    by (simp only: F U D M I nat_int)
  with v assms(1,5) show ?thesis unfolding term_value_def by (simp only: Let_def) simp
qed

text \<open>A unit of the table, and what may follow a term.\<close>

definition plain_unit :: "string \<Rightarrow> bool" where
  "plain_unit u \<longleftrightarrow> u \<noteq> [] \<and> list_all (\<lambda>c. \<not> number_char c) u"

definition term_end :: "string \<Rightarrow> bool" where
  "term_end s \<longleftrightarrow> s = [] \<or> number_char (hd s)"

lemma unit_split:
  assumes "plain_unit u" "term_end s"
  shows "takeWhile (\<lambda>c. \<not> number_char c) (u @ s) = u" "dropWhile (\<lambda>c. \<not> number_char c) (u @ s) = s"
proof -
  have "list_all (\<lambda>c. \<not> number_char c) u" using assms(1) by (simp add: plain_unit_def)
  moreover have "takeWhile (\<lambda>c. \<not> number_char c) s = []" "dropWhile (\<lambda>c. \<not> number_char c) s = s"
    using assms(2) by (cases s; auto simp: term_end_def)+
  ultimately show "takeWhile (\<lambda>c. \<not> number_char c) (u @ s) = u" "dropWhile (\<lambda>c. \<not> number_char c) (u @ s) = s"
    by (auto simp: list_all_iff takeWhile_append2 dropWhile_append2 takeWhile_append dropWhile_append)
qed

lemma digit_number: "d < 10 \<Longrightarrow> number_char (digit_char d)"
  by (simp add: number_char_def)

lemma utoa_hd_number: "number_char (hd (utoa n @ s))"
  using utoa_Cons [of n] digit_number by force

lemma plain_unit_stops: "plain_unit u \<Longrightarrow> stops (u @ s) \<and> hd (u @ s) \<noteq> CHR ''.''"
  by (cases u) (auto simp: plain_unit_def stops_def number_char_def)

lemma parse_term_int:
  assumes "plain_unit u" "map_of unitMap u = Some unit" "0 < unit" "term_end s" "v * unit \<le> 2 ^ 63"
  shows "parse_term (fmtInt v (u @ s)) = Some (v * unit, s)"
proof -
  have v: "v \<le> 2 ^ 63 div unit" using assms(3,5) by (simp add: less_eq_div_iff_mult_less_eq)
  then have "v \<le> 2 ^ 63" by (rule order_trans) simp
  then have li: "leadingInt (utoa v @ u @ s) 0 = Some (v, u @ s)"
    using plain_unit_stops [OF assms(1), of s] by (simp add: leadingInt_utoa leadingInt_stop)
  have u: "u \<noteq> []" using assms(1) by (simp add: plain_unit_def)
  show ?thesis
    unfolding parse_term_def fmtInt_def
    using utoa_hd_number [of v "u @ s"] plain_unit_stops [OF assms(1), of s] u
    by (simp add: li unit_split [OF assms(1,4)] assms(2) term_value_int [OF v] Let_def)
qed

lemma parse_term_frac:
  assumes "plain_unit u" "map_of unitMap u = Some (10 ^ n)" "n \<le> 9" "v * 10 ^ n + w mod 10 ^ n \<le> 2 ^ 63"
  shows "parse_term (fmtInt v (fst (fmtFrac w n u))) = Some (v * 10 ^ n + w mod 10 ^ n, [])"
proof -
  have end_ok: "term_end []" by (simp add: term_end_def)
  from fmtFrac_loop_False [of w n u] show ?thesis
  proof (elim disjE exE conjE)
    assume "w mod 10 ^ n = 0" "fmtFrac_loop n w False u = (False, u, w div 10 ^ n)"
    with parse_term_int [OF assms(1,2) _ end_ok, of v] assms(4) show ?thesis by (simp add: fmtFrac_def)
  next
    fix k f
    assume k: "k \<le> n" "0 < k" "0 < f" "f < 10 ^ k" "w mod 10 ^ n = f * 10 ^ (n - k)"
      and loop: "fmtFrac_loop n w False u = (True, fixed k f @ u, w div 10 ^ n)"
    have "v \<le> v * 10 ^ n" by simp
    with assms(4) have "v \<le> 2 ^ 63" by linarith
    then have li: "leadingInt (utoa v @ CHR ''.'' # fixed k f @ u) 0 = Some (v, CHR ''.'' # fixed k f @ u)"
      by (simp add: leadingInt_utoa leadingInt_stop stops_def digit_val_def)
    have "leadingFraction u f (Fin (10 ^ k)) False = (f, Fin (10 ^ k), u)"
      using plain_unit_stops [OF assms(1), of "[]"] by (cases u) (auto simp: stops_def)
    then have lf: "leadingFraction (fixed k f @ u) 0 (Fin 1) False = (f, Fin (10 ^ k), u)"
      using leadingFraction_fixed [of 0 k 0 f u] k(1,4) assms(3) by simp
    have u: "u \<noteq> []" using assms(1) by (simp add: plain_unit_def)
    show ?thesis
      unfolding parse_term_def fmtInt_def
      using utoa_hd_number [of v "CHR ''.'' # fixed k f @ u"] u k(2) assms(4)
        term_value_fraction [OF k(3,4,1) assms(3)]
      by (simp add: fmtFrac_def loop li lf unit_split [OF assms(1) end_ok, unfolded append_Nil2] assms(2) Let_def k(5))
  qed
qed


lemma snd_fmtFrac: "snd (fmtFrac w n buf) = w div 10 ^ n"
  using fmtFrac_loop_False [of w n buf] by (auto simp: fmtFrac_def)

lemma parse_terms_Nil: "parse_terms [] d = Some d"
  by (simp add: parse_terms.simps)

lemma parse_terms_step:
  "parse_term s = Some (v, r) \<Longrightarrow> d + v \<le> 2 ^ 63 \<Longrightarrow> parse_terms s d = parse_terms r (d + v)"
proof -
  assume a: "parse_term s = Some (v, r)" "d + v \<le> 2 ^ 63"
  then have "s \<noteq> []" by (auto simp: parse_term_def)
  moreover have "(d + v) mod 2 ^ 64 = d + v" using a(2) by simp
  ultimately show ?thesis using a by (subst parse_terms.simps) (simp add: Let_def)
qed

lemma units:
  "plain_unit ''ns''" "plain_unit [CHR 0xC2, CHR 0xB5, CHR ''s'']" "plain_unit ''ms''" "plain_unit ''s''"
  "plain_unit ''m''" "plain_unit ''h''"
  "map_of unitMap ''ns'' = Some (10 ^ 0)" "map_of unitMap [CHR 0xC2, CHR 0xB5, CHR ''s''] = Some (10 ^ 3)"
  "map_of unitMap ''ms'' = Some (10 ^ 6)" "map_of unitMap ''s'' = Some (10 ^ 9)"
  "map_of unitMap ''m'' = Some 60000000000" "map_of unitMap ''h'' = Some 3600000000000"
  by (simp_all add: plain_unit_def number_char_def digit_val_def unitMap_def)

lemma parse_terms_frac:
  assumes "plain_unit u" "map_of unitMap u = Some (10 ^ n)" "n \<le> 9" "d + (v * 10 ^ n + w mod 10 ^ n) \<le> 2 ^ 63"
  shows "parse_terms (fmtInt v (fst (fmtFrac w n u))) d = Some (d + (v * 10 ^ n + w mod 10 ^ n))"
  using parse_terms_step [OF parse_term_frac [OF assms(1-3)]] assms(4) by (simp add: parse_terms_Nil)

lemma fmt_small_eq:
  "fmt_small w =
     (if w < 1000 then fmtInt (w div 10 ^ 0) (fst (fmtFrac w 0 ''ns''))
      else if w < 1000000 then fmtInt (w div 10 ^ 3) (fst (fmtFrac w 3 [CHR 0xC2, CHR 0xB5, CHR ''s'']))
      else fmtInt (w div 10 ^ 6) (fst (fmtFrac w 6 ''ms'')))"
  by (simp add: fmt_small_def Let_def split_beta snd_fmtFrac)

lemma parse_fmt_small: "w < 1000000000 \<Longrightarrow> parse_terms (fmt_small w) 0 = Some w"
  unfolding fmt_small_eq using parse_terms_frac [OF units(1,7), of 0 "w div 10 ^ 0" w]
    parse_terms_frac [OF units(2,8), of 0 "w div 10 ^ 3" w] parse_terms_frac [OF units(3,9), of 0 "w div 10 ^ 6" w]
  by (auto simp: div_mult_mod_eq)

lemma term_end_fmtInt: "term_end (fmtInt v buf)"
  unfolding term_end_def fmtInt_def by (rule disjI2) (rule utoa_hd_number)

lemma parse_terms_int:
  assumes "plain_unit u" "map_of unitMap u = Some unit" "0 < unit" "term_end s" "d + v * unit \<le> 2 ^ 63"
  shows "parse_terms (fmtInt v (u @ s)) d = parse_terms s (d + v * unit)"
  using parse_terms_step [OF parse_term_int [OF assms(1-4)]] assms(5) by simp

lemma parse_fmt_large: "w \<le> 2 ^ 63 \<Longrightarrow> parse_terms (fmt_large w) 0 = Some w"
proof -
  assume w: "w \<le> 2 ^ 63"
  define q where "q = w div 10 ^ 9"
  define m where "m = q div 60"
  define h where "h = m div 60"
  let ?s = "fmtInt (q mod 60) (fst (fmtFrac w 9 ''s''))"
  let ?m = "fmtInt (m mod 60) (''m'' @ ?s)"
  have eqs: "w = q * 1000000000 + w mod 1000000000" "q = m * 60 + q mod 60" "m = h * 60 + m mod 60"
    by (simp_all add: q_def m_def h_def)
  have fmt: "fmt_large w = (if m > 0 then if h > 0 then fmtInt h (''h'' @ ?m) else ?m else ?s)"
    unfolding fmt_large_def q_def m_def h_def by (simp add: split_beta snd_fmtFrac Let_def)
  have s: "parse_terms ?s d = Some (d + ((q mod 60) * 10 ^ 9 + w mod 10 ^ 9))"
    if "d + ((q mod 60) * 10 ^ 9 + w mod 10 ^ 9) \<le> 2 ^ 63" for d
    using parse_terms_frac [OF units(4,10) _ that] by simp
  have m: "parse_terms ?m d = parse_terms ?s (d + (m mod 60) * 60000000000)"
    if "d + (m mod 60) * 60000000000 \<le> 2 ^ 63" for d
    using parse_terms_int [OF units(5,11) _ term_end_fmtInt that] by simp
  have h: "parse_terms (fmtInt h (''h'' @ ?m)) 0 = parse_terms ?m (h * 3600000000000)"
    if "h * 3600000000000 \<le> 2 ^ 63"
    using parse_terms_int [OF units(6,12) _ term_end_fmtInt, of 0 h] that by simp
  consider "m = 0" | "m > 0" "h = 0" | "m > 0" "h > 0" by blast
  then show ?thesis
  proof cases
    case 1
    then have "(q mod 60) * 1000000000 + w mod 1000000000 = w" using eqs by simp
    with 1 s [of 0] w show ?thesis by (simp add: fmt)
  next
    case 2
    then have "(m mod 60) * 60000000000 + ((q mod 60) * 1000000000 + w mod 1000000000) = w" using eqs by linarith
    with 2 m [of 0] s [of "(m mod 60) * 60000000000"] w show ?thesis by (simp add: fmt)
  next
    case 3
    have "h * 3600000000000 + (m mod 60) * 60000000000 + ((q mod 60) * 1000000000 + w mod 1000000000) = w"
      using eqs by linarith
    with 3 h m [of "h * 3600000000000"] s [of "h * 3600000000000 + (m mod 60) * 60000000000"] w
    show ?thesis by (simp add: fmt)
  qed
qed

lemma fmt_text: "w \<noteq> 0 \<Longrightarrow> \<exists>v buf. (if w < nat second then fmt_small w else fmt_large w) = fmtInt v buf \<and> buf \<noteq> []"
proof -
  have "fst (fmtFrac w n u) \<noteq> []" if "u \<noteq> []" for n u
    using fmtFrac_loop_False [of w n u] that by (auto simp: fmtFrac_def)
  then show ?thesis
    by (auto simp: fmt_small_eq fmt_large_def Let_def split_beta)
qed

text \<open>C27: durations survive their text form: every 64-bit duration, printed as \<open>check\<close> prints
  it, is read back as the same number of nanoseconds, fractions and the least duration
  included.\<close>

theorem duration_roundtrip:
  assumes "in_int64 d"
  shows "Duration_UnmarshalText (Duration_MarshalText d) = Some d"
proof (cases "d = 0")
  case True
  have "term_end []" by (simp add: term_end_def)
  from parse_terms_int [OF units(4,10) _ this, of 0 0] have "parse_terms (fmtInt 0 ''s'') 0 = Some 0"
    by (simp add: parse_terms_Nil)
  moreover have "fmtInt 0 ''s'' = ''0s''" by (simp add: fmtInt_def utoa.simps [of 0]) code_simp
  ultimately have "parse_terms ''0s'' 0 = Some 0" by simp
  with True show ?thesis
    by (simp add: Duration_UnmarshalText_def Duration_MarshalText_def Duration_String_def Duration_format_def ParseDuration_def)
next
  case False
  let ?w = "nat \<bar>d\<bar>"
  let ?t = "if ?w < nat second then fmt_small ?w else fmt_large ?w"
  have w: "?w \<noteq> 0" "?w \<le> 2 ^ 63" using False assms by (auto simp: int64_defs)
  have p: "parse_terms ?t 0 = Some ?w"
    using parse_fmt_small [of ?w] parse_fmt_large [OF w(2)] by (simp add: second_def)
  obtain v buf where t: "?t = fmtInt v buf" "buf \<noteq> []" using fmt_text [OF w(1)] by blast
  obtain c cs where u: "c < 10" "utoa v = digit_char c # cs" using utoa_Cons by blast
  have hd: "?t \<noteq> []" "hd ?t \<noteq> CHR ''-''" "hd ?t \<noteq> CHR ''+''" "?t \<noteq> ''0''"
    unfolding t(1) fmtInt_def using u digit_char_not_sign [of c] t(2) by auto
  have f: "Duration_format d = (if d < 0 then CHR ''-'' # ?t else ?t)"
    using w(1) by (simp add: Duration_format_def Let_def)
  show ?thesis
    unfolding Duration_UnmarshalText_def Duration_MarshalText_def Duration_String_def f
  proof (cases "d < 0")
    case True
    have "wrap64 (- int ?w) = d" using True assms by simp
    then show "ParseDuration (if d < 0 then CHR ''-'' # ?t else ?t) = Some d"
      using True hd p by (simp add: ParseDuration_def)
  next
    case False
    then have "?w \<le> 2 ^ 63 - 1" using assms by (auto simp: int64_defs)
    then show "ParseDuration (if d < 0 then CHR ''-'' # ?t else ?t) = Some d"
      using False hd p by (simp add: ParseDuration_def)
  qed
qed

lemma duration_roundtrip_witness:
  "Duration_UnmarshalText (Duration_MarshalText (- 5400001500000)) = Some (- 5400001500000)"
  by (rule duration_roundtrip) (simp add: int64_defs)

text \<open>Spellings the documents use.\<close>

lemma ParseDuration_examples:
  "ParseDuration ''0'' = Some 0" "ParseDuration ''30'' = None" "ParseDuration [] = None"
  by (simp_all add: ParseDuration_def parse_terms.simps [of "''30''"] parse_term_def digit_val_def number_char_def)

end
