(* ===== verification/GoFmt.thy ===== *)
theory GoFmt
  imports Durations
begin

text \<open>
  What the program uses of Go's \<open>fmt\<close> and \<open>strconv.Quote\<close>: the verbs \<open>%d\<close>, \<open>%s\<close>, \<open>%q\<close> and
  \<open>%g\<close> over strings, integers, durations and doubles.  Two things are arguments: the table of
  \<open>unicode.IsPrint\<close> above Latin-1 (\<open>is_print\<close>) and the decimal digits \<open>%g\<close> prints (\<open>gfmt\<close>).
\<close>

section \<open>Quoting\<close>

text \<open>The code point of one UTF-8 sequence.\<close>

definition rune_val :: "string \<Rightarrow> nat" where
  "rune_val w = (case map byte w of
     [a] \<Rightarrow> a
   | [a, b] \<Rightarrow> a mod 32 * 64 + b mod 64
   | [a, b, c] \<Rightarrow> a mod 16 * 4096 + b mod 64 * 64 + c mod 64
   | [a, b, c, d] \<Rightarrow> a mod 8 * 262144 + b mod 64 * 4096 + c mod 64 * 64 + d mod 64
   | _ \<Rightarrow> 0)"

definition lowerhex :: string where "lowerhex = ''0123456789abcdef''"

fun hex_digits :: "nat \<Rightarrow> nat \<Rightarrow> string" where
  "hex_digits 0 n = []"
| "hex_digits (Suc k) n = hex_digits k (n div 16) @ [lowerhex ! (n mod 16)]"

text \<open>\<open>strconv.IsPrint\<close>: computed up to Latin-1, a table above.\<close>

definition IsPrint :: "(nat \<Rightarrow> bool) \<Rightarrow> nat \<Rightarrow> bool" where
  "IsPrint is_print r =
     (if r \<le> 0xFF then (0x20 \<le> r \<and> r < 0x7F) \<or> (0xA1 \<le> r \<and> r \<noteq> 0xAD) else is_print r)"

text \<open>\<open>appendEscapedRune\<close> for the double quote; \<open>w\<close> is the encoding of the rune.\<close>

definition escaped_rune :: "(nat \<Rightarrow> bool) \<Rightarrow> string \<Rightarrow> string" where
  "escaped_rune is_print w =
     (let r = rune_val w in
      if r = 34 \<or> r = 92 then CHR 0x5C # w
      else if IsPrint is_print r then w
      else case map_of [(7, CHR ''a''), (8, CHR ''b''), (12, CHR ''f''), (10, CHR ''n''), (13, CHR ''r''),
          (9, CHR ''t''), (11, CHR ''v'')] r of
        Some c \<Rightarrow> [CHR 0x5C, c]
      | None \<Rightarrow>
          if r < 32 \<or> r = 0x7F then [CHR 0x5C, CHR ''x''] @ hex_digits 2 r
          else if r < 0x10000 then [CHR 0x5C, CHR ''u''] @ hex_digits 4 r
          else [CHR 0x5C, CHR ''U''] @ hex_digits 8 r)"

function quote_body :: "(nat \<Rightarrow> bool) \<Rightarrow> string \<Rightarrow> string" where
  "quote_body is_print s =
     (if s = [] then []
      else if rune_len s = 0 then [CHR 0x5C, CHR ''x''] @ hex_digits 2 (byte (hd s)) @ quote_body is_print (drop 1 s)
      else escaped_rune is_print (take (rune_len s) s) @ quote_body is_print (drop (rune_len s) s))"
  by pat_completeness auto
termination
  by (relation "measure (length \<circ> snd)") auto

declare quote_body.simps [simp del]

definition go_quote :: "(nat \<Rightarrow> bool) \<Rightarrow> string \<Rightarrow> string" where
  "go_quote is_print s = [CHR 0x22] @ quote_body is_print s @ [CHR 0x22]"

section \<open>Sprintf\<close>

datatype fmtarg = FStr string | FInt gint | FDur duration | FFloat f64

text \<open>One verb on one argument; \<open>None\<close> where \<open>fmt\<close> would print the mismatch instead.\<close>

definition render_verb :: "(nat \<Rightarrow> bool) \<Rightarrow> (f64 \<Rightarrow> string) \<Rightarrow> char \<Rightarrow> fmtarg \<Rightarrow> string option" where
  "render_verb is_print gfmt v a = (case a of
     FStr s \<Rightarrow> if v = CHR ''s'' then Some s else if v = CHR ''q'' then Some (go_quote is_print s) else None
   | FInt n \<Rightarrow> if v = CHR ''d'' then Some (itoa n) else None
   | FDur d \<Rightarrow> if v = CHR ''s'' then Some (Duration_String d) else None
   | FFloat x \<Rightarrow> if v = CHR ''g'' then Some (gfmt x) else None)"

text \<open>\<open>fmt.Sprintf\<close>; \<open>None\<close> also for a verb without an argument and arguments without a verb.\<close>

fun Sprintf :: "(nat \<Rightarrow> bool) \<Rightarrow> (f64 \<Rightarrow> string) \<Rightarrow> string \<Rightarrow> fmtarg list \<Rightarrow> string option" where
  "Sprintf is_print gfmt [] [] = Some []"
| "Sprintf is_print gfmt [] (a # args) = None"
| "Sprintf is_print gfmt (c # s) args =
     (if c \<noteq> CHR ''%'' then map_option ((#) c) (Sprintf is_print gfmt s args)
      else case s of
        [] \<Rightarrow> None
      | v # s' \<Rightarrow>
          if v = CHR ''%'' then map_option ((#) v) (Sprintf is_print gfmt s' args)
          else case args of
            [] \<Rightarrow> None
          | a # args' \<Rightarrow>
              (case render_verb is_print gfmt v a of
                 None \<Rightarrow> None
               | Some t \<Rightarrow> map_option ((@) t) (Sprintf is_print gfmt s' args')))"

lemma Sprintf_example:
  "Sprintf p g ''%q: %s'' [FStr ''a'', FStr ''b''] = Some [CHR 0x22, CHR ''a'', CHR 0x22, CHR '':'', CHR '' '', CHR ''b'']"
  by (simp add: render_verb_def go_quote_def quote_body.simps rune_len_def escaped_rune_def rune_val_def IsPrint_def)

section \<open>One line\<close>

text \<open>A quoted string and everything printed for a number or a duration stays on its line,
  whatever it is made from.\<close>

definition one_line :: "string \<Rightarrow> bool" where
  "one_line s \<longleftrightarrow> CHR 0x0A \<notin> set s"

lemma one_line_simps [simp]:
  "one_line []" "one_line (c # s) \<longleftrightarrow> c \<noteq> CHR 0x0A \<and> one_line s" "one_line (s @ t) \<longleftrightarrow> one_line s \<and> one_line t"
  by (auto simp: one_line_def)

lemma one_line_hex: "one_line (hex_digits k n)"
proof (induction k arbitrary: n)
  case (Suc k)
  have "lowerhex ! (n mod 16) \<in> set lowerhex" by (rule nth_mem) (simp add: lowerhex_def)
  then have "lowerhex ! (n mod 16) \<noteq> CHR 0x0A" by (auto simp: lowerhex_def)
  with Suc show ?case by simp
qed simp

lemma rune2_cont: "rune2_ok a b \<Longrightarrow> 0x80 \<le> byte b"
  by (auto simp: rune2_ok_def Let_def split: if_splits)

lemma rune_bytes_low:
  assumes "rune_len s \<noteq> 0"
  shows "(\<exists>a. take (rune_len s) s = [a]) \<or> (\<forall>c \<in> set (take (rune_len s) s). 0x80 \<le> byte c)"
proof (cases s)
  case (Cons a t)
  show ?thesis
  proof (cases "byte a < 0x80")
    case True
    with Cons show ?thesis by (simp add: rune_len_def)
  next
    case False
    with assms Cons show ?thesis
      by (auto simp: rune_len_def cont_def dest: rune2_cont split: list.splits if_splits)
  qed
qed (use assms in \<open>simp add: rune_len_def\<close>)

lemma one_line_rune:
  assumes "rune_len s \<noteq> 0"
  shows "one_line (escaped_rune p (take (rune_len s) s))"
proof -
  let ?w = "take (rune_len s) s"
  have w: "one_line ?w" if "rune_val ?w \<noteq> 10"
    using rune_bytes_low [OF assms]
  proof
    assume "\<exists>a. ?w = [a]"
    then obtain a where a: "?w = [a]" by blast
    have "byte (CHR 0x0A) = 10" by simp
    then have "a \<noteq> CHR 0x0A" using that unfolding a by (auto simp: rune_val_def)
    with a show ?thesis by simp
  next
    assume "\<forall>c \<in> set ?w. 0x80 \<le> byte c"
    then show ?thesis by (force simp: one_line_def)
  qed
  show ?thesis
    using w one_line_hex by (auto simp: escaped_rune_def Let_def IsPrint_def split: if_splits)
qed

lemma one_line_quote: "one_line (go_quote p s)"
proof -
  have "one_line (quote_body p s)"
  proof (induction p s rule: quote_body.induct)
    case (1 p s)
    then show ?case by (subst quote_body.simps) (auto simp: one_line_rune one_line_hex)
  qed
  then show ?thesis by (simp add: go_quote_def)
qed

lemma one_line_utoa: "one_line (utoa n)"
proof -
  have "digit_char d \<noteq> CHR 0x0A" if "d < 10" for d
    using byte_digit_char [OF that] by (auto dest!: arg_cong [of _ _ byte])
  then show ?thesis using utoa_digits by (fastforce simp: one_line_def)
qed

lemma one_line_itoa: "one_line (itoa n)"
  by (simp add: itoa_def one_line_utoa)

lemma one_line_frac: "one_line buf \<Longrightarrow> one_line (fst (fmtFrac v n buf))"
proof -
  have digit: "digit_char (d mod 10) \<noteq> CHR 0x0A" for d
    using byte_digit_char [of "d mod 10"] by (auto dest!: arg_cong [of _ _ byte])
  have "one_line buf \<Longrightarrow> one_line (fst (snd (fmtFrac_loop n v b buf)))" for b
    by (induction n v b buf rule: fmtFrac_loop.induct) (auto simp: Let_def digit)
  then show "one_line buf \<Longrightarrow> ?thesis" by (simp add: fmtFrac_def split_beta)
qed

lemma one_line_duration: "one_line (Duration_String d)"
  by (auto simp: Duration_String_def Duration_format_def fmt_small_def fmt_large_def fmtInt_def Let_def split_beta
      one_line_utoa one_line_frac)

text \<open>Whether each verb of a format finds an argument of its type, none is left over, and
  neither the literal text nor a string shown with \<open>%s\<close> breaks the line.\<close>

definition verb_fits :: "char \<Rightarrow> fmtarg \<Rightarrow> bool" where
  "verb_fits v a = (case a of
     FStr s \<Rightarrow> v = CHR ''q'' \<or> (v = CHR ''s'' \<and> one_line s)
   | FInt n \<Rightarrow> v = CHR ''d'' | FDur d \<Rightarrow> v = CHR ''s'' | FFloat x \<Rightarrow> v = CHR ''g'')"

fun fits :: "string \<Rightarrow> fmtarg list \<Rightarrow> bool" where
  "fits [] args \<longleftrightarrow> args = []"
| "fits (c # s) args \<longleftrightarrow>
     (if c \<noteq> CHR ''%'' then c \<noteq> CHR 0x0A \<and> fits s args
      else case s of
        [] \<Rightarrow> False
      | v # s' \<Rightarrow> if v = CHR ''%'' then fits s' args
                 else (case args of [] \<Rightarrow> False | a # args' \<Rightarrow> verb_fits v a \<and> fits s' args'))"

lemma verb_fits:
  assumes "verb_fits v a" "\<And>x. one_line (g x)"
  obtains t where "render_verb p g v a = Some t" "one_line t"
  using assms one_line_quote one_line_itoa one_line_duration
  by (cases a) (auto simp: render_verb_def verb_fits_def split: if_splits)

lemma fits_renders:
  assumes "\<And>x. one_line (g x)"
  shows "fits f args \<Longrightarrow> \<exists>t. Sprintf p g f args = Some t \<and> one_line t"
proof (induction f args rule: fits.induct)
  case (2 c s args)
  show ?case
  proof (cases "c = CHR ''%''")
    case False
    with 2 show ?thesis by auto
  next
    case c: True
    then obtain v s' where s: "s = v # s'" using 2(4) by (cases s) auto
    show ?thesis
    proof (cases "v = CHR ''%''")
      case True
      with 2(2) [OF _ s True] 2(4) c s show ?thesis by auto
    next
      case False
      then obtain a args' where a: "args = a # args'" "verb_fits v a" "fits s' args'" using 2(4) c s by (auto split: list.splits)
      obtain x where "render_verb p g v a = Some x" "one_line x" using verb_fits [OF a(2) assms] .
      moreover obtain u where "Sprintf p g s' args' = Some u" "one_line u" using 2(3) [OF _ s False a(1,3)] c by auto
      ultimately show ?thesis using c s False a(1) by auto
    qed
  qed
qed simp

end
