(* ===== verification/Validate.thy ===== *)
theory Validate
  imports Config GoFmt
begin

text \<open>
  The validation half of \<open>internal/config/resolve.go\<close> and \<open>Finalize\<close>.  A violation is the
  call the source makes to its \<open>bad\<close> closure: the key, the format string and its
  arguments, unrendered.  The entries of the two small maps the source ranges over
  (\<open>validateHTTP\<close>, \<open>validateProcess\<close>) are listed in source order; Go visits them in any
  order, which permutes at most three entries of the error list.

  \<open>valid_pool\<close> and \<open>valid_config\<close> state declaratively what the validator accepts;
  \<open>documented_config\<close> states the rules of the README, the comments of the full example config
  and the messages.  The lemmas show that the two differ in two points only.
\<close>

type_synonym violation = "string \<times> string \<times> fmtarg list"

definition bad :: "string \<Rightarrow> string \<Rightarrow> fmtarg list \<Rightarrow> violation" where
  "bad key fmt args = (key, fmt, args)"

definition guard :: "bool \<Rightarrow> violation \<Rightarrow> violation list" where
  "guard b e = (if b then [e] else [])"

section \<open>One pool\<close>

definition validateSpawn :: "PoolConfig \<Rightarrow> violation list" where
  "validateSpawn p =
     guard (pc_Command p = []) (bad ''command'' ''must not be empty'' []) @
     guard (pc_Concurrency p < 1) (bad ''concurrency'' ''must be >= 1, got %d'' [FInt (pc_Concurrency p)]) @
     guard (pc_PokeCount p < 0 \<or> pc_PokeCount p > pc_Concurrency p)
       (bad ''poke_count'' ''must be 0..concurrency (%d), got %d'' [FInt (pc_Concurrency p), FInt (pc_PokeCount p)])"

definition validateExitCodes :: "PoolConfig \<Rightarrow> violation list" where
  "validateExitCodes p =
     guard (pc_OkExitCodes p = []) (bad ''ok_exit_codes'' ''must not be empty'' []) @
     concat (map (\<lambda>code. guard (code < 0 \<or> code > 255)
                          (bad ''ok_exit_codes'' ''codes must be 0..255, got %d'' [FInt code]))
                 (pc_OkExitCodes p))"

definition validateBreaker :: "PoolConfig \<Rightarrow> violation list" where
  "validateBreaker p =
     guard (pc_ExitFailureThreshold p < 0)
       (bad ''exit_failure_threshold'' ''must be >= 0, got %d'' [FInt (pc_ExitFailureThreshold p)]) @
     guard (pc_ExitFailureWindow p \<le> 0)
       (bad ''exit_failure_window'' ''must be > 0, got %s'' [FDur (pc_ExitFailureWindow p)])"

definition validateCooldown :: "PoolConfig \<Rightarrow> violation list" where
  "validateCooldown p =
     guard (pc_ExitCooldown p < 0)
       (bad ''exit_cooldown'' ''must be >= 0, got %s'' [FDur (pc_ExitCooldown p)]) @
     guard (pc_ExitCooldownMax p < pc_ExitCooldown p)
       (bad ''exit_cooldown_max'' ''must be >= exit_cooldown (%s), got %s''
          [FDur (pc_ExitCooldown p), FDur (pc_ExitCooldownMax p)]) @
     guard (f64_less (pc_ExitCooldownMultiplier p) (Fin 1))
       (bad ''exit_cooldown_multiplier'' ''must be >= 1, got %g'' [FFloat (pc_ExitCooldownMultiplier p)])"

definition validateProcess :: "PoolConfig \<Rightarrow> violation list" where
  "validateProcess p =
     concat (map (\<lambda>(key, d). guard (d < 0) (bad key ''must be >= 0, got %s'' [FDur d]))
       [(''ttl'', pc_TTL p), (''poke'', pc_Poke p), (''grace_shutdown'', pc_GraceShutdown p)]) @
     guard (pc_TermSignal p = 0) (bad ''term_signal'' ''must be a known signal'' []) @
     guard (pc_ResultStream p \<notin> {''stdout'', ''stderr'', ''none''})
       (bad ''result_stream'' ''must be stdout, stderr or none, got %q'' [FStr (pc_ResultStream p)])"

definition PoolConfig_validate :: "PoolConfig \<Rightarrow> violation list" where
  "PoolConfig_validate p =
     validateSpawn p @ validateExitCodes p @ validateBreaker p @ validateCooldown p @ validateProcess p"

section \<open>The document\<close>

definition validateLog :: "Config \<Rightarrow> violation list" where
  "validateLog c =
     guard (Log_Format (cfg_Log c) \<notin> {''text'', ''json''})
       (bad ''log.format'' ''must be text or json, got %q'' [FStr (Log_Format (cfg_Log c))]) @
     guard (Log_ChildOutput (cfg_Log c) \<noteq> [])
       (bad ''log.child_output''
          (''removed, worker output is no longer forwarded; '' @
           ''use pools._defaults.result_stream to pick the stream doorbell reads the task count from'') []) @
     guard (Log_TimestampFormat (cfg_Log c) = [])
       (bad ''log.timestamp_format'' ''must not be empty'' [])"

text \<open>The loop over the three paths; \<open>seen\<close> maps a path to the key that used it last.\<close>

fun validatePaths :: "(string \<times> string) list \<Rightarrow> string gmap \<Rightarrow> violation list" where
  "validatePaths [] seen = []"
| "validatePaths ((key, p) # rest) seen =
     guard (\<not> has_prefix p ''/'') (bad key ''must start with /, got %q'' [FStr p]) @
     (case map_of seen p of
        Some other \<Rightarrow> [bad key ''%q is already used by %s'' [FStr p, FStr other]]
      | None \<Rightarrow> []) @
     validatePaths rest (gmap_put p key seen)"

definition http_paths :: "HTTP \<Rightarrow> (string \<times> string) list" where
  "http_paths h =
     [(''http.hint_path'', HTTP_HintPath h), (''http.health_path'', HTTP_HealthPath h),
      (''http.metrics_path'', HTTP_MetricsPath h)]"

definition validateHTTPPaths :: "Config \<Rightarrow> violation list" where
  "validateHTTPPaths c = validatePaths (http_paths (cfg_HTTP c)) []"

definition validateHTTP :: "Config \<Rightarrow> violation list" where
  "validateHTTP c =
     guard (HTTP_Addr (cfg_HTTP c) = []) (bad ''http.addr'' ''required when http is enabled'' []) @
     validateHTTPPaths c @
     concat (map (\<lambda>(key, d). guard (d < 0) (bad key ''must be >= 0, got %s'' [FDur d]))
       [(''http.read_timeout'', HTTP_ReadTimeout (cfg_HTTP c)),
        (''http.write_timeout'', HTTP_WriteTimeout (cfg_HTTP c)),
        (''http.shutdown_timeout'', HTTP_ShutdownTimeout (cfg_HTTP c))])"

definition validateRedisBackoff :: "Config \<Rightarrow> violation list" where
  "validateRedisBackoff c =
     guard (Redis_ReconnectMin (cfg_Redis c) \<le> 0)
       (bad ''redis.reconnect_min'' ''must be > 0, got %s'' [FDur (Redis_ReconnectMin (cfg_Redis c))]) @
     guard (Redis_ReconnectMax (cfg_Redis c) < Redis_ReconnectMin (cfg_Redis c))
       (bad ''redis.reconnect_max'' ''must be >= reconnect_min (%s), got %s''
          [FDur (Redis_ReconnectMin (cfg_Redis c)), FDur (Redis_ReconnectMax (cfg_Redis c))])"

definition validateRedis :: "Config \<Rightarrow> violation list" where
  "validateRedis c =
     guard (Redis_Addr (cfg_Redis c) = []) (bad ''redis.addr'' ''required when redis is enabled'' []) @
     guard (Redis_DB (cfg_Redis c) < 0) (bad ''redis.db'' ''must be >= 0, got %d'' [FInt (Redis_DB (cfg_Redis c))]) @
     guard (Redis_DialTimeout (cfg_Redis c) < 0)
       (bad ''redis.dial_timeout'' ''must be >= 0, got %s'' [FDur (Redis_DialTimeout (cfg_Redis c))]) @
     validateRedisBackoff c"

definition validateSources :: "Config \<Rightarrow> violation list" where
  "validateSources c =
     guard (\<not> HTTP_IsEnabled (cfg_HTTP c) \<and> \<not> Redis_IsEnabled (cfg_Redis c))
       (bad ''http.enabled/redis.enabled'' ''at least one hint source must be enabled'' []) @
     (if HTTP_IsEnabled (cfg_HTTP c) then validateHTTP c else []) @
     (if Redis_IsEnabled (cfg_Redis c) then validateRedis c else [])"

definition enabledPools_count :: "Config \<Rightarrow> nat" where
  "enabledPools_count c = length (filter pc_Enabled (ResolvedPools c))"

text \<open>The loop over the resolved pools; \<open>channels\<close> maps a channel to its owner.\<close>

fun validatePoolList :: "PoolConfig list \<Rightarrow> string gmap \<Rightarrow> violation list" where
  "validatePoolList [] channels = []"
| "validatePoolList (p # ps) channels =
     (let key = ''pools.'' @ pc_Name p in
      (case map_of channels (pc_Channel p) of
         Some owner \<Rightarrow> [bad (key @ ''.channel'') ''%q is already used by %s'' [FStr (pc_Channel p), FStr owner]]
       | None \<Rightarrow> []) @
      map (\<lambda>(k, fmt, args). bad (key @ ''.'' @ k) fmt args) (PoolConfig_validate p) @
      validatePoolList ps (gmap_put (pc_Channel p) key channels))"

definition validatePools :: "Config \<Rightarrow> violation list" where
  "validatePools c =
     validatePoolList (ResolvedPools c) [] @
     guard (enabledPools_count c = 0) (bad ''pools'' ''at least one enabled pool is required'' [])"

definition Config_validate :: "Config \<Rightarrow> violation list" where
  "Config_validate c =
     validateLog c @ validateSources c @
     guard (Metrics_IsEnabled (cfg_Metrics c) \<and> Metrics_Namespace (cfg_Metrics c) = [])
       (bad ''metrics.namespace'' ''must not be empty'' []) @
     guard (cfg_ShutdownTimeout c \<le> 0)
       (bad ''shutdown_timeout'' ''must be > 0, got %s'' [FDur (cfg_ShutdownTimeout c)]) @
     validatePools c"

text \<open>\<open>Finalize\<close>: the defaulted document, or every violation found.\<close>

definition Finalize :: "Config \<Rightarrow> violation list + Config" where
  "Finalize c = (let c' = applyDefaults c; errs = Config_validate c'
                 in if errs = [] then Inr c' else Inl errs)"

section \<open>The rules, declaratively\<close>

text \<open>A number of at least 1, which a NaN is not.\<close>

definition at_least_1 :: "f64 \<Rightarrow> bool" where
  "at_least_1 x \<longleftrightarrow> (case x of Fin r \<Rightarrow> 1 \<le> r | PosInf \<Rightarrow> True | _ \<Rightarrow> False)"

lemma less_1_iff: "f64_less x (Fin 1) \<longleftrightarrow> x \<noteq> NaN \<and> \<not> at_least_1 x"
  by (cases x) (auto simp: at_least_1_def)

text \<open>What the validator accepts.  The multiplier is compared by \<open><\<close>, so a NaN passes.\<close>

definition valid_pool :: "PoolConfig \<Rightarrow> bool" where
  "valid_pool p \<longleftrightarrow>
     pc_Command p \<noteq> [] \<and> 1 \<le> pc_Concurrency p \<and>
     0 \<le> pc_PokeCount p \<and> pc_PokeCount p \<le> pc_Concurrency p \<and>
     pc_OkExitCodes p \<noteq> [] \<and> (\<forall>code \<in> set (pc_OkExitCodes p). 0 \<le> code \<and> code \<le> 255) \<and>
     0 \<le> pc_ExitFailureThreshold p \<and> 0 < pc_ExitFailureWindow p \<and>
     0 \<le> pc_ExitCooldown p \<and> pc_ExitCooldown p \<le> pc_ExitCooldownMax p \<and>
     (at_least_1 (pc_ExitCooldownMultiplier p) \<or> pc_ExitCooldownMultiplier p = NaN) \<and>
     0 \<le> pc_TTL p \<and> 0 \<le> pc_Poke p \<and> 0 \<le> pc_GraceShutdown p \<and>
     pc_TermSignal p \<noteq> 0 \<and> pc_ResultStream p \<in> {''stdout'', ''stderr'', ''none''}"

definition valid_http :: "HTTP \<Rightarrow> bool" where
  "valid_http h \<longleftrightarrow>
     HTTP_Addr h \<noteq> [] \<and>
     (\<forall>p \<in> {HTTP_HintPath h, HTTP_HealthPath h, HTTP_MetricsPath h}. has_prefix p ''/'') \<and>
     distinct [HTTP_HintPath h, HTTP_HealthPath h, HTTP_MetricsPath h] \<and>
     0 \<le> HTTP_ReadTimeout h \<and> 0 \<le> HTTP_WriteTimeout h \<and> 0 \<le> HTTP_ShutdownTimeout h"

definition valid_redis :: "Redis \<Rightarrow> bool" where
  "valid_redis r \<longleftrightarrow>
     Redis_Addr r \<noteq> [] \<and> 0 \<le> Redis_DB r \<and> 0 \<le> Redis_DialTimeout r \<and>
     0 < Redis_ReconnectMin r \<and> Redis_ReconnectMin r \<le> Redis_ReconnectMax r"

definition valid_config :: "Config \<Rightarrow> bool" where
  "valid_config c \<longleftrightarrow>
     Log_Format (cfg_Log c) \<in> {''text'', ''json''} \<and> Log_ChildOutput (cfg_Log c) = [] \<and>
     Log_TimestampFormat (cfg_Log c) \<noteq> [] \<and>
     (HTTP_IsEnabled (cfg_HTTP c) \<or> Redis_IsEnabled (cfg_Redis c)) \<and>
     (HTTP_IsEnabled (cfg_HTTP c) \<longrightarrow> valid_http (cfg_HTTP c)) \<and>
     (Redis_IsEnabled (cfg_Redis c) \<longrightarrow> valid_redis (cfg_Redis c)) \<and>
     (Metrics_IsEnabled (cfg_Metrics c) \<longrightarrow> Metrics_Namespace (cfg_Metrics c) \<noteq> []) \<and>
     0 < cfg_ShutdownTimeout c \<and>
     list_all valid_pool (ResolvedPools c) \<and>
     distinct (map pc_Channel (ResolvedPools c)) \<and>
     list_ex pc_Enabled (ResolvedPools c)"

text \<open>The documented rules: first those the README lists, then those of the example config and of
  the messages.  \<open>timeout\<close> is \<open>shutdown_timeout\<close>, which must exceed every \<open>grace_shutdown\<close>.\<close>

definition documented_pool :: "duration \<Rightarrow> PoolConfig \<Rightarrow> bool" where
  "documented_pool timeout p \<longleftrightarrow>
     1 \<le> pc_Concurrency p \<and> pc_Command p \<noteq> [] \<and> pc_PokeCount p \<le> pc_Concurrency p \<and>
     0 \<le> pc_ExitFailureThreshold p \<and> 0 < pc_ExitFailureWindow p \<and>
     at_least_1 (pc_ExitCooldownMultiplier p) \<and> pc_ExitCooldown p \<le> pc_ExitCooldownMax p \<and>
     pc_OkExitCodes p \<noteq> [] \<and> list_all (\<lambda>code. 0 \<le> code \<and> code \<le> 255) (pc_OkExitCodes p) \<and>
     pc_TermSignal p \<noteq> 0 \<and> pc_ResultStream p \<in> {''stdout'', ''stderr'', ''none''} \<and>
     0 \<le> pc_PokeCount p \<and> 0 \<le> pc_ExitCooldown p \<and> 0 \<le> pc_TTL p \<and> 0 \<le> pc_Poke p \<and>
     0 \<le> pc_GraceShutdown p \<and> pc_GraceShutdown p < timeout"

definition documented_config :: "Config \<Rightarrow> bool" where
  "documented_config c \<longleftrightarrow>
     list_ex pc_Enabled (ResolvedPools c) \<and>
     list_all (documented_pool (cfg_ShutdownTimeout c)) (ResolvedPools c) \<and>
     distinct (map pc_Channel (ResolvedPools c)) \<and>
     (HTTP_IsEnabled (cfg_HTTP c) \<or> Redis_IsEnabled (cfg_Redis c)) \<and>
     (HTTP_IsEnabled (cfg_HTTP c) \<longrightarrow> HTTP_Addr (cfg_HTTP c) \<noteq> [] \<and>
        list_all (\<lambda>(key, p). has_prefix p ''/'') (http_paths (cfg_HTTP c)) \<and>
        distinct (map snd (http_paths (cfg_HTTP c))) \<and>
        0 \<le> HTTP_ReadTimeout (cfg_HTTP c) \<and> 0 \<le> HTTP_WriteTimeout (cfg_HTTP c) \<and>
        0 \<le> HTTP_ShutdownTimeout (cfg_HTTP c)) \<and>
     (Redis_IsEnabled (cfg_Redis c) \<longrightarrow> Redis_Addr (cfg_Redis c) \<noteq> [] \<and>
        0 \<le> Redis_DB (cfg_Redis c) \<and> 0 \<le> Redis_DialTimeout (cfg_Redis c) \<and>
        0 < Redis_ReconnectMin (cfg_Redis c) \<and> Redis_ReconnectMin (cfg_Redis c) \<le> Redis_ReconnectMax (cfg_Redis c)) \<and>
     (Metrics_IsEnabled (cfg_Metrics c) \<longrightarrow> Metrics_Namespace (cfg_Metrics c) \<noteq> []) \<and>
     Log_Format (cfg_Log c) \<in> {''text'', ''json''} \<and> Log_ChildOutput (cfg_Log c) = [] \<and>
     Log_TimestampFormat (cfg_Log c) \<noteq> [] \<and> 0 < cfg_ShutdownTimeout c"

text \<open>The two rules that are not enforced.\<close>

definition unchecked_pool :: "duration \<Rightarrow> PoolConfig \<Rightarrow> bool" where
  "unchecked_pool timeout p \<longleftrightarrow> pc_ExitCooldownMultiplier p \<noteq> NaN \<and> pc_GraceShutdown p < timeout"

lemma documented_pool_iff: "documented_pool timeout p \<longleftrightarrow> valid_pool p \<and> unchecked_pool timeout p"
  by (auto simp: documented_pool_def valid_pool_def unchecked_pool_def list_all_iff at_least_1_def)

lemma documented_config_iff:
  "documented_config c \<longleftrightarrow> valid_config c \<and> list_all (unchecked_pool (cfg_ShutdownTimeout c)) (ResolvedPools c)"
proof -
  have "list_all (documented_pool t) ps \<longleftrightarrow> list_all valid_pool ps \<and> list_all (unchecked_pool t) ps" for t ps
    by (auto simp: list_all_iff documented_pool_iff)
  then show ?thesis
    by (auto simp: documented_config_def valid_config_def valid_http_def valid_redis_def http_paths_def)
qed

section \<open>The validator implements the rules\<close>

lemma guard_Nil_iff [simp]: "guard b e = [] \<longleftrightarrow> \<not> b"
  by (simp add: guard_def)

lemma case_option_Nil_iff [simp]: "(case x of Some v \<Rightarrow> [f v] | None \<Rightarrow> []) = [] \<longleftrightarrow> x = None"
  by (simp split: option.splits)

lemma map_of_None_fst: "map_of m k = None \<longleftrightarrow> k \<notin> fst ` set m"
  by (rule map_of_eq_None_iff)

lemma validateSpawn_iff:
  "validateSpawn p = [] \<longleftrightarrow> pc_Command p \<noteq> [] \<and> 1 \<le> pc_Concurrency p \<and>
     0 \<le> pc_PokeCount p \<and> pc_PokeCount p \<le> pc_Concurrency p"
  by (simp add: validateSpawn_def not_less not_le)

lemma validateExitCodes_iff:
  "validateExitCodes p = [] \<longleftrightarrow>
     pc_OkExitCodes p \<noteq> [] \<and> (\<forall>code \<in> set (pc_OkExitCodes p). 0 \<le> code \<and> code \<le> 255)"
  by (simp add: validateExitCodes_def not_less)

lemma validateBreaker_iff:
  "validateBreaker p = [] \<longleftrightarrow> 0 \<le> pc_ExitFailureThreshold p \<and> 0 < pc_ExitFailureWindow p"
  by (simp add: validateBreaker_def not_less not_le)

lemma validateCooldown_iff:
  "validateCooldown p = [] \<longleftrightarrow> 0 \<le> pc_ExitCooldown p \<and> pc_ExitCooldown p \<le> pc_ExitCooldownMax p \<and>
     (at_least_1 (pc_ExitCooldownMultiplier p) \<or> pc_ExitCooldownMultiplier p = NaN)"
  by (auto simp: validateCooldown_def less_1_iff)

lemma validateProcess_iff:
  "validateProcess p = [] \<longleftrightarrow> 0 \<le> pc_TTL p \<and> 0 \<le> pc_Poke p \<and> 0 \<le> pc_GraceShutdown p \<and>
     pc_TermSignal p \<noteq> 0 \<and> pc_ResultStream p \<in> {''stdout'', ''stderr'', ''none''}"
  by (simp add: validateProcess_def not_less not_le)

lemma PoolConfig_validate_iff: "PoolConfig_validate p = [] \<longleftrightarrow> valid_pool p"
  by (simp only: PoolConfig_validate_def append_is_Nil_conv validateSpawn_iff validateExitCodes_iff
      validateBreaker_iff validateCooldown_iff validateProcess_iff valid_pool_def conj_assoc)

lemma validatePaths_iff:
  "validatePaths kps seen = [] \<longleftrightarrow>
     (\<forall>p \<in> snd ` set kps. has_prefix p ''/'') \<and> distinct (map snd kps) \<and>
     snd ` set kps \<inter> fst ` set seen = {}"
proof (induction kps seen rule: validatePaths.induct)
  case (2 key p rest seen)
  have "validatePaths ((key, p) # rest) seen = [] \<longleftrightarrow>
      has_prefix p ''/'' \<and> p \<notin> fst ` set seen \<and> validatePaths rest (gmap_put p key seen) = []"
    by (simp add: map_of_None_fst)
  with 2 show ?case by auto
qed simp

lemma validateHTTP_iff: "validateHTTP c = [] \<longleftrightarrow> valid_http (cfg_HTTP c)"
  by (simp add: validateHTTP_def validateHTTPPaths_def validatePaths_iff http_paths_def valid_http_def not_less)

lemma validateRedis_iff: "validateRedis c = [] \<longleftrightarrow> valid_redis (cfg_Redis c)"
  by (simp add: validateRedis_def validateRedisBackoff_def valid_redis_def not_less not_le)

lemma validatePoolList_iff:
  "validatePoolList ps channels = [] \<longleftrightarrow>
     list_all valid_pool ps \<and> distinct (map pc_Channel ps) \<and>
     pc_Channel ` set ps \<inter> fst ` set channels = {}"
proof (induction ps channels rule: validatePoolList.induct)
  case (2 p ps channels)
  define m where "m = gmap_put (pc_Channel p) (''pools.'' @ pc_Name p) channels"
  have "fst ` set m = insert (pc_Channel p) (fst ` set channels)" by (simp add: m_def)
  moreover have "validatePoolList (p # ps) channels = [] \<longleftrightarrow>
      pc_Channel p \<notin> fst ` set channels \<and> valid_pool p \<and> validatePoolList ps m = []"
    by (simp only: validatePoolList.simps Let_def append_is_Nil_conv case_option_Nil_iff map_of_None_fst
        list.map_disc_iff PoolConfig_validate_iff m_def)
  ultimately show ?case using 2 [OF refl] by (auto simp: m_def)
qed simp

lemma validatePools_iff:
  "validatePools c = [] \<longleftrightarrow>
     list_all valid_pool (ResolvedPools c) \<and> distinct (map pc_Channel (ResolvedPools c)) \<and>
     list_ex pc_Enabled (ResolvedPools c)"
  by (simp add: validatePools_def validatePoolList_iff enabledPools_count_def
      filter_empty_conv list_ex_iff)

lemma validateLog_iff:
  "validateLog c = [] \<longleftrightarrow> Log_Format (cfg_Log c) \<in> {''text'', ''json''} \<and>
     Log_ChildOutput (cfg_Log c) = [] \<and> Log_TimestampFormat (cfg_Log c) \<noteq> []"
  by (simp add: validateLog_def)

lemma validateSources_iff:
  "validateSources c = [] \<longleftrightarrow> (HTTP_IsEnabled (cfg_HTTP c) \<or> Redis_IsEnabled (cfg_Redis c)) \<and>
     (HTTP_IsEnabled (cfg_HTTP c) \<longrightarrow> valid_http (cfg_HTTP c)) \<and>
     (Redis_IsEnabled (cfg_Redis c) \<longrightarrow> valid_redis (cfg_Redis c))"
  by (simp add: validateSources_def validateHTTP_iff validateRedis_iff)

lemma Config_validate_Nil_iff: "Config_validate c = [] \<longleftrightarrow> valid_config c"
  by (simp only: Config_validate_def append_is_Nil_conv guard_Nil_iff valid_config_def validateLog_iff
      validateSources_iff validatePools_iff not_le) blast

section \<open>Finalize\<close>

lemma setters_idem [simp]:
  "d \<noteq> [] \<Longrightarrow> setStr (setStr s d) d = setStr s d"
  "setDur (setDur t e) e = setDur t e"
  "setBool (setBool b f) f = setBool b f"
  by (auto simp: setStr_def setDur_def setBool_def split: option.splits)

lemma applyDefaults_idem: "applyDefaults (applyDefaults c) = applyDefaults c"
  by (simp add: applyDefaults_def default_defs)

lemma ResolvedPools_applyDefaults: "ResolvedPools (applyDefaults c) = ResolvedPools c"
  by (simp add: ResolvedPools_def Config_Pool_def [abs_def] applyDefaults_def cong: option.case_cong)

lemma Finalize_Inr_iff: "Finalize c = Inr c' \<longleftrightarrow> c' = applyDefaults c \<and> valid_config c'"
  by (auto simp: Finalize_def Let_def Config_validate_Nil_iff)

lemma Finalize_pool:
  assumes "Finalize c = Inr c'" "r \<in> set (ResolvedPools c')"
  shows "valid_pool r"
  using assms by (auto simp: Finalize_Inr_iff valid_config_def list_all_iff)

text \<open>C36: \<open>Finalize\<close> accepts a document exactly when, with the defaults filled in, it obeys the
  rules the code enforces, and otherwise reports at least one violation; finalizing its
  result again changes nothing.  The enforced rules are the documented ones except for two:
  a NaN passes for a multiplier of at least 1, and \<open>shutdown_timeout\<close> is not compared with
  \<open>grace_shutdown\<close>.  (The rules for pool names and for \<open>_defaults\<close> are those of \<open>Parse\<close>.)\<close>

theorem Finalize_correct:
  "Finalize c = (if valid_config (applyDefaults c) then Inr (applyDefaults c)
                 else Inl (Config_validate (applyDefaults c))) \<and>
   (valid_config (applyDefaults c) \<longleftrightarrow> Config_validate (applyDefaults c) = []) \<and>
   Finalize (applyDefaults c) = Finalize c \<and>
   (documented_config (applyDefaults c) \<longleftrightarrow> valid_config (applyDefaults c) \<and>
      list_all (\<lambda>p. pc_ExitCooldownMultiplier p \<noteq> NaN \<and> pc_GraceShutdown p < cfg_ShutdownTimeout (applyDefaults c))
        (ResolvedPools (applyDefaults c)))"
  using documented_config_iff [of "applyDefaults c"]
  by (auto simp: Finalize_def Let_def Config_validate_Nil_iff applyDefaults_idem unchecked_pool_def [abs_def])

lemma bareConfig_resolved:
  "ResolvedPools (bareConfig [(n, p)]) = [resolvePool emptySettings n p]"
  by (simp add: ResolvedPools_def Config_Pool_def bareConfig_def List.map_filter_simps)

lemma plainPool_valid: "cmd \<noteq> [] \<Longrightarrow> valid_pool (resolvePool emptySettings n (plainPool cmd))"
  by (simp add: valid_pool_def at_least_1_def resolve_layers plain_defs layer3_def duration_units signal_numbers)

text \<open>The minimal document, one pool with a command, is accepted with every default.\<close>

theorem Finalize_minimal:
  "Finalize (bareConfig [(''encoding'', plainPool [''php'', ''worker.php''])]) =
   Inr (applyDefaults (bareConfig [(''encoding'', plainPool [''php'', ''worker.php''])]))"
proof -
  let ?c = "bareConfig [(''encoding'', plainPool [''php'', ''worker.php''])]"
  have r: "ResolvedPools (applyDefaults ?c) = [resolvePool emptySettings ''encoding'' (plainPool [''php'', ''worker.php''])]"
    by (simp add: ResolvedPools_applyDefaults bareConfig_resolved)
  have "valid_config (applyDefaults ?c)"
    unfolding valid_config_def r
    by (simp add: plainPool_valid)
       (simp add: applyDefaults_def bareConfig_def default_defs setStr_def setDur_def setBool_def
        valid_http_def valid_redis_def HTTP_IsEnabled_def Redis_IsEnabled_def has_prefix_def
        duration_units resolve_layers plain_defs layer3_def)
  then show ?thesis by (simp add: Finalize_Inr_iff)
qed

end
