(* ===== verification/Dispatcher.thy ===== *)
theory Dispatcher
  imports PoolExits Validate
begin

text \<open>
  \<open>internal/app/dispatcher.go\<close> and \<open>hint.go\<close>: the routing of hints to pools by channel.
  A target is a reference of any type (in the program the pool's pointer); what calling
  \<open>Hint\<close> on it does to the world is an argument, with the contract \<open>hinter_laws\<close>.  The
  contract is interpreted on the pools of \<open>PoolOps\<close>.
\<close>

section \<open>Routes\<close>

record Hint =
  Hint_Source :: string
  Hint_Pool :: string
  Hint_Count :: gint

record 'h route =
  rt_pool :: string
  rt_target :: "'h option"

text \<open>The world behind the targets, and what the dispatcher itself logs and counts.\<close>

record 'w dsys =
  d_world :: 'w
  d_log :: "logline list"
  d_metrics :: "mevent list"

type_synonym ('h, 'w) hintfn = "'h \<Rightarrow> string \<Rightarrow> gint \<Rightarrow> 'w \<Rightarrow> gint \<times> 'w"

definition make_route :: "'h gmap \<Rightarrow> PoolConfig \<Rightarrow> 'h route" where
  "make_route pools c = \<lparr>rt_pool = pc_Name c,
     rt_target = (if pc_Enabled c then map_of pools (pc_Name c) else None)\<rparr>"

definition NewDispatcher :: "PoolConfig list \<Rightarrow> 'h gmap \<Rightarrow> 'h route gmap" where
  "NewDispatcher cfgs pools = fold (\<lambda>c routes. gmap_put (pc_Channel c) (make_route pools c) routes) cfgs []"

section \<open>Dispatching\<close>

definition dlog :: "level \<Rightarrow> string \<Rightarrow> attrs \<Rightarrow> 'w dsys \<Rightarrow> 'w dsys" where
  "dlog lvl msg as s = s\<lparr>d_log := d_log s @ [(lvl, msg, as)]\<rparr>"

definition dmetric :: "mevent \<Rightarrow> 'w dsys \<Rightarrow> 'w dsys" where
  "dmetric e s = s\<lparr>d_metrics := d_metrics s @ [e]\<rparr>"

definition Dispatch :: "('h, 'w) hintfn \<Rightarrow> 'h route gmap \<Rightarrow> Hint \<Rightarrow> 'w dsys \<Rightarrow> gint \<times> 'w dsys" where
  "Dispatch hint routes h s =
     (case map_of routes (Hint_Pool h) of
        None \<Rightarrow>
          (0, dmetric (MDrop (Hint_Source h) [] ''unknown_pool'')
            (dlog Warn ''drop'' [(''reason'', AStr ''unknown_pool''), (''source'', AStr (Hint_Source h)),
              (''channel'', AStr (Hint_Pool h)), (''count'', AInt (Hint_Count h))] s))
      | Some r \<Rightarrow>
          (case rt_target r of
             None \<Rightarrow>
               (0, dmetric (MDrop (Hint_Source h) (rt_pool r) ''disabled'')
                 (dlog Debug ''drop'' [(''reason'', AStr ''disabled''), (''source'', AStr (Hint_Source h)),
                   (''pool'', AStr (rt_pool r)), (''channel'', AStr (Hint_Pool h)),
                   (''count'', AInt (Hint_Count h))] s))
           | Some target \<Rightarrow>
               (case hint target (Hint_Source h) (Hint_Count h) (d_world s) of (n, w) \<Rightarrow>
                (n, dlog Debug ''hint'' [(''source'', AStr (Hint_Source h)), (''pool'', AStr (rt_pool r)),
                   (''channel'', AStr (Hint_Pool h)), (''count'', AInt (Hint_Count h)), (''spawned'', AInt n)]
                   (s\<lparr>d_world := w\<rparr>)))))"

text \<open>What the \<open>select\<close> of \<open>Run\<close> finds ready, round by round.\<close>

datatype dinput = InDone | InHint Hint | InClosed

fun Dispatcher_Run :: "('h, 'w) hintfn \<Rightarrow> 'h route gmap \<Rightarrow> dinput list \<Rightarrow> 'w dsys \<Rightarrow> 'w dsys" where
  "Dispatcher_Run hint routes [] s = s"
| "Dispatcher_Run hint routes (InDone # ins) s = s"
| "Dispatcher_Run hint routes (InClosed # ins) s = s"
| "Dispatcher_Run hint routes (InHint h # ins) s =
     Dispatcher_Run hint routes ins (snd (Dispatch hint routes h s))"

section \<open>The contract of a target\<close>

text \<open>
  \<open>view h w\<close> is what is known of the target \<open>h\<close> in the world \<open>w\<close>.  A call returns a
  number between 0 and the count, keeps the invariant, and leaves every other target alone.
\<close>

locale hinter_laws =
  fixes hint :: "('h, 'w) hintfn"
    and inv :: "'w \<Rightarrow> bool"
    and view :: "'h \<Rightarrow> 'w \<Rightarrow> 'v"
  assumes hint_range: "inv w \<Longrightarrow> 0 \<le> fst (hint h src n w) \<and> fst (hint h src n w) \<le> max 0 n"
    and hint_inv: "inv w \<Longrightarrow> inv (snd (hint h src n w))"
    and hint_frame: "h' \<noteq> h \<Longrightarrow> view h' (snd (hint h src n w)) = view h' w"
begin

lemma Dispatch_range: "inv (d_world s) \<Longrightarrow>
  0 \<le> fst (Dispatch hint routes h s) \<and> fst (Dispatch hint routes h s) \<le> max 0 (Hint_Count h)"
  using hint_range [of "d_world s" _ "Hint_Source h" "Hint_Count h"]
  by (auto simp: Dispatch_def split: option.split prod.split) (metis fst_conv)+

lemma Dispatch_inv: "inv (d_world s) \<Longrightarrow> inv (d_world (snd (Dispatch hint routes h s)))"
  using hint_inv [of "d_world s" _ "Hint_Source h" "Hint_Count h"]
  by (auto simp: Dispatch_def dmetric_def dlog_def split: option.split prod.split) (metis snd_conv)

lemma Dispatch_frame:
  assumes "\<And>r. map_of routes (Hint_Pool h) = Some r \<Longrightarrow> rt_target r \<noteq> Some t"
  shows "view t (d_world (snd (Dispatch hint routes h s))) = view t (d_world s)"
  using assms hint_frame [of t _ "Hint_Source h" "Hint_Count h" "d_world s"]
  by (auto simp: Dispatch_def dmetric_def dlog_def split: option.split prod.split) (metis snd_conv)

lemma Run_inv: "inv (d_world s) \<Longrightarrow> inv (d_world (Dispatcher_Run hint routes ins s))"
proof (induction ins arbitrary: s)
  case (Cons i ins)
  then show ?case by (cases i) (simp_all add: Dispatch_inv)
qed simp

text \<open>A target none of the hints is routed to is never touched.\<close>

lemma Run_frame:
  assumes "list_all (\<lambda>i. case i of InHint h \<Rightarrow>
      (case map_of routes (Hint_Pool h) of Some r \<Rightarrow> rt_target r \<noteq> Some t | None \<Rightarrow> True) | _ \<Rightarrow> True) ins"
  shows "view t (d_world (Dispatcher_Run hint routes ins s)) = view t (d_world s)"
  using assms
proof (induction ins arbitrary: s)
  case (Cons i ins)
  show ?case
  proof (cases i)
    case (InHint h)
    have "view t (d_world (snd (Dispatch hint routes h s))) = view t (d_world s)"
      using Cons.prems InHint by (intro Dispatch_frame) auto
    with Cons InHint show ?thesis by simp
  qed simp_all
qed simp

end

section \<open>The pools as targets\<close>

text \<open>The world of the program: the enabled pools by name, each with its own spawner.\<close>

definition pools_hint :: "(string \<Rightarrow> env) \<Rightarrow> (string, pool_sys gmap) hintfn" where
  "pools_hint E name src n w =
     (case map_of w name of
        None \<Rightarrow> (0, w)
      | Some s \<Rightarrow> (case pool_Hint (E name) src n s of (k, s') \<Rightarrow> (k, gmap_put name s' w)))"

definition pools_inv :: "pool_sys gmap \<Rightarrow> bool" where
  "pools_inv w \<longleftrightarrow> gmap_ok w \<and> list_all (\<lambda>(name, s). pool_inv s) w"

definition pools_view :: "string \<Rightarrow> pool_sys gmap \<Rightarrow> pool_sys option" where
  "pools_view name w = map_of w name"

lemma set_gmap_put: "set (gmap_put k v m) \<subseteq> insert (k, v) (set m)"
  by (induction m) (auto split: if_splits)

lemma pools_inv_put: "pools_inv w \<Longrightarrow> pool_inv s \<Longrightarrow> pools_inv (gmap_put name s w)"
  using set_gmap_put [of name s w] by (auto simp: pools_inv_def gmap_ok_put list_all_iff)

lemma pools_inv_member: "pools_inv w \<Longrightarrow> map_of w name = Some s \<Longrightarrow> pool_inv s"
  by (auto simp: pools_inv_def list_all_iff dest!: map_of_SomeD)

lemma hint_grants_le: "int (hint_grants E s n) \<le> max 0 n"
  using hint_grants_room [of E s n] by (cases "hint_grants E s n = 0") auto

interpretation pools: hinter_laws "pools_hint E" pools_inv pools_view
proof
  fix w :: "pool_sys gmap" and h h' src :: string and n :: gint
  show "pools_inv w \<Longrightarrow> 0 \<le> fst (pools_hint E h src n w) \<and> fst (pools_hint E h src n w) \<le> max 0 n"
    using hint_grants_le pool_Hint_started
    by (auto simp: pools_hint_def split: option.split prod.split) (metis fst_conv of_nat_0_le_iff max_def)+
  show "pools_inv w \<Longrightarrow> pools_inv (snd (pools_hint E h src n w))"
    using pools_inv_member [of w h] pools_inv_put pool_inv_Hint
    by (auto simp: pools_hint_def split: option.split prod.split) (metis snd_conv)
  show "h' \<noteq> h \<Longrightarrow> pools_view h' (snd (pools_hint E h src n w)) = pools_view h' w"
    by (auto simp: pools_hint_def pools_view_def split: option.split prod.split)
qed

section \<open>Routes of a validated config\<close>

lemma route_of:
  "distinct (map pc_Channel cfgs) \<Longrightarrow> c \<in> set cfgs \<Longrightarrow>
   map_of (NewDispatcher cfgs pools) (pc_Channel c) = Some (make_route pools c)"
  by (simp add: NewDispatcher_def map_of_fold_key find_key [where key = pc_Channel])

lemma route_unknown:
  "distinct (map pc_Channel cfgs) \<Longrightarrow> ch \<notin> pc_Channel ` set cfgs \<Longrightarrow> map_of (NewDispatcher cfgs pools) ch = None"
  by (auto simp: NewDispatcher_def map_of_fold_key find_None_iff split: option.split)

text \<open>The pools \<open>newPools\<close> builds: one target per enabled config, named like it.\<close>

definition enabled_targets :: "PoolConfig list \<Rightarrow> string gmap" where
  "enabled_targets cfgs = map (\<lambda>c. (pc_Name c, pc_Name c)) (filter pc_Enabled cfgs)"

lemma map_of_enabled_targets: "c \<in> set cfgs \<Longrightarrow> pc_Enabled c \<Longrightarrow> map_of (enabled_targets cfgs) (pc_Name c) = Some (pc_Name c)"
  by (induction cfgs) (auto simp: enabled_targets_def)

text \<open>C21: with a validated config every hint reaches exactly the pool that owns its channel:
  an enabled pool gets the source and count of the hint, a disabled pool and an unknown
  channel get a counted drop with their reason and change no pool.\<close>

theorem Dispatch_routes:
  assumes "valid_config c"
  defines "cfgs \<equiv> ResolvedPools c"
  shows "(case find (\<lambda>p. pc_Channel p = Hint_Pool h) cfgs of
      None \<Rightarrow> fst (Dispatch hint (NewDispatcher cfgs (enabled_targets cfgs)) h s) = 0 \<and>
        d_world (snd (Dispatch hint (NewDispatcher cfgs (enabled_targets cfgs)) h s)) = d_world s \<and>
        d_metrics (snd (Dispatch hint (NewDispatcher cfgs (enabled_targets cfgs)) h s)) =
          d_metrics s @ [MDrop (Hint_Source h) [] ''unknown_pool'']
    | Some p \<Rightarrow>
        if pc_Enabled p then
          (fst (Dispatch hint (NewDispatcher cfgs (enabled_targets cfgs)) h s),
           d_world (snd (Dispatch hint (NewDispatcher cfgs (enabled_targets cfgs)) h s)))
            = hint (pc_Name p) (Hint_Source h) (Hint_Count h) (d_world s) \<and>
          d_metrics (snd (Dispatch hint (NewDispatcher cfgs (enabled_targets cfgs)) h s)) = d_metrics s
        else fst (Dispatch hint (NewDispatcher cfgs (enabled_targets cfgs)) h s) = 0 \<and>
          d_world (snd (Dispatch hint (NewDispatcher cfgs (enabled_targets cfgs)) h s)) = d_world s \<and>
          d_metrics (snd (Dispatch hint (NewDispatcher cfgs (enabled_targets cfgs)) h s)) =
            d_metrics s @ [MDrop (Hint_Source h) (pc_Name p) ''disabled''])"
proof -
  let ?r = "NewDispatcher cfgs (enabled_targets cfgs)"
  have d: "distinct (map pc_Channel cfgs)" using assms by (simp add: valid_config_def)
  show ?thesis
  proof (cases "find (\<lambda>p. pc_Channel p = Hint_Pool h) cfgs")
    case None
    then have "Hint_Pool h \<notin> pc_Channel ` set cfgs" by (auto simp: find_None_iff)
    with d have "map_of ?r (Hint_Pool h) = None" by (rule route_unknown)
    with None show ?thesis by (simp add: Dispatch_def dmetric_def dlog_def)
  next
    case (Some p)
    then have p: "p \<in> set cfgs" "pc_Channel p = Hint_Pool h" by (auto simp: find_Some_iff)
    with route_of [OF d p(1)] have "map_of ?r (Hint_Pool h) = Some (make_route (enabled_targets cfgs) p)" by simp
    with Some map_of_enabled_targets [OF p(1)] show ?thesis
      by (simp add: Dispatch_def dmetric_def dlog_def make_route_def split: prod.split)
  qed
qed

text \<open>The dispatcher never breaks a pool: whatever hints it routes, every pool keeps its
  invariant, in particular its concurrency cap, and a pool no hint is addressed to does
  not change at all.\<close>

theorem Run_safe:
  assumes "pools_inv (d_world s)"
  shows "pools_inv (d_world (Dispatcher_Run (pools_hint E) routes ins s)) \<and>
    (list_all (\<lambda>i. case i of InHint h \<Rightarrow>
        (case map_of routes (Hint_Pool h) of Some r \<Rightarrow> rt_target r \<noteq> Some name | None \<Rightarrow> True) | _ \<Rightarrow> True) ins \<longrightarrow>
     map_of (d_world (Dispatcher_Run (pools_hint E) routes ins s)) name = map_of (d_world s) name)"
  using pools.Run_inv [OF assms] pools.Run_frame [where t = name] by (simp add: pools_view_def)

definition two_pools :: Config where
  "two_pools = applyDefaults (bareConfig [(''a'', plainPool [''w'']), (''b'', (plainPool [''v''])\<lparr>ps_Enabled := Some False\<rparr>)])"

lemma two_pools_resolved:
  "ResolvedPools two_pools = [resolvePool emptySettings ''a'' (plainPool [''w'']),
     resolvePool emptySettings ''b'' ((plainPool [''v''])\<lparr>ps_Enabled := Some False\<rparr>)]"
proof -
  have "sort [''a'', ''b''] = [''a'', ''b'']" by (simp add: less_eq_char_def)
  then show ?thesis
    by (simp add: two_pools_def ResolvedPools_applyDefaults)
       (simp add: ResolvedPools_def Config_Pool_def bareConfig_def List.map_filter_simps)
qed

lemma two_pools_valid: "valid_config two_pools"
  unfolding valid_config_def two_pools_resolved
  by (simp add: plainPool_valid valid_pool_def at_least_1_def resolve_layers plain_defs layer3_def duration_units signal_numbers)
     (simp add: two_pools_def applyDefaults_def bareConfig_def default_defs setStr_def setDur_def setBool_def
      valid_http_def valid_redis_def HTTP_IsEnabled_def Redis_IsEnabled_def has_prefix_def duration_units)

lemma two_pools_finalized: "Finalize two_pools = Inr two_pools"
  using two_pools_valid by (simp add: Finalize_Inr_iff two_pools_def applyDefaults_idem)

lemma Dispatch_routes_witness:
  "let r = NewDispatcher (ResolvedPools two_pools) (enabled_targets (ResolvedPools two_pools));
       s = \<lparr>d_world = 0, d_log = [], d_metrics = []\<rparr>;
       hint = (\<lambda>name src n w. (n, w + n))
   in fst (Dispatch hint r \<lparr>Hint_Source = SourceHTTP, Hint_Pool = ''a'', Hint_Count = 2\<rparr> s) = 2 \<and>
      fst (Dispatch hint r \<lparr>Hint_Source = SourceHTTP, Hint_Pool = ''b'', Hint_Count = 2\<rparr> s) = 0"
  using Dispatch_routes [OF two_pools_valid, where h = "\<lparr>Hint_Source = SourceHTTP, Hint_Pool = ''a'', Hint_Count = 2\<rparr>"
      and hint = "\<lambda>name src n w. (n, w + n)" and s = "\<lparr>d_world = 0, d_log = [], d_metrics = []\<rparr>"]
    Dispatch_routes [OF two_pools_valid, where h = "\<lparr>Hint_Source = SourceHTTP, Hint_Pool = ''b'', Hint_Count = 2\<rparr>"
      and hint = "\<lambda>name src n w. (n, w + n)" and s = "\<lparr>d_world = 0, d_log = [], d_metrics = []\<rparr>"]
  by (simp add: two_pools_resolved resolve_layers plain_defs layer3_def)

lemma Run_safe_witness:
  "pools_inv (d_world (Dispatcher_Run (pools_hint (\<lambda>_. demo_env)) []
     [InHint \<lparr>Hint_Source = SourceHTTP, Hint_Pool = ''p'', Hint_Count = 2\<rparr>]
     \<lparr>d_world = [(''p'', pool_New demo_cfg)], d_log = [], d_metrics = []\<rparr>))"
proof -
  have "pools_inv [(''p'', pool_New demo_cfg)]" by (simp add: pools_inv_def pool_inv_New)
  then show ?thesis by (intro Run_safe [THEN conjunct1]) simp
qed

end
