(* ===== verification/HttpApi.thy ===== *)
theory HttpApi
  imports Dispatcher
begin

text \<open>
  Package \<open>internal/httpapi\<close> without the listener: the hint endpoint (\<open>hint.go\<close>), the
  health endpoint (\<open>health.go\<close>) and the mux (\<open>server.go\<close>).  The JSON decoder is an
  argument: its right result is the decoded object, one entry per key in the order Go
  ranges over the map.  A response is its content type, its status and the value its JSON
  body renders; the rendering and sockets are not modelled.
\<close>

section \<open>The server\<close>

record Server =
  srv_cfg :: HTTP
  srv_prefix :: string
  srv_channels :: "unit gmap"
  srv_metrics :: bool

definition httpapi_New :: "HTTP \<Rightarrow> string \<Rightarrow> string list \<Rightarrow> bool \<Rightarrow> Server" where
  "httpapi_New cfg prefix channels metrics =
     \<lparr>srv_cfg = cfg, srv_prefix = prefix,
      srv_channels = fold (\<lambda>c known. gmap_put c () known) channels [], srv_metrics = metrics\<rparr>"

section \<open>The hint endpoint\<close>

definition maxHintBody :: nat where "maxHintBody = 65536"

text \<open>A \<open>requestError\<close>, by its message.\<close>

datatype requestError = BadJson string | NoHints | NegativeCount string gint | UnknownPool string

fun re_status :: "requestError \<Rightarrow> int" where
  "re_status (BadJson e) = 400"
| "re_status NoHints = 400"
| "re_status (NegativeCount key n) = 400"
| "re_status (UnknownPool key) = 404"

definition parseHint :: "Server \<Rightarrow> string \<Rightarrow> gint \<Rightarrow> requestError + Hint" where
  "parseHint s key n =
     (if n < 0 then Inl (NegativeCount key n)
      else case cut_prefix key (srv_prefix s) of (channel, found) \<Rightarrow>
        if \<not> found \<or> map_of (srv_channels s) channel = None then Inl (UnknownPool key)
        else Inr \<lparr>Hint_Source = SourceHTTP, Hint_Pool = channel, Hint_Count = n\<rparr>)"

fun parse_entries :: "Server \<Rightarrow> (string \<times> gint) list \<Rightarrow> requestError + Hint list" where
  "parse_entries s [] = Inr []"
| "parse_entries s ((key, n) # raw) =
     (case parseHint s key n of
        Inl e \<Rightarrow> Inl e
      | Inr h \<Rightarrow> (case parse_entries s raw of Inl e \<Rightarrow> Inl e | Inr hs \<Rightarrow> Inr (h # hs)))"

definition parseHints :: "(string \<Rightarrow> string + (string \<times> gint) list) \<Rightarrow> Server \<Rightarrow> string \<Rightarrow> requestError + Hint list" where
  "parseHints decode s body =
     (case decode (take maxHintBody body) of
        Inl e \<Rightarrow> Inl (BadJson e)
      | Inr raw \<Rightarrow> if raw = [] then Inl NoHints else parse_entries s raw)"

datatype hint_body = Accepted | ShuttingDown | Rejected requestError

text \<open>
  The handler: the response and the hints it has put on the channel by then.  \<open>ends\<close> is
  the number of sends after which the request's context ends, if it ends while a send
  blocks.
\<close>

definition hintHandler ::
  "(string \<Rightarrow> string + (string \<times> gint) list) \<Rightarrow> Server \<Rightarrow> nat option \<Rightarrow> string \<Rightarrow> (int \<times> hint_body) \<times> Hint list"
where
  "hintHandler decode s ends body =
     (case parseHints decode s body of
        Inl e \<Rightarrow> ((re_status e, Rejected e), [])
      | Inr hints \<Rightarrow>
          (case ends of
             None \<Rightarrow> ((202, Accepted), hints)
           | Some k \<Rightarrow> if k < length hints then ((503, ShuttingDown), take k hints)
                       else ((202, Accepted), hints)))"

subsection \<open>What the client is told\<close>

record 'v response =
  resp_ContentType :: string
  resp_Status :: int
  resp_Body :: 'v

definition writeJSON :: "int \<Rightarrow> 'v \<Rightarrow> 'v response" where
  "writeJSON status v = \<lparr>resp_ContentType = ''application/json'', resp_Status = status, resp_Body = v\<rparr>"

text \<open>The message of a \<open>requestError\<close>.\<close>

definition re_msg :: "(nat \<Rightarrow> bool) \<Rightarrow> requestError \<Rightarrow> string" where
  "re_msg is_print e = (case e of
     BadJson msg \<Rightarrow> ''bad json: '' @ msg
   | NoHints \<Rightarrow> ''no hints in body''
   | NegativeCount key n \<Rightarrow> go_quote is_print key @ '': count must be >= 0, got '' @ itoa n
   | UnknownPool key \<Rightarrow> go_quote is_print key @ '': unknown pool'')"

text \<open>Every error of \<open>parseHints\<close> is a \<open>requestError\<close>, so the 500 of \<open>reject\<close> cannot occur.\<close>

definition reject :: "(nat \<Rightarrow> bool) \<Rightarrow> string \<Rightarrow> requestError \<Rightarrow> (string \<times> string) list response \<times> logline" where
  "reject is_print remote e =
     (writeJSON (re_status e) [(''error'', re_msg is_print e)],
      (Debug, ''hint_rejected'', [(''source'', AStr SourceHTTP), (''status'', AInt (re_status e)),
         (''err'', AStr (re_msg is_print e)), (''remote'', AStr remote)]))"

text \<open>The answer the client of \<open>hintHandler\<close> gets, and what is logged.\<close>

definition hint_response :: "(nat \<Rightarrow> bool) \<Rightarrow> string \<Rightarrow> int \<times> hint_body \<Rightarrow> (string \<times> string) list response \<times> logline list" where
  "hint_response is_print remote a = (case a of (status, body) \<Rightarrow>
     (case body of
        Accepted \<Rightarrow> (writeJSON status [(''status'', ''accepted'')], [])
      | ShuttingDown \<Rightarrow> (writeJSON status [(''error'', ''shutting down'')], [])
      | Rejected e \<Rightarrow> (case reject is_print remote e of (r, l) \<Rightarrow> (r, [l]))))"

text \<open>A rejected request is told why and logged once at debug level; only an accepted one is
  answered without the key \<open>error\<close>.\<close>

lemma hint_response_tells:
  assumes "hintHandler decode s ends body = (a, sent)"
  shows "(case hint_response is_print remote a of (r, logs) \<Rightarrow>
    resp_Status r = fst a \<and> (map fst (resp_Body r) = [''error''] \<longleftrightarrow> fst a \<noteq> 202) \<and>
    (logs \<noteq> [] \<longleftrightarrow> fst a \<in> {400, 404}) \<and> list_all (\<lambda>(lv, msg, attrs). lv = Debug \<and> msg = ''hint_rejected'') logs)"
proof (cases "parseHints decode s body")
  case (Inl e)
  have "re_status e = 400 \<or> re_status e = 404" by (cases e) auto
  with Inl assms show ?thesis by (auto simp: hintHandler_def hint_response_def reject_def writeJSON_def)
next
  case (Inr hints)
  with assms show ?thesis
    by (auto simp: hintHandler_def hint_response_def writeJSON_def split: option.splits if_splits)
qed

text \<open>The entry as the README describes it: a known channel behind the prefix, a count that
  is not negative.\<close>

definition good_entry :: "Server \<Rightarrow> string \<times> gint \<Rightarrow> bool" where
  "good_entry s kn \<longleftrightarrow> 0 \<le> snd kn \<and> has_prefix (fst kn) (srv_prefix s) \<and>
     drop (length (srv_prefix s)) (fst kn) \<in> fst ` set (srv_channels s)"

definition entry_hint :: "Server \<Rightarrow> string \<times> gint \<Rightarrow> Hint" where
  "entry_hint s kn = \<lparr>Hint_Source = SourceHTTP, Hint_Pool = drop (length (srv_prefix s)) (fst kn), Hint_Count = snd kn\<rparr>"

lemma parseHint_eq:
  "parseHint s key n = (if good_entry s (key, n) then Inr (entry_hint s (key, n))
     else Inl (if n < 0 then NegativeCount key n else UnknownPool key))"
proof -
  have "map_of (srv_channels s) ch = None \<longleftrightarrow> ch \<notin> fst ` set (srv_channels s)" for ch
    by (rule map_of_eq_None_iff)
  then show ?thesis
    by (simp add: parseHint_def good_entry_def entry_hint_def cut_prefix_def not_less)
qed

lemma parse_entries_eq:
  "list_all (good_entry s) raw \<Longrightarrow> parse_entries s raw = Inr (map (entry_hint s) raw)"
  "\<not> list_all (good_entry s) raw \<Longrightarrow> \<exists>e. parse_entries s raw = Inl e \<and> re_status e \<in> {400, 404}"
  by (induction s raw rule: parse_entries.induct) (auto simp: parseHint_eq split: sum.splits)

text \<open>C20: a hint request is all or nothing.  It is accepted with 202 exactly when the body
  decodes to at least one entry and every entry names a known channel behind the prefix
  with a count that is not negative, and then each entry becomes one hint; otherwise the
  answer is 400 or 404 and no hint is sent.  A context that ends during the sends is
  answered with 503, and then only some of the hints have been sent.\<close>

theorem hint_all_or_nothing:
  "(let ((status, resp), sent) = hintHandler decode s ends body;
        good = (case decode (take maxHintBody body) of Inl e \<Rightarrow> False | Inr raw \<Rightarrow> raw \<noteq> [] \<and> list_all (good_entry s) raw);
        hints = (case decode (take maxHintBody body) of Inl e \<Rightarrow> [] | Inr raw \<Rightarrow> map (entry_hint s) raw)
    in if \<not> good then status \<in> {400, 404} \<and> sent = []
       else if \<forall>k. ends = Some k \<longrightarrow> length hints \<le> k then status = 202 \<and> sent = hints
       else status = 503 \<and> (\<exists>k < length hints. ends = Some k \<and> sent = take k hints))"
proof (cases "decode (take maxHintBody body)")
  case (Inl e)
  then show ?thesis by (simp add: hintHandler_def parseHints_def)
next
  case (Inr raw)
  show ?thesis
  proof (cases "raw \<noteq> [] \<and> list_all (good_entry s) raw")
    case True
    with Inr show ?thesis
      by (cases ends) (auto simp: hintHandler_def parseHints_def parse_entries_eq(1))
  next
    case False
    show ?thesis
    proof (cases "raw = []")
      case True
      with Inr show ?thesis by (simp add: hintHandler_def parseHints_def)
    next
      case ne: False
      with False obtain e where "parse_entries s raw = Inl e" "re_status e \<in> {400, 404}"
        using parse_entries_eq(2) by blast
      with Inr False ne show ?thesis by (auto simp: hintHandler_def parseHints_def)
    qed
  qed
qed

definition demo_server :: Server where
  "demo_server = httpapi_New (cfg_HTTP two_pools) ''jobs:'' [''a''] True"

definition demo_decode :: "string \<Rightarrow> string + (string \<times> gint) list" where
  "demo_decode body = (if body = ''ok'' then Inr [(''jobs:a'', 2)]
     else if body = ''mixed'' then Inr [(''jobs:a'', 2), (''jobs:zzz'', 1)] else Inl ''EOF'')"

lemma hint_all_or_nothing_witness:
  "snd (hintHandler demo_decode demo_server None ''ok'')
     = [\<lparr>Hint_Source = SourceHTTP, Hint_Pool = ''a'', Hint_Count = 2\<rparr>] \<and>
   snd (hintHandler demo_decode demo_server None ''mixed'') = []"
proof -
  have g: "list_all (good_entry demo_server) [(''jobs:a'', 2)]"
    "\<not> list_all (good_entry demo_server) [(''jobs:a'', 2), (''jobs:zzz'', 1)]"
    by (simp_all add: demo_server_def httpapi_New_def good_entry_def has_prefix_def)
  have "snd (hintHandler demo_decode demo_server None ''ok'') = map (entry_hint demo_server) [(''jobs:a'', 2)]"
    using hint_all_or_nothing [of demo_decode demo_server None "''ok''"] g(1)
    by (simp add: demo_decode_def maxHintBody_def split_beta Let_def)
  moreover have "snd (hintHandler demo_decode demo_server None ''mixed'') = []"
    using hint_all_or_nothing [of demo_decode demo_server None "''mixed''"] g(2)
    by (simp add: demo_decode_def maxHintBody_def split_beta Let_def)
  ultimately show ?thesis by (simp add: entry_hint_def demo_server_def httpapi_New_def)
qed

lemma entry_routable:
  "good_entry s e \<Longrightarrow> 0 \<le> Hint_Count (entry_hint s e) \<and> Hint_Pool (entry_hint s e) \<in> fst ` set (srv_channels s)"
  by (simp add: good_entry_def entry_hint_def)

lemma parseHints_routable:
  assumes "parseHints decode s body = Inr hs" "h \<in> set hs"
  shows "0 \<le> Hint_Count h \<and> Hint_Pool h \<in> fst ` set (srv_channels s)"
proof -
  obtain raw where raw: "parse_entries s raw = Inr hs"
    using assms(1) by (auto simp: parseHints_def split: sum.splits if_splits)
  then have good: "list_all (good_entry s) raw" using parse_entries_eq(2) [of s raw] by auto
  with raw assms(2) obtain e where "e \<in> set raw" "h = entry_hint s e" by (auto simp: parse_entries_eq(1))
  with good show ?thesis using entry_routable [of s e] by (simp add: list_all_iff)
qed

lemma hintHandler_sent_routable:
  assumes "h \<in> set (snd (hintHandler decode s ends body))"
  shows "0 \<le> Hint_Count h \<and> Hint_Pool h \<in> fst ` set (srv_channels s)"
proof (cases "parseHints decode s body")
  case (Inr hs)
  then have "h \<in> set hs"
    using assms by (auto simp: hintHandler_def split: option.splits if_splits dest: in_set_takeD)
  with Inr show ?thesis by (rule parseHints_routable)
qed (use assms in \<open>simp add: hintHandler_def\<close>)

section \<open>The health endpoint\<close>

record breakerHealth =
  bh_OpenUntil :: "gtime option"
  bh_Level :: gint

record poolHealth =
  ph_Running :: gint
  ph_Concurrency :: gint
  ph_LastHint :: "gtime option"
  ph_LastExit :: "gtime option"
  ph_LastExitCode :: "gint option"
  ph_LastTasks :: "gint option"
  ph_Breaker :: breakerHealth

definition optTime :: "gtime \<Rightarrow> gtime option" where
  "optTime t = (if time_is_zero t then None else Some t)"

definition toPoolHealth :: "Stats \<Rightarrow> poolHealth" where
  "toPoolHealth st =
     (let h = \<lparr>ph_Running = st_Running st, ph_Concurrency = st_Concurrency st,
            ph_LastHint = optTime (st_LastHint st), ph_LastExit = optTime (st_LastExit st),
            ph_LastExitCode = None, ph_LastTasks = None,
            ph_Breaker = \<lparr>bh_OpenUntil = optTime (st_BreakerOpenUntil st), bh_Level = st_BreakerLevel st\<rparr>\<rparr>;
          h = (if ph_LastExit h \<noteq> None then h\<lparr>ph_LastExitCode := Some (st_LastExitCode st)\<rparr> else h);
          h = (if st_HasLastTasks st then h\<lparr>ph_LastTasks := Some (st_LastTasks st)\<rparr> else h)
      in h)"

record healthResponse =
  hr_Status :: string
  hr_Pools :: "poolHealth gmap"

definition healthHandler :: "Stats gmap \<Rightarrow> healthResponse response" where
  "healthHandler stats =
     writeJSON 200 \<lparr>hr_Status = ''ok'', hr_Pools = fold (\<lambda>(name, st) pools. gmap_put name (toPoolHealth st) pools) stats []\<rparr>"

lemma healthHandler_pools:
  assumes "gmap_ok stats"
  shows "map_of (hr_Pools (resp_Body (healthHandler stats))) name = map_option toPoolHealth (map_of stats name)"
proof -
  have "map_of (fold (\<lambda>(name, st) pools. gmap_put name (toPoolHealth st) pools) xs m) name =
      (case map_of xs name of Some st \<Rightarrow> Some (toPoolHealth st) | None \<Rightarrow> map_of m name)"
    if "gmap_ok xs" for xs m
    using that
  proof (induction xs arbitrary: m)
    case (Cons x xs)
    obtain a b where x: "x = (a, b)" by fastforce
    have "map_of xs a = None" using Cons.prems x by (simp add: map_of_eq_None_iff)
    with Cons x show ?case by (auto split: option.split)
  qed simp
  with assms show ?thesis by (simp add: healthHandler_def writeJSON_def split: option.split)
qed

section \<open>The mux\<close>

datatype endpoint = HintEndpoint | HealthEndpoint | MetricsEndpoint

text \<open>The patterns \<open>Handler\<close> registers, in order.  \<open>ServeMux\<close> panics on a pattern that is
  registered twice.\<close>

definition mux_patterns :: "Server \<Rightarrow> (string \<times> endpoint) list" where
  "mux_patterns s =
     [(''POST '' @ HTTP_HintPath (srv_cfg s), HintEndpoint), (''GET '' @ HTTP_HealthPath (srv_cfg s), HealthEndpoint)] @
     (if srv_metrics s then [(''GET '' @ HTTP_MetricsPath (srv_cfg s), MetricsEndpoint)] else [])"

lemma mux_distinct: "valid_http (srv_cfg s) \<Longrightarrow> distinct (map fst (mux_patterns s))"
  by (simp add: mux_patterns_def valid_http_def)

end
