(* ===== verification/RedisIn.thy ===== *)
theory RedisIn
  imports Dispatcher LastLine
begin

text \<open>
  \<open>internal/redisin/source.go\<close>: pub/sub messages to hints, and the reconnect loop.  The
  redis client is third-party code: what a session receives is an argument, and the glob
  matching of PSUBSCRIBE is the argument \<open>glob\<close> of the theorem about \<open>pattern\<close>, with the
  rules of the redis manual as its hypotheses.
\<close>

section \<open>The payload\<close>

datatype count_error = NotAnInteger | NegativePayload

definition parseCount :: "string \<Rightarrow> count_error + gint" where
  "parseCount payload =
     (case atoi (trim_space payload) of
        None \<Rightarrow> Inl NotAnInteger
      | Some n \<Rightarrow> if n < 0 then Inl NegativePayload else Inr n)"

section \<open>One message\<close>

text \<open>What a call adds to the outside: log lines, metric events, hints on the channel.\<close>

datatype rmetric = RConnected bool | RReconnect | RDrop string string string

record redis_out =
  ro_log :: "logline list"
  ro_metrics :: "rmetric list"
  ro_hints :: "Hint list"

definition ro_empty :: redis_out where
  "ro_empty = \<lparr>ro_log = [], ro_metrics = [], ro_hints = []\<rparr>"

definition rlog :: "level \<Rightarrow> string \<Rightarrow> attrs \<Rightarrow> redis_out \<Rightarrow> redis_out" where
  "rlog lvl msg as o1 = o1\<lparr>ro_log := ro_log o1 @ [(lvl, msg, (''source'', AStr SourceRedis) # as)]\<rparr>"

definition rmetric_add :: "rmetric \<Rightarrow> redis_out \<Rightarrow> redis_out" where
  "rmetric_add e o1 = o1\<lparr>ro_metrics := ro_metrics o1 @ [e]\<rparr>"

fun count_error_msg :: "count_error \<Rightarrow> string" where
  "count_error_msg NotAnInteger = ''payload is not an integer''"
| "count_error_msg NegativePayload = ''count must be >= 0''"

text \<open>\<open>sent\<close> tells whether the send won against the end of the context.\<close>

definition redis_forward :: "Redis \<Rightarrow> bool \<Rightarrow> string \<Rightarrow> string \<Rightarrow> redis_out \<Rightarrow> redis_out" where
  "redis_forward cfg sent chan payload o1 =
     (case cut_prefix chan (Redis_ChannelPrefix cfg) of (channel, found) \<Rightarrow>
      if \<not> found then
        rmetric_add (RDrop SourceRedis [] ''bad_payload'')
          (rlog Warn ''drop'' [(''reason'', AStr ''bad_payload''), (''channel'', AStr chan),
            (''err'', AStr ''channel without prefix'')] o1)
      else case parseCount payload of
        Inl e \<Rightarrow>
          rmetric_add (RDrop SourceRedis [] ''bad_payload'')
            (rlog Warn ''drop'' [(''reason'', AStr ''bad_payload''), (''channel'', AStr channel),
              (''payload'', AStr payload), (''err'', AErr (count_error_msg e))] o1)
      | Inr n \<Rightarrow>
          if sent then o1\<lparr>ro_hints := ro_hints o1 @ [\<lparr>Hint_Source = SourceRedis, Hint_Pool = channel, Hint_Count = n\<rparr>]\<rparr>
          else o1)"

text \<open>A message published on the prefixed channel of a pool with the decimal count as its
  payload, in any white space \<open>TrimSpace\<close> removes, becomes one hint for that channel with
  that count.\<close>

theorem redis_forward_roundtrip:
  assumes "0 \<le> n" "in_int64 n" "trim_space payload = itoa n"
  shows "redis_forward cfg True (Redis_ChannelPrefix cfg @ channel) payload o1 =
    o1\<lparr>ro_hints := ro_hints o1 @ [\<lparr>Hint_Source = SourceRedis, Hint_Pool = channel, Hint_Count = n\<rparr>]\<rparr>"
  using assms by (simp add: redis_forward_def parseCount_def atoi_itoa)

lemma redis_forward_roundtrip_witness:
  "ro_hints (redis_forward (cfg_Redis two_pools) True (Redis_ChannelPrefix (cfg_Redis two_pools) @ ''a'')
     ''42 '' ro_empty) = [\<lparr>Hint_Source = SourceRedis, Hint_Pool = ''a'', Hint_Count = 42\<rparr>]"
proof -
  have "trim_space ''42 '' = itoa 42" by code_simp
  then show ?thesis
    by (subst redis_forward_roundtrip [of 42]) (simp_all add: int64_defs ro_empty_def)
qed

section \<open>A session\<close>

datatype rmsg = RSubscription string | RMessage string string bool | ROther

text \<open>The loop of \<open>session\<close> over what \<open>Receive\<close> returns until its error; the deferred
  \<open>RedisConnected(false)\<close> comes last.\<close>

fun session_loop :: "Redis \<Rightarrow> rmsg list \<Rightarrow> bool \<Rightarrow> redis_out \<Rightarrow> bool \<times> redis_out" where
  "session_loop cfg [] subscribed o1 = (subscribed, o1)"
| "session_loop cfg (RSubscription pat # ms) subscribed o1 =
     session_loop cfg ms True
       (rlog Info ''redis subscribed'' [(''addr'', AStr (Redis_Addr cfg)), (''pattern'', AStr pat)]
         (rmetric_add (RConnected True) o1))"
| "session_loop cfg (RMessage chan payload sent # ms) subscribed o1 =
     session_loop cfg ms subscribed (redis_forward cfg sent chan payload o1)"
| "session_loop cfg (ROther # ms) subscribed o1 = session_loop cfg ms subscribed o1"

definition session :: "Redis \<Rightarrow> rmsg list \<Rightarrow> redis_out \<Rightarrow> bool \<times> redis_out" where
  "session cfg ms o1 =
     (case session_loop cfg ms False o1 of (subscribed, o1) \<Rightarrow>
      (subscribed, rmetric_add (RConnected False) o1))"

section \<open>The reconnect loop\<close>

text \<open>
  One turn of \<open>Run\<close>: what the session received and the error that ended it, and whether
  the context had ended after it or ends during the wait.
\<close>

record turn =
  tn_msgs :: "rmsg list"
  tn_err :: string
  tn_ended :: bool
  tn_ended_wait :: bool

text \<open>The waits the loop asks the clock for, with the state it returns with.\<close>

fun run_loop :: "Redis \<Rightarrow> turn list \<Rightarrow> duration \<Rightarrow> redis_out \<Rightarrow> duration list \<times> redis_out" where
  "run_loop cfg [] backoff o1 = ([], o1)"
| "run_loop cfg (t # ts) backoff o1 =
     (case session cfg (tn_msgs t) o1 of (subscribed, o1) \<Rightarrow>
      if tn_ended t then ([], o1)
      else let backoff = (if subscribed then Redis_ReconnectMin cfg else backoff);
               o1 = rlog Warn ''redis connection lost, reconnecting''
                      [(''err'', AErr (tn_err t)), (''retry_in'', ADur backoff)] o1
           in if tn_ended_wait t then ([backoff], o1)
              else case run_loop cfg ts (min (wrap64 (backoff * 2)) (Redis_ReconnectMax cfg))
                          (rmetric_add RReconnect o1) of
                   (waits, o1) \<Rightarrow> (backoff # waits, o1))"

definition redis_Run :: "Redis \<Rightarrow> turn list \<Rightarrow> duration list \<times> redis_out" where
  "redis_Run cfg ts = run_loop cfg ts (Redis_ReconnectMin cfg) ro_empty"

text \<open>The waits as documented: \<open>k\<close> lost connections since the last confirmed subscription.\<close>

definition nth_wait :: "Redis \<Rightarrow> nat \<Rightarrow> duration" where
  "nth_wait cfg k = min (Redis_ReconnectMin cfg * 2 ^ k) (Redis_ReconnectMax cfg)"

fun is_subscription :: "rmsg \<Rightarrow> bool" where
  "is_subscription (RSubscription pat) \<longleftrightarrow> True"
| "is_subscription m \<longleftrightarrow> False"

lemma session_subscribed: "fst (session_loop cfg ms b o1) \<longleftrightarrow> b \<or> list_ex is_subscription ms"
  by (induction cfg ms b o1 rule: session_loop.induct) auto

fun waits_of :: "Redis \<Rightarrow> turn list \<Rightarrow> nat \<Rightarrow> duration list" where
  "waits_of cfg [] k = []"
| "waits_of cfg (t # ts) k =
     (if tn_ended t then []
      else let k = (if list_ex is_subscription (tn_msgs t) then 0 else k)
           in nth_wait cfg k # (if tn_ended_wait t then [] else waits_of cfg ts (Suc k)))"

lemma nth_wait_Suc:
  assumes "0 < Redis_ReconnectMin cfg" "Redis_ReconnectMin cfg \<le> Redis_ReconnectMax cfg" "Redis_ReconnectMax cfg \<le> 2 ^ 62 - 1"
  shows "min (wrap64 (nth_wait cfg k * 2)) (Redis_ReconnectMax cfg) = nth_wait cfg (Suc k)"
proof -
  have "0 \<le> nth_wait cfg k" "nth_wait cfg k \<le> 2 ^ 62 - 1"
    using assms by (auto simp: nth_wait_def)
  then have "wrap64 (nth_wait cfg k * 2) = nth_wait cfg k * 2" by (intro wrap64_id) (simp add: int64_defs)
  moreover have "0 < Redis_ReconnectMin cfg * 2 ^ k" using assms(1) by simp
  ultimately show ?thesis using assms(1,2) by (auto simp: nth_wait_def min_def algebra_simps)
qed

lemma run_loop_waits:
  assumes "0 < Redis_ReconnectMin cfg" "Redis_ReconnectMin cfg \<le> Redis_ReconnectMax cfg" "Redis_ReconnectMax cfg \<le> 2 ^ 62 - 1"
  shows "fst (run_loop cfg ts (nth_wait cfg k) o1) = waits_of cfg ts k"
proof (induction ts arbitrary: k o1)
  case (Cons t ts)
  define sub where "sub = list_ex is_subscription (tn_msgs t)"
  obtain q where S: "session cfg (tn_msgs t) o1 = (sub, q)"
  proof -
    have "fst (session cfg (tn_msgs t) o1) = sub"
      using session_subscribed [of cfg "tn_msgs t" False o1]
      by (auto simp: session_def sub_def split: prod.splits)
    then show thesis using that by (cases "session cfg (tn_msgs t) o1") simp
  qed
  have min0: "Redis_ReconnectMin cfg = nth_wait cfg 0" using assms(2) by (simp add: nth_wait_def)
  have b: "(if sub then Redis_ReconnectMin cfg else nth_wait cfg k) = nth_wait cfg (if sub then 0 else k)"
    by (simp add: min0)
  show ?case
    using S Cons.IH nth_wait_Suc [OF assms]
    by (simp add: b Let_def flip: sub_def split: prod.split) (metis fst_conv)
qed simp

text \<open>C22: the wait before a reconnect is \<open>reconnect_min\<close> after a session that was
  subscribed, doubles with every further session that was not, and never exceeds
  \<open>reconnect_max\<close>; the loop ends only when the context does.\<close>

theorem redis_backoff:
  assumes "valid_redis cfg" "Redis_ReconnectMax cfg \<le> 2 ^ 62 - 1"
  shows "fst (redis_Run cfg ts) = waits_of cfg ts 0 \<and>
    list_all (\<lambda>d. Redis_ReconnectMin cfg \<le> d \<and> d \<le> Redis_ReconnectMax cfg) (fst (redis_Run cfg ts))"
proof -
  have h: "0 < Redis_ReconnectMin cfg" "Redis_ReconnectMin cfg \<le> Redis_ReconnectMax cfg"
    using assms(1) by (auto simp: valid_redis_def)
  have "Redis_ReconnectMin cfg * 1 \<le> Redis_ReconnectMin cfg * 2 ^ k" for k :: nat
    using h(1) by (intro mult_left_mono) auto
  then have range: "Redis_ReconnectMin cfg \<le> nth_wait cfg k \<and> nth_wait cfg k \<le> Redis_ReconnectMax cfg" for k
    using h by (simp add: nth_wait_def)
  have "list_all (\<lambda>d. Redis_ReconnectMin cfg \<le> d \<and> d \<le> Redis_ReconnectMax cfg) (waits_of cfg ts k)" for k
    by (induction ts arbitrary: k) (auto simp: Let_def range)
  moreover have "nth_wait cfg 0 = Redis_ReconnectMin cfg" using h by (simp add: nth_wait_def)
  then have "fst (redis_Run cfg ts) = waits_of cfg ts 0"
    using run_loop_waits [OF h assms(2), of ts 0] by (simp add: redis_Run_def)
  ultimately show ?thesis by simp
qed

lemma two_pools_redis: "valid_redis (cfg_Redis two_pools)" "Redis_ReconnectMax (cfg_Redis two_pools) = 30000000000"
    "Redis_ReconnectMin (cfg_Redis two_pools) = 500000000"
  by (simp_all add: two_pools_def applyDefaults_def bareConfig_def default_defs setStr_def setDur_def valid_redis_def
      duration_units)

lemma redis_backoff_witness:
  "fst (redis_Run (cfg_Redis two_pools)
     (replicate 8 \<lparr>tn_msgs = [], tn_err = ''refused'', tn_ended = False, tn_ended_wait = False\<rparr>))
   = [500000000, 1000000000, 2000000000, 4000000000, 8000000000, 16000000000, 30000000000, 30000000000]"
proof -
  have max: "Redis_ReconnectMax (cfg_Redis two_pools) \<le> 2 ^ 62 - 1" by (simp add: two_pools_redis)
  show ?thesis
    using redis_backoff [OF two_pools_redis(1) max]
    by (simp add: nth_wait_def two_pools_redis eval_nat_numeral)
qed

text \<open>
  Beyond \<open>2 ^ 62\<close> nanoseconds the doubling wraps: a config the validator accepts makes the
  loop wait a negative time, which is no wait at all.
\<close>

lemma redis_backoff_wraps:
  "let cfg = (cfg_Redis two_pools)\<lparr>Redis_ReconnectMin := 2 ^ 62, Redis_ReconnectMax := 2 ^ 62\<rparr>;
       t = \<lparr>tn_msgs = [], tn_err = ''refused'', tn_ended = False, tn_ended_wait = False\<rparr>
   in valid_redis cfg \<and> fst (redis_Run cfg [t, t]) = [2 ^ 62, - (2 ^ 63)]"
  using two_pools_redis(1)
  by (simp add: valid_redis_def redis_Run_def session_def wrap64_def Let_def split_beta)

section \<open>The subscription pattern\<close>

definition glob_special :: "char \<Rightarrow> bool" where
  "glob_special c \<longleftrightarrow> c \<in> {CHR ''*'', CHR ''?'', CHR ''['', CHR '']'', CHR 0x5C}"

text \<open>The loop over the runes of the prefix; only a one-byte rune can be in \<open>*?[]\\<close>.\<close>

definition pattern_rune :: "string \<Rightarrow> string" where
  "pattern_rune r = (if length r = 1 \<and> glob_special (hd r) then CHR 0x5C # r else r)"

definition pattern :: "string \<Rightarrow> string" where
  "pattern prefix = concat (map pattern_rune (runes prefix)) @ ''*''"

lemma rune2_ok_high: "rune2_ok a b \<Longrightarrow> 0x80 \<le> byte b"
  by (auto simp: rune2_ok_def Let_def split: if_splits)

lemma cont_high: "cont c \<Longrightarrow> 0x80 \<le> byte c"
  by (simp add: cont_def)

lemma rune_len_cases:
  assumes "rune_len s \<noteq> 0"
  obtains a t where "s = a # t" "rune_len s = 1"
    | a b t where "s = a # b # t" "rune_len s = 2" "0x80 \<le> byte a" "0x80 \<le> byte b"
    | a b c t where "s = a # b # c # t" "rune_len s = 3" "0x80 \<le> byte a" "0x80 \<le> byte b" "0x80 \<le> byte c"
    | a b c d t where "s = a # b # c # d # t" "rune_len s = 4" "0x80 \<le> byte a" "0x80 \<le> byte b" "0x80 \<le> byte c"
        "0x80 \<le> byte d"
proof -
  obtain a t where s: "s = a # t" using assms by (cases s) (auto simp: rune_len_def)
  show ?thesis
  proof (cases "byte a < 0x80")
    case True
    with s show ?thesis using that(1) by (simp add: rune_len_def)
  next
    case False
    have r: "rune_len s \<in> {2, 3, 4}"
      using assms False by (auto simp: s rune_len_def split: list.splits if_splits)
    obtain b t1 where t: "t = b # t1" "rune2_ok a b"
      using assms False by (auto simp: s rune_len_def split: list.splits if_splits)
    have b: "0x80 \<le> byte b" using rune2_ok_high [OF t(2)] .
    consider "rune_len s = 2" | "rune_len s = 3" | "rune_len s = 4" using r by blast
    then show ?thesis
    proof cases
      case 1
      with that(2) s t False b show ?thesis by simp
    next
      case 2
      then obtain c t2 where "t1 = c # t2" "cont c"
        using False by (auto simp: s t rune_len_def split: list.splits if_splits)
      with that(3) s t False b 2 cont_high show ?thesis by simp
    next
      case 3
      then obtain c d t2 where "t1 = c # d # t2" "cont c" "cont d"
        using False by (auto simp: s t rune_len_def split: list.splits if_splits)
      with that(4) s t False b 3 cont_high show ?thesis by simp
    qed
  qed
qed

lemma rune_bytes:
  assumes "rune_len s \<noteq> 0"
  shows "length (take (rune_len s) s) = 1 \<or> (\<forall>c \<in> set (take (rune_len s) s). 0x80 \<le> byte c)"
  using assms by (rule rune_len_cases) (simp_all add: eval_nat_numeral)

lemma runes_bytes: "r \<in> set (runes s) \<Longrightarrow> length r = 1 \<or> (\<forall>c \<in> set r. 0x80 \<le> byte c)"
proof (induction s rule: runes.induct)
  case (1 s)
  show ?case
  proof (cases "s = [] \<or> rune_len s = 0")
    case True
    with 1 show ?thesis by (auto simp: runes.simps [of s] replacement_rune_def split: if_splits)
  next
    case False
    then have "runes s = take (rune_len s) s # runes (drop (rune_len s) s)" by (simp add: runes.simps [of s])
    with 1 False rune_bytes [of s] show ?thesis by auto
  qed
qed

lemma high_not_special: "0x80 \<le> byte c \<Longrightarrow> \<not> glob_special c"
  by (auto simp: glob_special_def)

text \<open>C25: \<open>PSUBSCRIBE\<close> with the pattern matches exactly the channels that start with the
  prefix, also when the prefix contains glob metacharacters, for every matcher that
  follows the documented rules for \<open>*\<close> at the end, for a backslash before a
  metacharacter and for every other character.\<close>

theorem pattern_matches_prefix:
  assumes star: "\<And>s. glob ''*'' s"
    and literal: "\<And>c p s. \<not> glob_special c \<Longrightarrow> glob (c # p) s \<longleftrightarrow> (\<exists>t. s = c # t \<and> glob p t)"
    and escape: "\<And>c p s. glob_special c \<Longrightarrow> glob (CHR 0x5C # c # p) s \<longleftrightarrow> (\<exists>t. s = c # t \<and> glob p t)"
    and utf8: "valid_utf8 prefix"
  shows "glob (pattern prefix) s \<longleftrightarrow> has_prefix s prefix"
proof -
  have lit: "list_all (\<lambda>c. \<not> glob_special c) r \<Longrightarrow> glob (r @ p) s \<longleftrightarrow> (\<exists>t. s = r @ t \<and> glob p t)" for r p s
  proof (induction r arbitrary: s)
    case (Cons c r)
    then show ?case by (auto simp: literal)
  qed simp
  have rune: "glob (pattern_rune r @ p) s \<longleftrightarrow> (\<exists>t. s = r @ t \<and> glob p t)" if "r \<in> set (runes prefix)" for r p s
  proof (cases "length r = 1 \<and> glob_special (hd r)")
    case True
    then obtain c where "r = [c]" by (cases r) auto
    with True show ?thesis by (simp add: pattern_rune_def escape)
  next
    case False
    have "list_all (\<lambda>c. \<not> glob_special c) r"
      using runes_bytes [OF that] False high_not_special by (cases r) (auto simp: list_all_iff)
    moreover have "pattern_rune r = r" unfolding pattern_rune_def using False by (rule if_not_P)
    ultimately show ?thesis using lit by simp
  qed
  have "set rs \<subseteq> set (runes prefix) \<Longrightarrow>
      glob (concat (map pattern_rune rs) @ ''*'') s \<longleftrightarrow> (\<exists>t. s = concat rs @ t)" for rs s
  proof (induction rs arbitrary: s)
    case (Cons r rs)
    then show ?case by (auto simp: rune)
  qed (simp add: star)
  from this [of "runes prefix" s] utf8 show ?thesis
    by (simp add: pattern_def has_prefix_iff valid_utf8_def)
qed

text \<open>A matcher without \<open>?\<close> and character classes, to show the hypotheses can hold.\<close>

fun star_match :: "string \<Rightarrow> string \<Rightarrow> bool" where
  "star_match [] s \<longleftrightarrow> s = []"
| "star_match (c # p) s \<longleftrightarrow>
     (if c = CHR ''*'' then list_ex (\<lambda>i. star_match p (drop i s)) [0..<Suc (length s)]
      else if c = CHR 0x5C then
        (case p of [] \<Rightarrow> s = [c] | d # q \<Rightarrow> s \<noteq> [] \<and> hd s = d \<and> star_match q (tl s))
      else s \<noteq> [] \<and> hd s = c \<and> star_match p (tl s))"

lemma pattern_matches_prefix_witness: "star_match (pattern ''jobs[1]*:'') ''jobs[1]*:encoding''"
proof -
  have star: "star_match ''*'' s" for s
    by (auto simp: list_ex_iff intro!: bexI [of _ "length s"])
  have lit: "star_match (c # p) s \<longleftrightarrow> (\<exists>t. s = c # t \<and> star_match p t)" if "\<not> glob_special c" for c p s
    using that by (cases s) (auto simp: glob_special_def)
  have esc: "star_match (CHR 0x5C # c # p) s \<longleftrightarrow> (\<exists>t. s = c # t \<and> star_match p t)" for c p s
    by (cases s) auto
  have "valid_utf8 ''jobs[1]*:''" by code_simp
  with pattern_matches_prefix [of star_match "''jobs[1]*:''" "''jobs[1]*:encoding''"] star lit esc
  show ?thesis by (simp add: has_prefix_def)
qed

end
