(* ===== verification/Metrics.thy ===== *)
theory Metrics
  imports HttpApi RedisIn
begin

text \<open>
  Package \<open>internal/metrics\<close>.  The prometheus client is third-party code: the model is the
  calls the methods make on it, with the label names each vector was created with.  The
  client documents two panics, \<open>WithLabelValues\<close> with the wrong number of values and
  \<open>Add\<close> of a negative number to a counter; \<open>call_ok\<close> rules both out.
\<close>

section \<open>Vectors and calls\<close>

datatype vec = VSpawns | VSpawnErrors | VExits | VKills | VDuration | VTrips | VHints | VDrops | VTasks

fun vec_labels :: "vec \<Rightarrow> string list" where
  "vec_labels VSpawns = [''pool'']"
| "vec_labels VSpawnErrors = [''pool'']"
| "vec_labels VExits = [''pool'', ''result'', ''code'']"
| "vec_labels VKills = [''pool'', ''reason'']"
| "vec_labels VDuration = [''pool'', ''result'']"
| "vec_labels VTrips = [''pool'']"
| "vec_labels VHints = [''source'', ''pool'']"
| "vec_labels VDrops = [''source'', ''pool'', ''reason'']"
| "vec_labels VTasks = [''pool'']"

datatype pcall =
    PWith vec "string list"
  | PInc vec "string list"
  | PAdd vec "string list" f64
  | PObserve vec "string list" f64
  | PSetConnected int
  | PIncReconnects

text \<open>\<open>init\<close>: the series of one pool that exist from the start.\<close>

definition metrics_init :: "string \<Rightarrow> pcall list" where
  "metrics_init p =
     [PWith VSpawns [p], PWith VSpawnErrors [p], PWith VTrips [p], PWith VTasks [p]] @
     map (\<lambda>reason. PWith VKills [p, reason]) [KillTTL, KillShutdown] @
     map (\<lambda>result. PWith VDuration [p, result]) [''ok'', ''failure'', ''killed''] @
     concat (map (\<lambda>source. [PWith VHints [source, p], PWith VDrops [source, p, ''exit_cooldown'']])
       [SourceRedis, SourceHTTP, SourcePoke, SourceWorker])"

text \<open>Division by a positive finite number, and \<open>Duration.Seconds\<close>.\<close>

definition f64_div_pos :: "f64 \<Rightarrow> rat \<Rightarrow> f64" where
  "f64_div_pos x b = (case x of Fin a \<Rightarrow> to_f64 (a / b) | y \<Rightarrow> y)"

definition quot_trunc :: "int \<Rightarrow> int \<Rightarrow> int" where
  "quot_trunc a b = sgn a * (\<bar>a\<bar> div b)"

definition duration_Seconds :: "duration \<Rightarrow> f64" where
  "duration_Seconds d =
     (let sec = quot_trunc d second; nsec = d - sec * second
      in f64_add (f64_of_int sec) (f64_div_pos (f64_of_int nsec) 1000000000))"

text \<open>The methods of \<open>pool.Metrics\<close>, which \<open>app.Metrics\<close> shares, and of \<open>redisin.Metrics\<close>.\<close>

fun metric_calls :: "mevent \<Rightarrow> pcall list" where
  "metric_calls (MSpawn p) = [PInc VSpawns [p]]"
| "metric_calls (MSpawnError p) = [PInc VSpawnErrors [p]]"
| "metric_calls (MExit p result code d) =
     [PInc VExits [p, result, code], PObserve VDuration [p, result] (duration_Seconds d)]"
| "metric_calls (MKill p reason) = [PInc VKills [p, reason]]"
| "metric_calls (MTrip p) = [PInc VTrips [p]]"
| "metric_calls (MHint source p) = [PInc VHints [source, p]]"
| "metric_calls (MDrop source p reason) = [PInc VDrops [source, p, reason]]"
| "metric_calls (MTasks p n) = [PAdd VTasks [p] (f64_of_int n)]"

fun redis_metric_calls :: "rmetric \<Rightarrow> pcall list" where
  "redis_metric_calls (RConnected up) = [PSetConnected (if up then 1 else 0)]"
| "redis_metric_calls RReconnect = [PIncReconnects]"
| "redis_metric_calls (RDrop source p reason) = [PInc VDrops [source, p, reason]]"

fun call_ok :: "pcall \<Rightarrow> bool" where
  "call_ok (PWith v ls) \<longleftrightarrow> length ls = length (vec_labels v)"
| "call_ok (PInc v ls) \<longleftrightarrow> length ls = length (vec_labels v)"
| "call_ok (PAdd v ls x) \<longleftrightarrow> length ls = length (vec_labels v) \<and> \<not> f64_less x (Fin 0)"
| "call_ok (PObserve v ls x) \<longleftrightarrow> length ls = length (vec_labels v)"
| "call_ok (PSetConnected n) \<longleftrightarrow> True"
| "call_ok PIncReconnects \<longleftrightarrow> True"

lemma f64_of_int_nonneg: "0 \<le> n \<Longrightarrow> \<not> f64_less (f64_of_int n) (Fin 0)"
proof -
  assume n: "0 \<le> n"
  then have "(0 :: rat) \<le> of_int n" by simp
  then show ?thesis
    unfolding f64_of_int_def using round53_nonneg [of "of_int n"]
    by (rule_tac to_f64_nonneg_cases [of "of_int n"]) simp_all
qed

text \<open>An event of one pool: it carries the pool's name, and a task count is not negative.\<close>

fun event_pool :: "mevent \<Rightarrow> string" where
  "event_pool (MSpawn p) = p"
| "event_pool (MSpawnError p) = p"
| "event_pool (MExit p r c d) = p"
| "event_pool (MKill p r) = p"
| "event_pool (MTrip p) = p"
| "event_pool (MHint a p) = p"
| "event_pool (MDrop a p r) = p"
| "event_pool (MTasks p n) = p"

definition event_ok :: "string \<Rightarrow> mevent \<Rightarrow> bool" where
  "event_ok name e \<longleftrightarrow> event_pool e = name \<and> (case e of MTasks p n \<Rightarrow> 0 \<le> n | _ \<Rightarrow> True)"

lemma metric_calls_ok: "event_ok name e \<Longrightarrow> list_all call_ok (metric_calls e)"
  by (cases e) (simp_all add: event_ok_def f64_of_int_nonneg)

lemma metrics_init_ok: "list_all call_ok (metrics_init p)"
  by (simp add: metrics_init_def)

lemma redis_metric_calls_ok: "list_all call_ok (redis_metric_calls e)"
  by (cases e) simp_all

section \<open>No pool ever adds a negative count\<close>

definition record_ok :: "worker \<Rightarrow> bool" where
  "record_ok w \<longleftrightarrow> (case w_phase w of RecordedExit r \<Rightarrow> 0 \<le> er_tasks r | _ \<Rightarrow> True)"

abbreviation events_ok :: "string \<Rightarrow> pool_sys \<Rightarrow> bool" where
  "events_ok name s \<equiv> list_all (event_ok name) (s_metrics s)"

definition tasks_inv :: "pool_sys \<Rightarrow> bool" where
  "tasks_inv s \<longleftrightarrow> events_ok (pc_Name (p_cfg s)) s \<and> list_all record_ok (s_workers s)"

lemma event_ok_simps [simp]:
  "event_ok q (MSpawn p) \<longleftrightarrow> p = q" "event_ok q (MSpawnError p) \<longleftrightarrow> p = q"
  "event_ok q (MExit p r c d) \<longleftrightarrow> p = q" "event_ok q (MKill p r) \<longleftrightarrow> p = q"
  "event_ok q (MTrip p) \<longleftrightarrow> p = q" "event_ok q (MHint a p) \<longleftrightarrow> p = q" "event_ok q (MDrop a p r) \<longleftrightarrow> p = q"
  "event_ok q (MTasks p n) \<longleftrightarrow> p = q \<and> 0 \<le> n"
  by (auto simp: event_ok_def)

lemma failureLocked_events:
  "pc_Name (p_cfg s) = name \<Longrightarrow> events_ok name (failureLocked E k v s) = events_ok name s"
  by (simp add: failureLocked_def clock_now_def Let_def split: prod.split)

lemma failureLocked_cfg [simp]: "p_cfg (failureLocked E k v s) = p_cfg s"
  by (simp add: failureLocked_def clock_now_def Let_def split: prod.split)

lemma spawnLocked_cfg [simp]: "p_cfg (snd (spawnLocked E src s)) = p_cfg s"
  by (simp add: spawnLocked_def clock_now_def Let_def split: sum.split)

lemma spawnLocked_events:
  "pc_Name (p_cfg s) = name \<Longrightarrow> events_ok name (snd (spawnLocked E src s)) = events_ok name s"
  by (simp add: spawnLocked_def clock_now_def Let_def failureLocked_events split: sum.split)

lemma spawn_loop_events:
  "spawn_loop E src n s = (k, t) \<Longrightarrow> pc_Name (p_cfg s) = name \<Longrightarrow> events_ok name t = events_ok name s"
proof (induction n arbitrary: s k t)
  case (Suc n)
  obtain r u where sp: "spawnLocked E src s = (r, u)" by fastforce
  with spawnLocked_events [of s name E src] spawnLocked_cfg [of E src s] Suc.prems(2)
  have u: "events_ok name u = events_ok name s" "pc_Name (p_cfg u) = name" by simp_all
  show ?case
  proof (cases r)
    case True
    with Suc.prems sp obtain k' where "spawn_loop E src n u = (k', t)" by (auto split: prod.splits)
    with Suc.IH u show ?thesis by simp
  qed (use Suc.prems sp u in simp)
qed simp

lemma Hint_events: "pc_Name (p_cfg s) = name \<Longrightarrow> events_ok name (snd (pool_Hint E src n s)) = events_ok name s"
  by (auto simp: pool_Hint_def clock_now_def Let_def split: prod.split dest!: spawn_loop_events)

lemma recordExit_events:
  "pc_Name (p_cfg s) = name \<Longrightarrow> events_ok name (snd (recordExit E r t s)) = events_ok name s"
  by (simp add: recordExit_def Let_def failureLocked_events)

lemma recordExit_cfg [simp]: "p_cfg (snd (recordExit E r t s)) = p_cfg s"
  by (simp add: recordExit_def Let_def)

lemma parseTasks_ge_0: "0 \<le> fst (parseTasks l)"
  using parseTasks_nonneg [of l "fst (parseTasks l)" "snd (parseTasks l)"] by simp

lemma record_ok_update:
  "list_all record_ok ws \<Longrightarrow> record_ok w \<Longrightarrow> list_all record_ok (ws[i := w])"
  by (auto simp: list_all_iff dest: set_update_subset_insert [THEN subsetD])

lemma record_ok_started: "started s k t \<Longrightarrow> list_all record_ok (s_workers s) \<Longrightarrow> list_all record_ok (s_workers t)"
  by (auto simp: started_def record_ok_def list_all_iff dest!: core_eqD)

lemma tasks_inv_Hint: "tasks_inv s \<Longrightarrow> tasks_inv (snd (pool_Hint E src n s))"
  using pool_Hint_started [of s E n src] record_ok_started Hint_events [of s _ E src n]
  by (auto simp: tasks_inv_def started_def dest: core_eqD)

lemma tasks_inv_step: "pool_step E s a s' \<Longrightarrow> tasks_inv s \<Longrightarrow> tasks_inv s'"
proof (induction rule: pool_step.induct)
  case (hint s src n)
  then show ?case by (rule tasks_inv_Hint)
next
  case (poke s w c)
  then show ?case using tasks_inv_Hint [of s E SourcePoke "pc_PokeCount (p_cfg s)"]
    by (auto simp: poke_round_def tasks_inv_def split: prod.split)
next
  case (record_exit s i e r t)
  have "record_ok (w\<lparr>w_phase := RecordedExit (final_record u v e r t)\<rparr>)" for w u v
    by (simp add: record_ok_def final_record_def parseTasks_ge_0)
  with record_exit show ?case
    by (simp add: tasks_inv_def reap_record_final set_phase_def recordExit_events recordExit_workers record_ok_update)
next
  case (report s i r)
  then have "0 \<le> er_tasks r" by (auto simp: tasks_inv_def is_at_def record_ok_def list_all_length)
  with report show ?case
    by (simp add: tasks_inv_def reap_report_def logExit_def set_phase_def Let_def record_ok_update record_ok_def)
next
  case (chain s i r)
  have "tasks_inv (chained E r s)" using tasks_inv_Hint [OF chain(2)] chain(2) by (simp add: chained_def)
  then show ?case by (simp add: reap_chain_chained tasks_inv_def set_phase_def record_ok_update record_ok_def)
qed (auto simp: tasks_inv_def pool_Stats_def clock_now_def Let_def pool_Start_def Shutdown_begin_def wait_done_def
  leave_wait_def wait_ttl_def wait_stop_def reap_stamp_def set_phase_def record_ok_def
  intro!: record_ok_update split: prod.splits)

lemma tasks_inv_reachable: "reachable E cfg s \<Longrightarrow> tasks_inv s"
proof -
  have "pool_steps E t as s \<Longrightarrow> tasks_inv t \<Longrightarrow> tasks_inv s" for t as
    by (induction rule: pool_steps.induct) (auto dest: tasks_inv_step)
  moreover have "tasks_inv (pool_New cfg)" by (simp add: tasks_inv_def pool_New_def)
  ultimately show "reachable E cfg s \<Longrightarrow> tasks_inv s" by (auto simp: reachable_def)
qed

text \<open>No pool in any reachable state makes the metrics client panic: every call names as
  many label values as its vector was created with, and no counter is ever decreased,
  whatever the workers print.\<close>

theorem metrics_never_panic:
  assumes "reachable E cfg s"
  shows "list_all call_ok (concat (map metric_calls (s_metrics s)))"
  using tasks_inv_reachable [OF assms] metric_calls_ok [of "pc_Name (p_cfg s)"]
  by (auto simp: tasks_inv_def list_all_iff)

lemma metrics_never_panic_witness:
  "list_all call_ok (concat (map metric_calls (s_metrics demo_pool)))"
  by (rule metrics_never_panic [OF demo_reachable])

section \<open>The gauges\<close>

datatype desc = DRunning | DConcurrency | DLastHint | DLastExit | DActive | DLevel | DOpenUntil

text \<open>\<open>UnixNano\<close>: nanoseconds since 1970, in 64 bits.\<close>

definition unix_nano :: "gtime \<Rightarrow> int" where
  "unix_nano t = wrap64 (t - 62135596800 * second)"

definition gauge_unix :: "gtime \<Rightarrow> f64" where
  "gauge_unix t = (if time_is_zero t then Fin 0 else f64_div_pos (f64_of_int (unix_nano t)) 1000000000)"

definition gauge_bool :: "bool \<Rightarrow> f64" where
  "gauge_bool b = (if b then Fin 1 else Fin 0)"

definition pool_gauges :: "Stats \<Rightarrow> (desc \<times> f64) list" where
  "pool_gauges st =
     [(DRunning, f64_of_int (st_Running st)), (DConcurrency, f64_of_int (st_Concurrency st)),
      (DLastHint, gauge_unix (st_LastHint st)), (DLastExit, gauge_unix (st_LastExit st)),
      (DActive, gauge_bool (\<not> time_is_zero (st_BreakerOpenUntil st))),
      (DLevel, f64_of_int (st_BreakerLevel st)), (DOpenUntil, gauge_unix (st_BreakerOpenUntil st))]"

definition Collect :: "Stats gmap \<Rightarrow> (string \<times> (desc \<times> f64) list) list" where
  "Collect stats = map (\<lambda>(name, st). (name, pool_gauges st)) stats"

text \<open>The scraped gauges agree with the health endpoint on the same snapshots: the same
  pools, the same counts, an active cooldown exactly where \<open>open_until\<close> is not null, and a
  zero timestamp where the health field is null.\<close>

theorem Collect_agrees_with_health:
  assumes "gmap_ok stats" "map_of stats name = Some st"
  shows "map_of (Collect stats) name = Some (pool_gauges st) \<and>
    map_of (hr_Pools (resp_Body (healthHandler stats))) name = Some (toPoolHealth st) \<and>
    (let g = (\<lambda>d. map_of (pool_gauges st) d); h = toPoolHealth st in
      g DRunning = Some (f64_of_int (ph_Running h)) \<and> g DConcurrency = Some (f64_of_int (ph_Concurrency h)) \<and>
      g DLevel = Some (f64_of_int (bh_Level (ph_Breaker h))) \<and>
      g DActive = Some (gauge_bool (bh_OpenUntil (ph_Breaker h) \<noteq> None)) \<and>
      (ph_LastHint h = None \<longrightarrow> g DLastHint = Some (Fin 0)) \<and>
      (ph_LastExit h = None \<longrightarrow> g DLastExit = Some (Fin 0) \<and> ph_LastExitCode h = None) \<and>
      (bh_OpenUntil (ph_Breaker h) = None \<longrightarrow> g DOpenUntil = Some (Fin 0)))"
proof -
  have "map_of (Collect stats) name = Some (pool_gauges st)"
    using assms(2) by (simp add: Collect_def map_of_map [unfolded comp_def])
  moreover have "map_of (hr_Pools (resp_Body (healthHandler stats))) name = Some (toPoolHealth st)"
    using assms by (simp add: healthHandler_pools)
  ultimately show ?thesis
    by (simp add: pool_gauges_def toPoolHealth_def optTime_def gauge_unix_def Let_def)
qed

lemma Collect_agrees_with_health_witness:
  "map_of (pool_gauges (fst (pool_Stats demo_env cooling_pool))) DActive = Some (Fin 1)"
proof -
  let ?st = "fst (pool_Stats demo_env cooling_pool)"
  have "map_of (pool_gauges ?st) DActive = Some (gauge_bool (bh_OpenUntil (ph_Breaker (toPoolHealth ?st)) \<noteq> None))"
    using Collect_agrees_with_health [of "[(''p'', ?st)]" "''p''" ?st] by (simp add: Let_def)
  moreover have "st_BreakerOpenUntil ?st = 5000000003"
    by (simp add: pool_Stats_def cooling_pool_def pool_New_def demo_env_def clock_now_def breaker_open_def go_defs Let_def)
  ultimately show ?thesis by (simp add: toPoolHealth_def optTime_def go_defs gauge_bool_def Let_def)
qed

end
