(* ===== verification/App.thy ===== *)
theory App
  imports Metrics
begin

text \<open>
  \<open>internal/app/app.go\<close>: the wiring of a finalized config into pools, dispatcher, sources
  and listeners, and the errors of a run.  Goroutines, contexts and listeners are the
  Go runtime's: what each wait of \<open>stop\<close> ended with is an argument.
\<close>

section \<open>Wiring\<close>

definition hintBuffer :: nat where "hintBuffer = 64"

text \<open>The standalone metrics listener is its address; the handler itself is a flag.\<close>

record App =
  a_cfg :: Config
  a_pools :: "pool_sys gmap"
  a_routes :: "string route gmap"
  a_http :: "Server option"
  a_metrics :: "string option"
  a_sources :: "string list"

definition enabledPools :: "PoolConfig list \<Rightarrow> string list \<times> string list" where
  "enabledPools cfgs = fold (\<lambda>pc (names, channels).
     if pc_Enabled pc then (names @ [pc_Name pc], channels @ [pc_Channel pc]) else (names, channels)) cfgs ([], [])"

text \<open>The pools by name, and the same as targets of the dispatcher.\<close>

definition newPools :: "PoolConfig list \<Rightarrow> pool_sys gmap \<times> string gmap" where
  "newPools cfgs = fold (\<lambda>pc (pools, hinters).
     if \<not> pc_Enabled pc then (pools, hinters)
     else (gmap_put (pc_Name pc) (pool_New pc) pools, gmap_put (pc_Name pc) (pc_Name pc) hinters)) cfgs ([], [])"

definition newSources :: "Config \<Rightarrow> string list \<Rightarrow> bool \<Rightarrow> Server option \<times> string option \<times> string list" where
  "newSources cfg channels metricsHandler =
     (let standalone = metricsHandler \<and> Metrics_Addr (cfg_Metrics cfg) \<noteq> [];
          mainMetrics = (metricsHandler \<and> \<not> standalone)
      in (if HTTP_IsEnabled (cfg_HTTP cfg)
          then Some (httpapi_New (cfg_HTTP cfg) (Redis_ChannelPrefix (cfg_Redis cfg)) channels mainMetrics) else None,
          if standalone then Some (Metrics_Addr (cfg_Metrics cfg)) else None,
          (if HTTP_IsEnabled (cfg_HTTP cfg) then [SourceHTTP] else []) @
          (if Redis_IsEnabled (cfg_Redis cfg) then [SourceRedis] else [])))"

definition newApp :: "Config \<Rightarrow> App" where
  "newApp cfg =
     (let cfgs = ResolvedPools cfg;
          (names, channels) = enabledPools cfgs;
          (pools, hinters) = newPools cfgs;
          (http, metrics, sources) = newSources cfg channels (Metrics_IsEnabled (cfg_Metrics cfg))
      in \<lparr>a_cfg = cfg, a_pools = pools, a_routes = NewDispatcher cfgs hinters, a_http = http,
          a_metrics = metrics, a_sources = sources\<rparr>)"

text \<open>\<open>stats\<close>: one snapshot per pool; taking it moves the pool's breaker and clock.\<close>

definition app_stats :: "(string \<Rightarrow> env) \<Rightarrow> App \<Rightarrow> Stats gmap \<times> App" where
  "app_stats E a =
     (map (\<lambda>(name, s). (name, fst (pool_Stats (E name) s))) (a_pools a),
      a\<lparr>a_pools := map (\<lambda>(name, s). (name, snd (pool_Stats (E name) s))) (a_pools a)\<rparr>)"

section \<open>The errors of a run\<close>

datatype app_error =
    SourceFailed string string
  | MetricsListenerFailed string
  | StopSources string
  | StopDispatcher string
  | PoolShutdown string string

text \<open>\<open>await\<close> when the wait ended, or else the context with its error.\<close>

definition await :: "bool \<Rightarrow> string \<Rightarrow> string option" where
  "await ended ctx_err = (if ended then None else Some ctx_err)"

text \<open>\<open>results\<close>: what \<open>Shutdown\<close> returned for each pool, in the order the goroutines ended.\<close>

definition shutdownPools :: "(string \<times> string option) list \<Rightarrow> app_error list" where
  "shutdownPools results =
     concat (map (\<lambda>(name, r). case r of None \<Rightarrow> [] | Some e \<Rightarrow> [PoolShutdown name e]) results)"

definition app_stop ::
  "bool \<Rightarrow> bool \<Rightarrow> string \<Rightarrow> (string \<times> string option) list \<Rightarrow> app_error list \<Rightarrow> app_error list" where
  "app_stop sources_done dispatched ctx_err results errc =
     (case await sources_done ctx_err of None \<Rightarrow> [] | Some e \<Rightarrow> [StopSources e]) @
     (case await dispatched ctx_err of None \<Rightarrow> [] | Some e \<Rightarrow> [StopDispatcher e]) @
     shutdownPools results @ errc"

text \<open>\<open>Run\<close> returns the joined errors, nil when there is none.  \<open>failed\<close> is the error that
  ended it, if it was not the context; \<open>errc\<close> what is left in the channel at the end.\<close>

definition app_Run ::
  "app_error option \<Rightarrow> bool \<Rightarrow> bool \<Rightarrow> string \<Rightarrow> (string \<times> string option) list \<Rightarrow> app_error list \<Rightarrow> app_error list" where
  "app_Run failed sources_done dispatched ctx_err results errc =
     (case failed of None \<Rightarrow> [] | Some e \<Rightarrow> [e]) @ app_stop sources_done dispatched ctx_err results errc"

text \<open>\<open>Run\<close> returns nil only after a clean stop: no source or listener failed, sources
  and dispatcher have ended, and every pool is drained, with no worker running and every
  reaper done.\<close>

theorem Run_nil_is_clean:
  assumes "list_all (\<lambda>(name, s, r). (\<exists>E cfg. reachable E cfg s) \<and> p_stopping s \<and> Shutdown_returns s (Some ctx_err) r) pools"
    and "app_Run failed sources_done dispatched ctx_err (map (\<lambda>(name, s, r). (name, r)) pools) errc = []"
  shows "failed = None \<and> errc = [] \<and> sources_done \<and> dispatched \<and>
    list_all (\<lambda>(name, s, r). p_running s = 0 \<and> list_all (\<lambda>w. w_phase w = Reaped) (s_workers s)) pools"
proof -
  have "r = None" if "(name, s, r) \<in> set pools" for name s r
    using assms(2) that by (force simp: app_Run_def app_stop_def shutdownPools_def split: option.splits)
  then have "p_running s = 0 \<and> list_all (\<lambda>w. w_phase w = Reaped) (s_workers s)" if "(name, s, r) \<in> set pools" for name s r
    using assms(1) that all_reaped [OF pool_inv_reachable] by (fastforce simp: list_all_iff Shutdown_returns_def)
  then show ?thesis
    using assms(2) by (auto simp: app_Run_def app_stop_def await_def list_all_iff split: option.splits if_splits)
qed

lemma Run_nil_is_clean_witness:
  "app_Run None True True ''deadline'' [(''p'', None)] [] = [] \<and> p_running (Shutdown_begin (pool_New demo_cfg)) = 0"
proof -
  have "reachable demo_env demo_cfg (Shutdown_begin (pool_New demo_cfg))"
    unfolding reachable_def using pool_steps_one [OF pool_step.shutdown] by blast
  then have "list_all (\<lambda>(name, s, r). (\<exists>E cfg. reachable E cfg s) \<and> p_stopping s \<and>
      Shutdown_returns s (Some ''deadline'') r) [(''p'', Shutdown_begin (pool_New demo_cfg), None)]"
    by (auto simp: Shutdown_returns_def) (simp_all add: Shutdown_begin_def pool_New_def)
  moreover have "app_Run None True True ''deadline'' (map (\<lambda>(name, s, r). (name, r))
      [(''p'', Shutdown_begin (pool_New demo_cfg), None)]) [] = []"
    by (simp add: app_Run_def app_stop_def await_def shutdownPools_def)
  ultimately show ?thesis using Run_nil_is_clean by fastforce
qed

section \<open>From the document to the pool\<close>

lemma enabledPools_eq: "enabledPools cfgs = (map pc_Name (filter pc_Enabled cfgs), map pc_Channel (filter pc_Enabled cfgs))"
proof -
  have "fold (\<lambda>pc (names, channels).
      if pc_Enabled pc then (names @ [pc_Name pc], channels @ [pc_Channel pc]) else (names, channels)) cfgs (ns, cs)
    = (ns @ map pc_Name (filter pc_Enabled cfgs), cs @ map pc_Channel (filter pc_Enabled cfgs))" for ns cs
    by (induction cfgs arbitrary: ns cs) auto
  then show ?thesis by (simp add: enabledPools_def)
qed

lemma newPools_eq:
  "newPools cfgs =
     (fold (\<lambda>pc. gmap_put (pc_Name pc) (pool_New pc)) (filter pc_Enabled cfgs) [],
      fold (\<lambda>pc. gmap_put (pc_Name pc) (pc_Name pc)) (filter pc_Enabled cfgs) [])"
proof -
  have "fold (\<lambda>pc (pools, hinters).
      if \<not> pc_Enabled pc then (pools, hinters)
      else (gmap_put (pc_Name pc) (pool_New pc) pools, gmap_put (pc_Name pc) (pc_Name pc) hinters)) cfgs (ps, hs) =
     (fold (\<lambda>pc. gmap_put (pc_Name pc) (pool_New pc)) (filter pc_Enabled cfgs) ps,
      fold (\<lambda>pc. gmap_put (pc_Name pc) (pc_Name pc)) (filter pc_Enabled cfgs) hs)" for ps hs
    by (induction cfgs arbitrary: ps hs) auto
  then show ?thesis by (simp add: newPools_def)
qed

lemma newPools_lookup:
  assumes "distinct (map pc_Name cfgs)" "p \<in> set cfgs" "pc_Enabled p"
  shows "map_of (fst (newPools cfgs)) (pc_Name p) = Some (pool_New p)"
    "map_of (snd (newPools cfgs)) (pc_Name p) = Some (pc_Name p)"
proof -
  have d: "distinct (map pc_Name (filter pc_Enabled cfgs))" using assms(1) by (rule distinct_map_filter)
  have "p \<in> set (filter pc_Enabled cfgs)" using assms by simp
  note find = find_key [OF d this]
  show "map_of (fst (newPools cfgs)) (pc_Name p) = Some (pool_New p)"
    "map_of (snd (newPools cfgs)) (pc_Name p) = Some (pc_Name p)"
    by (simp_all only: newPools_eq fst_conv snd_conv map_of_fold_key [OF d] find option.case)
qed

lemma newApp_fields:
  "a_pools (newApp c) = fst (newPools (ResolvedPools c))"
  "a_routes (newApp c) = NewDispatcher (ResolvedPools c) (snd (newPools (ResolvedPools c)))"
  "a_http (newApp c) = fst (newSources c (map pc_Channel (filter pc_Enabled (ResolvedPools c))) (Metrics_IsEnabled (cfg_Metrics c)))"
  by (simp_all add: newApp_def enabledPools_eq Let_def split: prod.split)

lemma fold_put_unit: "fst ` set (fold (\<lambda>c known. gmap_put c () known) channels m) = set channels \<union> fst ` set m"
  by (induction channels arbitrary: m) auto

text \<open>With a finalized config every enabled pool exists, its channel is its own, and the
  route of that channel leads to it.\<close>

lemma enabled_pool_route:
  assumes "Finalize c0 = Inr c" "gmap_ok (cfg_Pools c)" "p \<in> set (ResolvedPools c)" "pc_Enabled p"
  shows "map_of (a_pools (newApp c)) (pc_Name p) = Some (pool_New p)"
    "map_of (a_routes (newApp c)) (pc_Channel p) = Some \<lparr>rt_pool = pc_Name p, rt_target = Some (pc_Name p)\<rparr>"
    "\<forall>q \<in> set (ResolvedPools c). pc_Channel q = pc_Channel p \<longrightarrow> q = p"
proof -
  let ?cfgs = "ResolvedPools c"
  have "valid_config c" using assms(1) unfolding Finalize_Inr_iff by blast
  then have channels: "distinct (map pc_Channel ?cfgs)" by (simp add: valid_config_def)
  note look = newPools_lookup [OF ResolvedPools_distinct [OF assms(2)] assms(3,4)]
  show "map_of (a_pools (newApp c)) (pc_Name p) = Some (pool_New p)" using look by (simp add: newApp_fields)
  have "map_of (a_routes (newApp c)) (pc_Channel p) = Some (make_route (snd (newPools ?cfgs)) p)"
    using route_of [OF channels assms(3)] by (simp add: newApp_fields)
  then show "map_of (a_routes (newApp c)) (pc_Channel p) = Some \<lparr>rt_pool = pc_Name p, rt_target = Some (pc_Name p)\<rparr>"
    using assms(4) look by (simp add: make_route_def)
  show "\<forall>q \<in> set ?cfgs. pc_Channel q = pc_Channel p \<longrightarrow> q = p"
    using find_key [OF channels] assms(3) by (metis option.inject)
qed

text \<open>The channels the HTTP endpoint knows are those of the enabled pools.\<close>

lemma known_channel_pool:
  assumes "Finalize c0 = Inr c" "gmap_ok (cfg_Pools c)" "a_http (newApp c) = Some server"
    and "ch \<in> fst ` set (srv_channels server)"
  shows "\<exists>p \<in> set (ResolvedPools c). pc_Enabled p \<and> pc_Channel p = ch \<and>
    (\<forall>q \<in> set (ResolvedPools c). pc_Channel q = ch \<longrightarrow> q = p) \<and>
    map_of (a_pools (newApp c)) (pc_Name p) = Some (pool_New p) \<and>
    map_of (a_routes (newApp c)) ch = Some \<lparr>rt_pool = pc_Name p, rt_target = Some (pc_Name p)\<rparr>"
proof -
  let ?cfgs = "ResolvedPools c"
  have "srv_channels server = fold (\<lambda>c known. gmap_put c () known) (map pc_Channel (filter pc_Enabled ?cfgs)) []"
    using assms(3) by (auto simp: newApp_fields newSources_def httpapi_New_def Let_def split: if_splits)
  then have "fst ` set (srv_channels server) = pc_Channel ` set (filter pc_Enabled ?cfgs)"
    by (simp only: fold_put_unit set_map) simp
  with assms(4) obtain p where p: "p \<in> set ?cfgs" "pc_Enabled p" "pc_Channel p = ch" by auto
  with enabled_pool_route [OF assms(1,2) p(1,2)] show ?thesis by blast
qed

text \<open>C7: a hint the HTTP endpoint has accepted is never lost on the way: with a finalized
  config its channel belongs to exactly one enabled pool, that pool exists, and the
  dispatcher hands it the hint with its count, without a drop.\<close>

theorem accepted_hint_reaches_pool:
  assumes "Finalize c0 = Inr c" "gmap_ok (cfg_Pools c)" "a_http (newApp c) = Some server"
    and "h \<in> set (snd (hintHandler decode server ends body))"
  shows "\<exists>p \<in> set (ResolvedPools c). pc_Enabled p \<and> pc_Channel p = Hint_Pool h \<and>
    (\<forall>q \<in> set (ResolvedPools c). pc_Channel q = Hint_Pool h \<longrightarrow> q = p) \<and>
    map_of (a_pools (newApp c)) (pc_Name p) = Some (pool_New p) \<and>
    (fst (Dispatch hint (a_routes (newApp c)) h s), d_world (snd (Dispatch hint (a_routes (newApp c)) h s)))
      = hint (pc_Name p) (Hint_Source h) (Hint_Count h) (d_world s) \<and>
    d_metrics (snd (Dispatch hint (a_routes (newApp c)) h s)) = d_metrics s"
proof -
  have "Hint_Pool h \<in> fst ` set (srv_channels server)" using hintHandler_sent_routable [OF assms(4)] by simp
  from known_channel_pool [OF assms(1-3) this] obtain p where p: "p \<in> set (ResolvedPools c)" "pc_Enabled p"
    "pc_Channel p = Hint_Pool h" "\<forall>q \<in> set (ResolvedPools c). pc_Channel q = Hint_Pool h \<longrightarrow> q = p"
    "map_of (a_pools (newApp c)) (pc_Name p) = Some (pool_New p)"
    "map_of (a_routes (newApp c)) (Hint_Pool h) = Some \<lparr>rt_pool = pc_Name p, rt_target = Some (pc_Name p)\<rparr>" by blast
  from p(6) have "(fst (Dispatch hint (a_routes (newApp c)) h s), d_world (snd (Dispatch hint (a_routes (newApp c)) h s)))
      = hint (pc_Name p) (Hint_Source h) (Hint_Count h) (d_world s) \<and>
      d_metrics (snd (Dispatch hint (a_routes (newApp c)) h s)) = d_metrics s"
    by (simp add: Dispatch_def dlog_def split: prod.split)
  with p show ?thesis by blast
qed

lemma two_pools_http: "a_http (newApp two_pools) = Some (httpapi_New (cfg_HTTP two_pools) ''jobs:'' [''a''] True)"
proof -
  have "HTTP_IsEnabled (cfg_HTTP two_pools)" "Metrics_IsEnabled (cfg_Metrics two_pools)"
    "Metrics_Addr (cfg_Metrics two_pools) = []" "Redis_ChannelPrefix (cfg_Redis two_pools) = ''jobs:''"
    by (simp_all add: two_pools_def applyDefaults_def bareConfig_def default_defs setStr_def setBool_def
        HTTP_IsEnabled_def Metrics_IsEnabled_def)
  then show ?thesis
    by (simp add: newApp_fields newSources_def Let_def two_pools_resolved resolve_layers plain_defs layer3_def)
qed

lemma accepted_hint_reaches_pool_witness:
  "\<exists>p \<in> set (ResolvedPools two_pools). pc_Channel p = ''a'' \<and>
     fst (Dispatch (\<lambda>name src n w. (n, w)) (a_routes (newApp two_pools))
       \<lparr>Hint_Source = SourceHTTP, Hint_Pool = ''a'', Hint_Count = 2\<rparr> \<lparr>d_world = (), d_log = [], d_metrics = []\<rparr>) = 2"
proof -
  let ?server = "httpapi_New (cfg_HTTP two_pools) ''jobs:'' [''a''] True"
  let ?h = "\<lparr>Hint_Source = SourceHTTP, Hint_Pool = ''a'', Hint_Count = 2\<rparr>"
  note f = two_pools_finalized
  have g: "gmap_ok (cfg_Pools two_pools)" by (simp add: two_pools_def applyDefaults_def bareConfig_def)
  have "list_all (good_entry ?server) [(''jobs:a'', 2)]" "entry_hint ?server (''jobs:a'', 2) = ?h"
    by (simp_all add: httpapi_New_def good_entry_def entry_hint_def has_prefix_def)
  then have "?h \<in> set (snd (hintHandler (\<lambda>_. Inr [(''jobs:a'', 2)]) ?server None []))"
    by (simp add: hintHandler_def parseHints_def parse_entries_eq(1) del: parse_entries.simps)
  from accepted_hint_reaches_pool [OF f g two_pools_http this, of "\<lambda>name src n w. (n, w)"
      "\<lparr>d_world = (), d_log = [], d_metrics = []\<rparr>"]
  show ?thesis by auto
qed

end
