(* ===== verification/Service.thy ===== *)
theory Service
  imports App
begin

text \<open>
  \<open>App.Run\<close> as a whole: the sources, the buffered channel, the dispatcher, the pools and
  the main goroutine with its ordered stop, as one step relation.  The state starts where
  \<open>startSources\<close> has returned.  Every pool moves by \<open>pool_step\<close> of \<open>PoolRun\<close>; hints
  reach it only through the dispatcher, \<open>Shutdown\<close> only through \<open>shutdownPools\<close>.

  What a source does inside (its requests, its redis session) is the environment's choice:
  it may send a hint at any time, also late, since a request handler can outlive the
  listener that was closed under it, and it may return with any error.
\<close>

section \<open>The state\<close>

text \<open>The goroutines \<open>startSources\<close> launches.\<close>

datatype bgrun = BSource string | BMetrics

text \<open>The text of an error, as \<open>fmt.Errorf\<close> formats it.\<close>

definition app_error_text :: "app_error \<Rightarrow> string" where
  "app_error_text e = (case e of
     SourceFailed name msg \<Rightarrow> name @ '' source: '' @ msg
   | MetricsListenerFailed msg \<Rightarrow> ''metrics listener: '' @ msg
   | StopSources msg \<Rightarrow> ''stop sources: '' @ msg
   | StopDispatcher msg \<Rightarrow> ''stop dispatcher: '' @ msg
   | PoolShutdown name msg \<Rightarrow> ''pool '' @ name @ '': shutdown: '' @ msg)"

text \<open>How far the goroutine of one pool in \<open>shutdownPools\<close> is.\<close>

datatype pstate = PPending | PWaiting | PDone

text \<open>Where the main goroutine is: in the \<open>select\<close> of \<open>Run\<close>, or in \<open>stop\<close> with the errors
  so far; while the pools shut down, how far each of their goroutines is.\<close>

datatype mainphase =
    MSelect
  | MSources "app_error list"
  | MDispatcher "app_error list"
  | MPools "app_error list" "pstate gmap"
  | MDrain "app_error list"
  | MReturned "app_error list"

record svc =
  sv_chan :: "Hint list"
  sv_d :: "pool_sys gmap dsys"
  sv_dispatched :: bool
  sv_bg :: "(bgrun \<times> bool) list"
  sv_errc :: "app_error list"
  sv_main :: mainphase
  sv_ctx :: bool
  sv_cancelled :: bool
  sv_expired :: bool
  sv_log :: "logline list"

text \<open>\<open>stopCtx.Err()\<close>; \<open>stopCtx\<close> is cancelled only when \<open>Run\<close> returns.\<close>

definition deadlineExceeded :: string where
  "deadlineExceeded = ''context deadline exceeded''"

definition bg_goroutines :: "App \<Rightarrow> bgrun list" where
  "bg_goroutines a = map BSource (a_sources a) @ (case a_metrics a of None \<Rightarrow> [] | Some addr \<Rightarrow> [BMetrics])"

definition errc_cap :: "App \<Rightarrow> nat" where
  "errc_cap a = length (a_sources a) + 1"

definition bg_error :: "bgrun \<Rightarrow> string \<Rightarrow> app_error" where
  "bg_error g e = (case g of BSource name \<Rightarrow> SourceFailed name e | BMetrics \<Rightarrow> MetricsListenerFailed e)"

definition svc_start :: "App \<Rightarrow> svc" where
  "svc_start a = \<lparr>
     sv_chan = [],
     sv_d = \<lparr>d_world = map (\<lambda>(name, p). (name, pool_Start p)) (a_pools a), d_log = [], d_metrics = []\<rparr>,
     sv_dispatched = False,
     sv_bg = map (\<lambda>g. (g, False)) (bg_goroutines a),
     sv_errc = [],
     sv_main = MSelect,
     sv_ctx = False, sv_cancelled = False, sv_expired = False,
     sv_log = [(Info, ''started'', [(''pools'', AInt (int (length (a_pools a)))),
                (''sources'', AInt (int (length (a_sources a))))])]\<rparr>"

section \<open>The steps\<close>

datatype saction =
    SSend Hint | SEnd nat "string option" | SDispatch Hint | SDispatchEnd
  | SPool string action | SCtx | SExpire
  | SShutdown | SAwaited bool | SPoolBegin string | SPoolEnd string "string option" | SDrain | SIdle

text \<open>What a pool does on its own: everything but \<open>Hint\<close>, \<open>Start\<close> and \<open>Shutdown\<close>.  A poke
  sees the run context.\<close>

definition internal :: "svc \<Rightarrow> action \<Rightarrow> bool" where
  "internal s a = (case a of AHint src n \<Rightarrow> False | AStart \<Rightarrow> False | AShutdown \<Rightarrow> False
     | APoke w c \<Rightarrow> c = sv_cancelled s | _ \<Rightarrow> True)"

definition set_pool :: "string \<Rightarrow> pool_sys \<Rightarrow> svc \<Rightarrow> svc" where
  "set_pool name p s = s\<lparr>sv_d := (sv_d s)\<lparr>d_world := gmap_put name p (d_world (sv_d s))\<rparr>\<rparr>"

abbreviation pool_of :: "svc \<Rightarrow> string \<Rightarrow> pool_sys option" where
  "pool_of s \<equiv> map_of (d_world (sv_d s))"

text \<open>A goroutine of \<open>startSources\<close> returns; its error goes to \<open>errc\<close>.\<close>

definition bg_end :: "nat \<Rightarrow> string option \<Rightarrow> svc \<Rightarrow> svc" where
  "bg_end i r s = s\<lparr>sv_bg := (sv_bg s)[i := (fst (sv_bg s ! i), True)],
     sv_errc := sv_errc s @ (case r of None \<Rightarrow> [] | Some e \<Rightarrow> [bg_error (fst (sv_bg s ! i)) e])\<rparr>"

text \<open>The two branches of the \<open>select\<close> of \<open>Run\<close>, with \<open>stopRun\<close>.\<close>

definition main_select :: "App \<Rightarrow> bool \<Rightarrow> svc \<Rightarrow> svc" where
  "main_select a by_ctx s =
     (if by_ctx then
        s\<lparr>sv_main := MSources [], sv_cancelled := True,
          sv_log := sv_log s @ [(Info, ''shutting down'', [(''timeout'', ADur (cfg_ShutdownTimeout (a_cfg a)))])]\<rparr>
      else
        s\<lparr>sv_main := MSources [hd (sv_errc s)], sv_errc := tl (sv_errc s), sv_cancelled := True,
          sv_log := sv_log s @ [(Error, ''source failed, shutting down'', [(''err'', AErr (app_error_text (hd (sv_errc s))))])]\<rparr>)"

text \<open>The two waits of \<open>stop\<close>; \<open>ended\<close> tells which branch \<open>await\<close> took.  After the second
  \<open>shutdownPools\<close> launches a goroutine per pool.\<close>

definition main_awaited :: "bool \<Rightarrow> svc \<Rightarrow> svc" where
  "main_awaited ended s =
     (case sv_main s of
        MSources errs \<Rightarrow> s\<lparr>sv_main := MDispatcher (errs @ (case await ended deadlineExceeded of None \<Rightarrow> [] | Some e \<Rightarrow> [StopSources e]))\<rparr>
      | MDispatcher errs \<Rightarrow>
          s\<lparr>sv_main := MPools (errs @ (case await ended deadlineExceeded of None \<Rightarrow> [] | Some e \<Rightarrow> [StopDispatcher e]))
                       (map (\<lambda>(name, p). (name, PPending)) (d_world (sv_d s)))\<rparr>
      | _ \<Rightarrow> s)"

definition shutdown_end :: "string \<Rightarrow> string option \<Rightarrow> svc \<Rightarrow> svc" where
  "shutdown_end name r s =
     (case sv_main s of
        MPools errs ps \<Rightarrow>
          s\<lparr>sv_main := MPools (errs @ (case r of None \<Rightarrow> [] | Some e \<Rightarrow> [PoolShutdown name e])) (gmap_put name PDone ps)\<rparr>
      | _ \<Rightarrow> s)"

text \<open>The end of \<open>stop\<close>: from the pools to the loop over \<open>errc\<close>, one receive, the return.\<close>

definition main_drain :: "svc \<Rightarrow> svc" where
  "main_drain s =
     (case sv_main s of
        MPools errs ps \<Rightarrow> s\<lparr>sv_main := MDrain errs\<rparr>
      | MDrain errs \<Rightarrow>
          (case sv_errc s of
             [] \<Rightarrow> s\<lparr>sv_main := MReturned errs\<rparr>
           | e # es \<Rightarrow> s\<lparr>sv_main := MDrain (errs @ [e]), sv_errc := es\<rparr>)
      | _ \<Rightarrow> s)"

definition returned :: "svc \<Rightarrow> bool" where
  "returned s \<longleftrightarrow> (case sv_main s of MReturned errs \<Rightarrow> True | _ \<Rightarrow> False)"

inductive svc_step :: "(string \<Rightarrow> env) \<Rightarrow> App \<Rightarrow> svc \<Rightarrow> saction \<Rightarrow> svc \<Rightarrow> bool" for E a where
  send: "length (sv_chan s) < hintBuffer \<Longrightarrow> svc_step E a s (SSend h) (s\<lparr>sv_chan := sv_chan s @ [h]\<rparr>)"
| bg_end: "i < length (sv_bg s) \<Longrightarrow> \<not> snd (sv_bg s ! i) \<Longrightarrow> r \<noteq> None \<longrightarrow> length (sv_errc s) < errc_cap a \<Longrightarrow>
    svc_step E a s (SEnd i r) (bg_end i r s)"
| dispatch: "\<not> sv_dispatched s \<Longrightarrow> sv_chan s = h # hs \<Longrightarrow>
    svc_step E a s (SDispatch h) (s\<lparr>sv_chan := hs, sv_d := snd (Dispatch (pools_hint E) (a_routes a) h (sv_d s))\<rparr>)"
| dispatch_end: "\<not> sv_dispatched s \<Longrightarrow> sv_cancelled s \<Longrightarrow> svc_step E a s SDispatchEnd (s\<lparr>sv_dispatched := True\<rparr>)"
| pool: "pool_of s name = Some p \<Longrightarrow> pool_step (E name) p x p' \<Longrightarrow> internal s x \<Longrightarrow>
    svc_step E a s (SPool name x) (set_pool name p' s)"
| ctx_done: "svc_step E a s SCtx (s\<lparr>sv_ctx := True\<rparr>)"
| expire: "sv_cancelled s \<Longrightarrow> \<not> sv_expired s \<Longrightarrow> \<not> returned s \<Longrightarrow> svc_step E a s SExpire (s\<lparr>sv_expired := True\<rparr>)"
| select_ctx: "sv_main s = MSelect \<Longrightarrow> sv_ctx s \<Longrightarrow> svc_step E a s SShutdown (main_select a True s)"
| select_err: "sv_main s = MSelect \<Longrightarrow> sv_errc s \<noteq> [] \<Longrightarrow> svc_step E a s SShutdown (main_select a False s)"
| sources: "sv_main s = MSources errs \<Longrightarrow> (if ended then list_all snd (sv_bg s) else sv_expired s) \<Longrightarrow>
    svc_step E a s (SAwaited ended) (main_awaited ended s)"
| dispatcher: "sv_main s = MDispatcher errs \<Longrightarrow> (if ended then sv_dispatched s else sv_expired s) \<Longrightarrow>
    svc_step E a s (SAwaited ended) (main_awaited ended s)"
| pool_begin: "sv_main s = MPools errs ps \<Longrightarrow> map_of ps name = Some PPending \<Longrightarrow> pool_of s name = Some p \<Longrightarrow>
    svc_step E a s (SPoolBegin name)
      ((set_pool name (Shutdown_begin p) s)\<lparr>sv_main := MPools errs (gmap_put name PWaiting ps)\<rparr>)"
| pool_end: "sv_main s = MPools errs ps \<Longrightarrow> map_of ps name = Some PWaiting \<Longrightarrow> pool_of s name = Some p \<Longrightarrow>
    Shutdown_returns p (if sv_expired s then Some deadlineExceeded else None) r \<Longrightarrow>
    svc_step E a s (SPoolEnd name r) (shutdown_end name r s)"
| pools_done: "sv_main s = MPools errs ps \<Longrightarrow> list_all (\<lambda>(name, st). st = PDone) ps \<Longrightarrow>
    svc_step E a s SDrain (main_drain s)"
| drain: "sv_main s = MDrain errs \<Longrightarrow> svc_step E a s SDrain (main_drain s)"
| idle: "svc_step E a s SIdle s"

inductive_cases svc_stepE: "svc_step E a s x s'"

inductive svc_steps :: "(string \<Rightarrow> env) \<Rightarrow> App \<Rightarrow> svc \<Rightarrow> saction list \<Rightarrow> svc \<Rightarrow> bool" for E a where
  none: "svc_steps E a s [] s"
| more: "svc_step E a s x s' \<Longrightarrow> svc_steps E a s' xs s'' \<Longrightarrow> svc_steps E a s (x # xs) s''"

definition svc_run :: "(string \<Rightarrow> env) \<Rightarrow> Config \<Rightarrow> saction list \<Rightarrow> svc \<Rightarrow> bool" where
  "svc_run E c xs s \<longleftrightarrow> svc_steps E (newApp c) (svc_start (newApp c)) xs s"

text \<open>An invariant that may speak of the trace so far is proved at its end.\<close>

lemma svc_steps_snoc: "svc_steps E a s xs s' \<Longrightarrow> svc_step E a s' x s'' \<Longrightarrow> svc_steps E a s (xs @ [x]) s''"
  by (induction rule: svc_steps.induct) (auto intro: svc_steps.intros)

lemma svc_steps_appendD:
  "svc_steps E a s (xs @ ys) s'' \<Longrightarrow> \<exists>s'. svc_steps E a s xs s' \<and> svc_steps E a s' ys s''"
proof (induction xs arbitrary: s)
  case Nil
  then show ?case by (auto intro: svc_steps.none)
next
  case (Cons x xs)
  from Cons.prems obtain t where "svc_step E a s x t" "svc_steps E a t (xs @ ys) s''"
    by (auto elim: svc_steps.cases)
  with Cons.IH show ?case by (blast intro: svc_steps.more)
qed

lemma svc_steps_append: "svc_steps E a s xs s' \<Longrightarrow> svc_steps E a s' ys s'' \<Longrightarrow> svc_steps E a s (xs @ ys) s''"
  by (induction rule: svc_steps.induct) (auto intro: svc_steps.intros)

lemma svc_steps_rev_induct [consumes 1, case_names start snoc]:
  assumes "svc_steps E a s xs s'" "P [] s"
    and "\<And>xs s' x s''. svc_steps E a s xs s' \<Longrightarrow> P xs s' \<Longrightarrow> svc_step E a s' x s'' \<Longrightarrow> P (xs @ [x]) s''"
  shows "P xs s'"
  using assms(1)
proof (induction xs arbitrary: s' rule: rev_induct)
  case Nil
  then show ?case using assms(2) by (auto elim: svc_steps.cases)
next
  case (snoc x xs)
  then obtain t where t: "svc_steps E a s xs t" "svc_steps E a t [x] s'" by (blast dest: svc_steps_appendD)
  then have "svc_step E a t x s'" by (auto elim: svc_steps.cases)
  with t snoc.IH assms(3) show ?case by blast
qed

section \<open>The channel\<close>

fun sends :: "saction list \<Rightarrow> Hint list" where
  "sends [] = []"
| "sends (SSend h # xs) = h # sends xs"
| "sends (x # xs) = sends xs"

fun dispatches :: "saction list \<Rightarrow> Hint list" where
  "dispatches [] = []"
| "dispatches (SDispatch h # xs) = h # dispatches xs"
| "dispatches (x # xs) = dispatches xs"

lemma sends_append: "sends (xs @ ys) = sends xs @ sends ys"
  by (induction xs rule: sends.induct) auto

lemma dispatches_append: "dispatches (xs @ ys) = dispatches xs @ dispatches ys"
  by (induction xs rule: dispatches.induct) auto

text \<open>The steps that leave the channel alone.\<close>

lemma svc_ops_chan [simp]:
  "sv_chan (bg_end i r s) = sv_chan s" "sv_chan (set_pool name p s) = sv_chan s"
  "sv_chan (main_select a b s) = sv_chan s" "sv_chan (main_awaited b s) = sv_chan s"
  "sv_chan (shutdown_end name r s) = sv_chan s" "sv_chan (main_drain s) = sv_chan s"
  by (simp_all add: bg_end_def set_pool_def main_select_def main_awaited_def shutdown_end_def main_drain_def
      split: mainphase.split list.split)

lemma channel_inv:
  "svc_steps E a (svc_start a) xs s \<Longrightarrow>
   sends xs = dispatches xs @ sv_chan s \<and> length (sv_chan s) \<le> hintBuffer"
proof (induction rule: svc_steps_rev_induct)
  case start
  then show ?case by (simp add: svc_start_def)
next
  case (snoc xs s x s')
  from snoc(2,3) show ?case
    by (cases rule: svc_step.cases) (auto simp: sends_append dispatches_append)
qed

section \<open>The pools inside the service\<close>

definition routed :: "App \<Rightarrow> Hint \<Rightarrow> string option" where
  "routed a h = (case map_of (a_routes a) (Hint_Pool h) of None \<Rightarrow> None | Some r \<Rightarrow> rt_target r)"

text \<open>What one step of the service is for one pool.\<close>

definition pool_part :: "App \<Rightarrow> string \<Rightarrow> saction \<Rightarrow> action list" where
  "pool_part a name x = (case x of
     SDispatch h \<Rightarrow> if routed a h = Some name then [AHint (Hint_Source h) (Hint_Count h)] else []
   | SPool n y \<Rightarrow> if n = name then [y] else []
   | SPoolBegin n \<Rightarrow> if n = name then [AShutdown] else []
   | _ \<Rightarrow> [])"

lemma Dispatch_world:
  "d_world (snd (Dispatch (pools_hint E) (a_routes a) h d)) =
     (case routed a h of None \<Rightarrow> d_world d
      | Some name \<Rightarrow> snd (pools_hint E name (Hint_Source h) (Hint_Count h) (d_world d)))"
  by (auto simp: Dispatch_def routed_def dmetric_def dlog_def split: option.split prod.split)

lemma pools_hint_world:
  "snd (pools_hint E name src n w) =
     (case map_of w name of None \<Rightarrow> w | Some p \<Rightarrow> gmap_put name (snd (pool_Hint (E name) src n p)) w)"
  by (simp add: pools_hint_def split: option.split prod.split)

lemma pools_hint_names: "map fst (snd (pools_hint E name src n w)) = map fst w"
  by (auto simp: pools_hint_world map_fst_gmap_put split: option.split)

text \<open>The world after the steps that leave it alone, and after the others.\<close>

lemma svc_ops_world [simp]:
  "d_world (sv_d (bg_end i r s)) = d_world (sv_d s)"
  "d_world (sv_d (main_select a b s)) = d_world (sv_d s)" "d_world (sv_d (main_awaited b s)) = d_world (sv_d s)"
  "d_world (sv_d (shutdown_end name r s)) = d_world (sv_d s)" "d_world (sv_d (main_drain s)) = d_world (sv_d s)"
  "d_world (sv_d (set_pool name p s)) = gmap_put name p (d_world (sv_d s))"
  by (simp_all add: bg_end_def set_pool_def main_select_def main_awaited_def shutdown_end_def main_drain_def
      split: mainphase.split list.split)

lemma svc_step_names: "svc_step E a s x s' \<Longrightarrow> map fst (d_world (sv_d s')) = map fst (d_world (sv_d s))"
  by (induction rule: svc_step.induct)
    (auto simp: Dispatch_world pools_hint_names map_fst_gmap_put split: option.split)

lemma svc_step_pool:
  assumes "svc_step E a s x s'" "pool_of s name = Some p"
  shows "\<exists>p'. pool_of s' name = Some p' \<and> pool_steps (E name) p (pool_part a name x) p'"
  using assms
proof (induction rule: svc_step.induct)
  case (dispatch s h hs)
  show ?case
  proof (cases "routed a h = Some name")
    case True
    with dispatch show ?thesis
      by (auto simp: Dispatch_world pools_hint_world pool_part_def intro: pool_steps_one pool_step.hint)
  next
    case False
    with dispatch show ?thesis
      by (auto simp: Dispatch_world pools_hint_world pool_part_def intro: pool_steps.none split: option.split)
  qed
next
  case (pool s n q y q')
  then show ?case
    by (cases "n = name") (auto simp: pool_part_def intro: pool_steps.none pool_steps_one)
next
  case (pool_begin s errs ps n q)
  then show ?case
    by (cases "n = name") (auto simp: pool_part_def intro: pool_steps.none pool_steps_one pool_step.shutdown)
qed (auto simp: pool_part_def intro: pool_steps.none)

definition pool_trace :: "App \<Rightarrow> string \<Rightarrow> saction list \<Rightarrow> action list" where
  "pool_trace a name xs = concat (map (pool_part a name) xs)"

lemma svc_steps_pool:
  "svc_steps E a s xs s' \<Longrightarrow> pool_of s name = Some p \<Longrightarrow>
   \<exists>p'. pool_of s' name = Some p' \<and> pool_steps (E name) p (pool_trace a name xs) p'"
proof (induction arbitrary: p rule: svc_steps.induct)
  case none
  then show ?case by (simp add: pool_trace_def pool_steps.none)
next
  case (more s x s' xs s'')
  from svc_step_pool [OF more(1,4)] more.IH show ?case
    by (fastforce simp: pool_trace_def intro: pool_steps_append)
qed

lemma svc_steps_names: "svc_steps E a s xs s' \<Longrightarrow> map fst (d_world (sv_d s')) = map fst (d_world (sv_d s))"
  by (induction rule: svc_steps.induct) (simp_all add: svc_step_names)

text \<open>The hints of a pool's trace that came through the dispatcher.\<close>

fun routed_hints :: "action list \<Rightarrow> (string \<times> gint) list" where
  "routed_hints [] = []"
| "routed_hints (AHint src n # xs) = (src, n) # routed_hints xs"
| "routed_hints (x # xs) = routed_hints xs"

lemma routed_hints_append: "routed_hints (xs @ ys) = routed_hints xs @ routed_hints ys"
  by (induction xs rule: routed_hints.induct) auto

definition hints_for :: "App \<Rightarrow> string \<Rightarrow> Hint list \<Rightarrow> (string \<times> gint) list" where
  "hints_for a name hs = map (\<lambda>h. (Hint_Source h, Hint_Count h)) (filter (\<lambda>h. routed a h = Some name) hs)"

lemma routed_hints_step:
  "svc_step E a s x s' \<Longrightarrow> routed_hints (pool_part a name x) = hints_for a name (dispatches [x])"
  by (induction rule: svc_step.induct)
    (auto simp: pool_part_def hints_for_def internal_def split: action.splits)

lemma routed_hints_trace:
  "svc_steps E a s xs s' \<Longrightarrow> routed_hints (pool_trace a name xs) = hints_for a name (dispatches xs)"
proof (induction rule: svc_steps.induct)
  case (more s x s' xs s'')
  have "dispatches (x # xs) = dispatches [x] @ dispatches xs"
    using dispatches_append [of "[x]" xs] by simp
  with more routed_hints_step [OF more(1), of name] show ?case
    by (simp add: pool_trace_def routed_hints_append hints_for_def)
qed (simp add: pool_trace_def hints_for_def)

section \<open>The invariant\<close>

definition all_pools :: "(pool_sys \<Rightarrow> bool) \<Rightarrow> svc \<Rightarrow> bool" where
  "all_pools P s \<longleftrightarrow> (\<forall>name p. pool_of s name = Some p \<longrightarrow> P p)"

text \<open>A pool \<open>Shutdown\<close> has returned nil for.\<close>

definition drained :: "pool_sys \<Rightarrow> bool" where
  "drained p \<longleftrightarrow> pool_inv p \<and> p_stopping p \<and> p_reapers p = 0"

lemma drained_all_gone: "drained p \<Longrightarrow> all_gone p"
  by (simp add: drained_def all_reaped)

lemma drained_steps:
  assumes "pool_steps E p as p'" "drained p"
  shows "drained p' \<and> s_spawns p' = s_spawns p"
proof -
  have h: "halted p p'" and inv: "pool_inv p'" and gone: "all_gone p'"
    using assms halted_steps pool_inv_steps all_gone_steps drained_all_gone by (auto simp: drained_def)
  from gone have "filter unreaped (s_workers p') = []" by (auto simp: filter_empty_conv unreaped_def list_all_iff)
  with inv h show ?thesis by (simp add: drained_def pool_inv_def halted_def)
qed

lemma stopping_steps: "pool_steps E p as p' \<Longrightarrow> p_stopping p \<Longrightarrow> p_stopping p'"
  using halted_steps by (auto simp: halted_def)

lemma svc_step_pool_back:
  assumes "svc_step E a s x s'" "pool_of s' name = Some p'"
  shows "\<exists>p. pool_of s name = Some p \<and> pool_steps (E name) p (pool_part a name x) p'"
proof -
  from assms(2) have "name \<in> set (map fst (d_world (sv_d s')))" by (metis map_of_eq_None_iff option.distinct(1) set_map)
  then have "name \<in> set (map fst (d_world (sv_d s)))" by (simp only: svc_step_names [OF assms(1)])
  then obtain p where "pool_of s name = Some p" by (metis map_of_eq_None_iff not_None_eq set_map)
  with svc_step_pool [OF assms(1) this] assms(2) show ?thesis by auto
qed

text \<open>What a pool step cannot undo holds of every pool after a step of the service.\<close>

lemma all_pools_step:
  assumes "svc_step E a s x s'" "all_pools P s" "\<And>name p as p'. pool_steps (E name) p as p' \<Longrightarrow> P p \<Longrightarrow> P p'"
  shows "all_pools P s'"
  using svc_step_pool_back [OF assms(1)] assms(2,3) unfolding all_pools_def by blast

text \<open>The pools of \<open>shutdownPools\<close>: whose \<open>Shutdown\<close> was called is stopping, and drained
  when it returned without an error.\<close>

definition shutting :: "bool \<Rightarrow> pstate gmap \<Rightarrow> svc \<Rightarrow> bool" where
  "shutting ok ps s \<longleftrightarrow> map fst ps = map fst (d_world (sv_d s)) \<and>
     (\<forall>name p st. pool_of s name = Some p \<longrightarrow> map_of ps name = Some st \<longrightarrow>
        (st \<noteq> PPending \<longrightarrow> p_stopping p) \<and> (st = PDone \<and> ok \<longrightarrow> drained p))"

definition clean :: "svc \<Rightarrow> bool" where
  "clean s \<longleftrightarrow> list_all snd (sv_bg s) \<and> sv_dispatched s"

definition main_ok :: "svc \<Rightarrow> bool" where
  "main_ok s \<longleftrightarrow> (case sv_main s of
     MSelect \<Rightarrow> True
   | MSources errs \<Rightarrow> True
   | MDispatcher errs \<Rightarrow> errs = [] \<longrightarrow> list_all snd (sv_bg s)
   | MPools errs ps \<Rightarrow> (errs = [] \<longrightarrow> clean s) \<and> shutting (errs = []) ps s
   | MDrain errs \<Rightarrow> all_pools p_stopping s \<and> (errs = [] \<longrightarrow> clean s \<and> all_pools drained s)
   | MReturned errs \<Rightarrow> all_pools p_stopping s \<and> (errs = [] \<longrightarrow> clean s \<and> all_pools drained s \<and> sv_errc s = []))"

definition bg_ok :: "App \<Rightarrow> svc \<Rightarrow> bool" where
  "bg_ok a s \<longleftrightarrow> map fst (sv_bg s) = bg_goroutines a \<and> length (sv_errc s) \<le> length (filter snd (sv_bg s)) \<and>
     (sv_cancelled s \<longleftrightarrow> sv_main s \<noteq> MSelect) \<and> (sv_dispatched s \<longrightarrow> sv_cancelled s)"

lemma shutting_step:
  assumes "svc_step E a s x s'" "shutting ok ps s"
  shows "shutting ok ps s'"
  unfolding shutting_def
proof (intro conjI allI impI)
  show "map fst ps = map fst (d_world (sv_d s'))" using assms by (simp add: shutting_def svc_step_names)
  fix name p' st assume "pool_of s' name = Some p'" and st: "map_of ps name = Some st"
  with svc_step_pool_back [OF assms(1)] obtain p where
    p: "pool_of s name = Some p" "pool_steps (E name) p (pool_part a name x) p'" by blast
  show "st \<noteq> PPending \<Longrightarrow> p_stopping p'" using assms(2) p st stopping_steps by (auto simp: shutting_def)
  show "st = PDone \<and> ok \<Longrightarrow> drained p'" using assms(2) p st drained_steps by (auto simp: shutting_def)
qed

lemma bg_ok_step: "svc_step E a s x s' \<Longrightarrow> bg_ok a s \<Longrightarrow> bg_ok a s'"
proof (induction rule: svc_step.induct)
  case (bg_end i s r)
  then have "int (length (filter snd ((sv_bg s)[i := (fst (sv_bg s ! i), True)]))) = int (length (filter snd (sv_bg s))) + 1"
    by (simp add: length_filter_update)
  moreover have "map fst ((sv_bg s)[i := (fst (sv_bg s ! i), True)]) = map fst (sv_bg s)"
    using bg_end(1) by (simp add: map_update list_update_same_conv)
  ultimately show ?case using bg_end by (auto simp: bg_ok_def bg_end_def split: option.split)
qed (auto simp: bg_ok_def set_pool_def main_select_def main_awaited_def shutdown_end_def main_drain_def
    split: list.split)

lemma bg_done_step: "svc_step E a s x s' \<Longrightarrow> list_all snd (sv_bg s) \<Longrightarrow> list_all snd (sv_bg s')"
  by (induction rule: svc_step.induct)
    (auto simp: bg_end_def set_pool_def main_select_def main_awaited_def shutdown_end_def main_drain_def list_all_length
      split: mainphase.split list.split)

lemma clean_step: "svc_step E a s x s' \<Longrightarrow> clean s \<Longrightarrow> clean s'"
proof (unfold clean_def, elim conjE, intro conjI)
  show "svc_step E a s x s' \<Longrightarrow> sv_dispatched s \<Longrightarrow> sv_dispatched s'"
    by (induction rule: svc_step.induct)
      (auto simp: bg_end_def set_pool_def main_select_def main_awaited_def shutdown_end_def main_drain_def
        split: mainphase.split list.split)
qed (rule bg_done_step)

lemma errc_step:
  "svc_step E a s x s' \<Longrightarrow> list_all snd (sv_bg s) \<Longrightarrow> sv_errc s = [] \<Longrightarrow> sv_errc s' = []"
  by (induction rule: svc_step.induct)
    (auto simp: bg_end_def set_pool_def main_select_def main_awaited_def shutdown_end_def main_drain_def list_all_length
      split: mainphase.split list.split)

lemma main_ok_frame:
  assumes "svc_step E a s x s'" "main_ok s" "sv_main s' = sv_main s"
  shows "main_ok s'"
proof -
  note keep = clean_step [OF assms(1)] bg_done_step [OF assms(1)] shutting_step [OF assms(1)]
    all_pools_step [OF assms(1), of p_stopping] all_pools_step [OF assms(1), of drained] errc_step [OF assms(1)]
  show ?thesis
    using assms(2,3) keep stopping_steps drained_steps
    by (cases "sv_main s") (auto simp: main_ok_def clean_def)
qed

text \<open>When every goroutine of \<open>shutdownPools\<close> is done, every pool is.\<close>

lemma shutting_done:
  assumes "shutting ok ps s" "list_all (\<lambda>(name, st). st = PDone) ps"
  shows "all_pools p_stopping s" "ok \<Longrightarrow> all_pools drained s"
proof -
  have "map_of ps name = Some PDone" if "pool_of s name = Some p" for name p
  proof -
    from that have "name \<in> set (map fst (d_world (sv_d s)))" by (metis map_of_eq_None_iff option.distinct(1) set_map)
    then have "name \<in> set (map fst ps)" using assms(1) by (simp add: shutting_def)
    then obtain st where "map_of ps name = Some st" by (metis map_of_eq_None_iff not_None_eq set_map)
    with assms(2) show ?thesis by (force simp: list_all_iff dest: map_of_SomeD)
  qed
  with assms(1) show "all_pools p_stopping s" "ok \<Longrightarrow> all_pools drained s"
    by (fastforce simp: shutting_def all_pools_def)+
qed

lemma shutting_start: "shutting ok (map (\<lambda>(name, p). (name, PPending)) (d_world (sv_d s))) s"
  by (auto simp: shutting_def dest: map_of_map_const)

lemma Shutdown_begin_stopping: "p_stopping (Shutdown_begin p)"
  by (simp add: Shutdown_begin_def)

lemma main_ok_step:
  assumes "svc_step E a s x s'" "all_pools pool_inv s" "main_ok s"
  shows "main_ok s'"
proof (cases "sv_main s' = sv_main s")
  case False
  with assms show ?thesis
  proof (induction rule: svc_step.induct)
    case (select_ctx s)
    then show ?case by (simp add: main_ok_def main_select_def)
  next
    case (select_err s)
    then show ?case by (simp add: main_ok_def main_select_def)
  next
    case (sources s errs ended)
    then show ?case by (auto simp: main_ok_def main_awaited_def await_def split: if_splits)
  next
    case (dispatcher s errs ended)
    have "shutting ok (map (\<lambda>(name, p). (name, PPending)) (d_world (sv_d s))) (main_awaited ended s)" for ok
      using shutting_start [of ok "main_awaited ended s"] by simp
    with dispatcher show ?case by (auto simp: main_ok_def main_awaited_def await_def clean_def split: if_splits)
  next
    case (pool_begin s errs ps name p)
    let ?s' = "(set_pool name (Shutdown_begin p) s)\<lparr>sv_main := MPools errs (gmap_put name PWaiting ps)\<rparr>"
    have "shutting (errs = []) ps s" using pool_begin by (simp add: main_ok_def)
    then have "shutting (errs = []) (gmap_put name PWaiting ps) ?s'"
      using pool_begin(2,3) by (auto simp: shutting_def set_pool_def map_fst_gmap_put Shutdown_begin_stopping)
    with pool_begin show ?case by (auto simp: main_ok_def clean_def set_pool_def)
  next
    case (pool_end s errs ps name p r)
    let ?s' = "shutdown_end name r s"
    have sh: "shutting (errs = []) ps s" using pool_end by (simp add: main_ok_def)
    moreover from sh pool_end(2,3) have "p_stopping p" by (auto simp: shutting_def)
    moreover have "pool_inv p" using pool_end by (simp add: all_pools_def)
    moreover have "r = None \<Longrightarrow> p_reapers p = 0" using pool_end(4) by (simp add: Shutdown_returns_def)
    ultimately have "shutting (errs = [] \<and> r = None) (gmap_put name PDone ps) ?s'"
      using pool_end(2,3) by (auto simp: shutting_def map_fst_gmap_put drained_def)
    with pool_end show ?case
      by (cases r) (auto simp: main_ok_def clean_def shutdown_end_def shutting_def)
  next
    case (pools_done s errs ps)
    then have sh: "shutting (errs = []) ps s" by (simp add: main_ok_def)
    have "all_pools P (main_drain s) = all_pools P s" for P by (simp add: all_pools_def)
    with pools_done shutting_done [OF sh pools_done(2)] show ?case
      by (auto simp: main_ok_def main_drain_def clean_def)
  next
    case (drain s errs)
    have "all_pools P (main_drain s) = all_pools P s" for P by (simp add: all_pools_def)
    with drain show ?case
      by (auto simp: main_ok_def main_drain_def clean_def split: list.split)
  qed (simp_all add: bg_end_def set_pool_def)
qed (use main_ok_frame assms in blast)

definition svc_inv :: "App \<Rightarrow> svc \<Rightarrow> bool" where
  "svc_inv a s \<longleftrightarrow> all_pools pool_inv s \<and> bg_ok a s \<and> main_ok s \<and> gmap_ok (d_world (sv_d s))"

lemma svc_inv_step: "svc_step E a s x s' \<Longrightarrow> svc_inv a s \<Longrightarrow> svc_inv a s'"
  using all_pools_step [of E a s x s' pool_inv] bg_ok_step main_ok_step pool_inv_steps
  by (simp add: svc_inv_def svc_step_names)

lemma svc_inv_steps: "svc_steps E a s xs s' \<Longrightarrow> svc_inv a s \<Longrightarrow> svc_inv a s'"
  by (induction rule: svc_steps.induct) (auto dest: svc_inv_step)

lemma pool_inv_Start: "pool_inv p \<Longrightarrow> pool_inv (pool_Start p)"
  using pool_inv_step [OF pool_step.start] .

text \<open>The app of any config starts with fresh pools.\<close>

lemma newApp_pools: "map_of (a_pools (newApp c)) name = Some p \<Longrightarrow> \<exists>pc. p = pool_New pc"
proof -
  define P where "P m \<longleftrightarrow> (\<forall>q. map_of m name = Some q \<longrightarrow> (\<exists>pc. q = pool_New pc))" for m
  have "P (fold (\<lambda>pc. gmap_put (pc_Name pc) (pool_New pc)) cfgs [])" for cfgs
    by (rule fold_invariant [where Q = "\<lambda>_. True"]) (auto simp: P_def)
  then show "map_of (a_pools (newApp c)) name = Some p \<Longrightarrow> \<exists>pc. p = pool_New pc"
    by (simp add: P_def newApp_fields newPools_eq)
qed

lemma pool_of_start: "pool_of (svc_start a) name = map_option pool_Start (map_of (a_pools a) name)"
  by (simp add: svc_start_def map_of_map)

lemma svc_inv_start: "svc_inv (newApp c) (svc_start (newApp c))"
proof -
  have "all_pools pool_inv (svc_start (newApp c))"
    by (auto simp: all_pools_def pool_of_start dest!: newApp_pools intro: pool_inv_New pool_inv_Start)
  moreover have "gmap_ok (a_pools (newApp c))"
    unfolding newApp_fields newPools_eq fst_conv
    by (rule fold_invariant [where Q = "\<lambda>_. True"]) (auto intro: gmap_ok_put)
  ultimately show ?thesis
    by (simp add: svc_inv_def bg_ok_def main_ok_def) (simp add: svc_start_def comp_def split_beta)
qed

lemma svc_inv_run: "svc_run E c xs s \<Longrightarrow> svc_inv (newApp c) s"
  unfolding svc_run_def using svc_inv_steps svc_inv_start by blast

lemma errc_room: "svc_inv a s \<Longrightarrow> \<not> snd (sv_bg s ! i) \<Longrightarrow> i < length (sv_bg s) \<Longrightarrow> length (sv_errc s) < errc_cap a"
proof -
  assume inv: "svc_inv a s" and i: "\<not> snd (sv_bg s ! i)" "i < length (sv_bg s)"
  then have "sv_bg s ! i \<in> set (sv_bg s)" "\<not> snd (sv_bg s ! i)" by auto
  then have "length (filter snd (sv_bg s)) < length (sv_bg s)" by (auto intro: length_filter_less)
  moreover have "length (sv_bg s) = length (bg_goroutines a)" "length (sv_errc s) \<le> length (filter snd (sv_bg s))"
    using inv by (auto simp: svc_inv_def bg_ok_def dest: arg_cong [of _ _ length])
  moreover have "length (bg_goroutines a) \<le> errc_cap a"
    by (simp add: bg_goroutines_def errc_cap_def split: option.split)
  ultimately show ?thesis by simp
qed

end
