(* ===== verification/Messages.thy ===== *)
theory Messages
  imports Validate
begin

text \<open>
  The texts of the errors of \<open>internal/config\<close>: what \<open>Load\<close> and \<open>Finalize\<close> report, as
  \<open>fmt.Errorf\<close> and \<open>errors.Join\<close> build it.  No message has a verb without its argument, and
  a joined report shows one violation per line.
\<close>

section \<open>Violations\<close>

text \<open>The text of one violation; \<open>None\<close> where a verb and its argument do not fit, which never
  happens (\<open>violations_render\<close>).\<close>

definition violation_text :: "(nat \<Rightarrow> bool) \<Rightarrow> (f64 \<Rightarrow> string) \<Rightarrow> violation \<Rightarrow> string option" where
  "violation_text is_print gfmt v =
     (case v of (key, fmt, args) \<Rightarrow> map_option (\<lambda>msg. key @ '': '' @ msg) (Sprintf is_print gfmt fmt args))"

text \<open>\<open>errors.Join\<close> of errors with these texts.\<close>

definition errors_Join :: "string list \<Rightarrow> string" where
  "errors_Join msgs = go_join [CHR 0x0A] msgs"

definition violations_text :: "(nat \<Rightarrow> bool) \<Rightarrow> (f64 \<Rightarrow> string) \<Rightarrow> violation list \<Rightarrow> string option" where
  "violations_text is_print gfmt vs = map_option errors_Join (those (map (violation_text is_print gfmt) vs))"

section \<open>Loading\<close>

definition poolName_source :: string where
  "poolName_source = ''^[A-Za-z0-9][A-Za-z0-9_.-]*$''"

definition split_error_text :: "cfg_error \<Rightarrow> string" where
  "split_error_text e = (case e of
     ReadError msg \<Rightarrow> msg
   | YamlError msg \<Rightarrow> msg
   | PerPoolKeysInDefaults \<Rightarrow> ''pools.'' @ DefaultsKey @ '': command and channel are per-pool keys''
   | InvalidPoolName name \<Rightarrow> ''pools.'' @ name @ '': invalid pool name (want '' @ poolName_source @
       ''; names starting with _ are reserved)'')"

definition load_error_text :: "string \<Rightarrow> cfg_error \<Rightarrow> string" where
  "load_error_text path e = (case e of
     ReadError msg \<Rightarrow> ''config: '' @ msg
   | _ \<Rightarrow> ''config '' @ path @ '': '' @ split_error_text e)"

section \<open>One violation per line\<close>

text \<open>A violation whose format fits its arguments and whose key is one line.\<close>

definition neat :: "violation \<Rightarrow> bool" where
  "neat v \<longleftrightarrow> (case v of (key, fmt, args) \<Rightarrow> one_line key \<and> fits fmt args)"

lemma neat_renders:
  assumes "\<forall>x. one_line (g x)" "neat v"
  shows "\<exists>msg. violation_text p g v = Some (fst v @ '': '' @ msg) \<and> one_line (fst v @ '': '' @ msg)"
proof -
  obtain key f args where v: "v = (key, f, args)" by (cases v) auto
  with assms obtain t where "Sprintf p g f args = Some t" "one_line t"
    using fits_renders [of g f args p] by (auto simp: neat_def)
  with v assms(2) show ?thesis by (simp add: violation_text_def neat_def)
qed

lemma neat_bad [simp]: "neat (bad key f args) \<longleftrightarrow> one_line key \<and> fits f args"
  by (simp add: neat_def bad_def)

lemma neat_guard [simp]: "list_all neat (guard b e) \<longleftrightarrow> b \<longrightarrow> neat e"
  by (simp add: guard_def)

lemma pool_neat: "list_all neat (PoolConfig_validate c)"
proof -
  have "list_all neat (validateSpawn c)" by (simp add: validateSpawn_def verb_fits_def)
  moreover have "list_all neat (validateExitCodes c)"
    by (auto simp: validateExitCodes_def list_all_iff guard_def verb_fits_def)
  moreover have "list_all neat (validateBreaker c)" by (simp add: validateBreaker_def verb_fits_def)
  moreover have "list_all neat (validateCooldown c)" by (simp add: validateCooldown_def verb_fits_def)
  moreover have "list_all neat (validateProcess c)" by (simp add: validateProcess_def verb_fits_def)
  ultimately show ?thesis by (simp add: PoolConfig_validate_def)
qed

text \<open>The two maps that remember who used a value first hold one-line names.\<close>

definition plain_owners :: "string gmap \<Rightarrow> bool" where
  "plain_owners m \<longleftrightarrow> (\<forall>k v. map_of m k = Some v \<longrightarrow> one_line v)"

lemma plain_owners_simps [simp]:
  "plain_owners []" "plain_owners m \<Longrightarrow> one_line v \<Longrightarrow> plain_owners (gmap_put k v m)"
  by (auto simp: plain_owners_def)

lemma paths_neat:
  "\<forall>key \<in> fst ` set kps. one_line key \<Longrightarrow> plain_owners seen \<Longrightarrow> list_all neat (validatePaths kps seen)"
proof (induction kps seen rule: validatePaths.induct)
  case (2 key path rest seen)
  then show ?case by (auto simp: verb_fits_def plain_owners_def split: option.split)
qed simp

lemma sources_neat: "list_all neat (validateSources c)"
proof -
  have "list_all neat (validateHTTPPaths c)"
    unfolding validateHTTPPaths_def by (rule paths_neat) (simp_all add: http_paths_def)
  then have "list_all neat (validateHTTP c)" by (simp add: validateHTTP_def verb_fits_def)
  moreover have "list_all neat (validateRedis c)" by (simp add: validateRedis_def validateRedisBackoff_def verb_fits_def)
  ultimately show ?thesis by (simp add: validateSources_def)
qed

lemma pool_list_neat:
  "\<forall>c \<in> set ps. one_line (pc_Name c) \<Longrightarrow> plain_owners channels \<Longrightarrow> list_all neat (validatePoolList ps channels)"
proof (induction ps channels rule: validatePoolList.induct)
  case (2 c ps channels)
  have "neat (bad (''pools.'' @ pc_Name c @ ''.'' @ k) f args)" if "(k, f, args) \<in> set (PoolConfig_validate c)" for k f args
  proof -
    have "neat (k, f, args)" using pool_neat [of c] that by (simp add: list_all_iff)
    with 2(2) show ?thesis by (simp add: neat_def bad_def)
  qed
  with 2 show ?case
    by (auto simp: Let_def verb_fits_def plain_owners_def list_all_iff split: option.split)
qed simp

text \<open>The pool names of a loaded document are one line.\<close>

lemma poolName_one_line: "poolName n \<Longrightarrow> one_line n"
proof -
  have "alnum c \<Longrightarrow> c \<noteq> CHR 0x0A" for c by (auto simp: alnum_def)
  then show "poolName n \<Longrightarrow> one_line n" by (auto simp: poolName_def list_all_iff one_line_def split: list.splits)
qed

lemma checkPoolNames_names: "checkPoolNames c = Inr c' \<Longrightarrow> \<forall>n \<in> fst ` set (cfg_Pools c'). one_line n"
  by (auto simp: checkPoolNames_def find_None_iff poolName_one_line split: option.splits)

lemma Load_names: "Load yaml getenv doc = Inr c \<Longrightarrow> \<forall>n \<in> fst ` set (cfg_Pools c). one_line n"
proof -
  have "splitDefaults d = Inr c \<Longrightarrow> \<forall>n \<in> fst ` set (cfg_Pools c). one_line n" for d
  proof -
    assume "splitDefaults d = Inr c"
    then obtain d' where "checkPoolNames d' = Inr c" by (auto simp: splitDefaults_def split: option.splits if_splits)
    then show ?thesis by (rule checkPoolNames_names)
  qed
  then show "Load yaml getenv doc = Inr c \<Longrightarrow> ?thesis"
    by (auto simp: Load_def Parse_def split: sum.splits)
qed

lemma config_neat:
  assumes "\<forall>n \<in> fst ` set (cfg_Pools c). one_line n"
  shows "list_all neat (Config_validate (applyDefaults c))"
proof -
  have "pc_Name ` set (ResolvedPools c) = fst ` set (cfg_Pools c)"
    using ResolvedPools_names [of c, THEN arg_cong, of set] by simp
  then have "\<forall>r \<in> set (ResolvedPools c). one_line (pc_Name r)" using assms by (metis imageI)
  then have "list_all neat (validatePools (applyDefaults c))"
    using pool_list_neat [of "ResolvedPools c" "[]"]
    by (auto simp: validatePools_def ResolvedPools_applyDefaults)
  moreover have "list_all neat (validateLog d)" for d by (simp add: validateLog_def verb_fits_def)
  ultimately show ?thesis using sources_neat by (simp add: Config_validate_def verb_fits_def)
qed

lemma neat_messages:
  assumes "\<forall>x. one_line (g x)" "list_all neat vs"
  obtains msgs where "those (map (violation_text p g) vs) = Some msgs" "list_all one_line msgs"
    "list_all2 (\<lambda>v msg. violation_text p g v = Some msg \<and> has_prefix msg (fst v @ '': '')) vs msgs"
proof -
  have "\<exists>msgs. those (map (violation_text p g) vs) = Some msgs \<and> list_all one_line msgs \<and>
    list_all2 (\<lambda>v msg. violation_text p g v = Some msg \<and> has_prefix msg (fst v @ '': '')) vs msgs"
    using assms(2)
  proof (induction vs)
    case (Cons v vs)
    obtain msg where v: "violation_text p g v = Some (fst v @ '': '' @ msg)" "one_line (fst v @ '': '' @ msg)"
      using neat_renders [OF assms(1), of v p] Cons.prems by auto
    moreover have "has_prefix (fst v @ '': '' @ msg) (fst v @ '': '')" by (simp add: has_prefix_iff)
    ultimately show ?case using Cons by auto
  qed simp
  with that show thesis by blast
qed

text \<open>C37: a rejected document is reported one violation per line.  For any document that loads, every
  violation \<open>Finalize\<close> finds has a text, in which no verb is without its argument; the text
  starts with the key and contains no line break, whatever the strings of the document
  contain, so that splitting the joined report at its line breaks gives back the messages.\<close>

theorem violations_one_per_line:
  assumes "Load yaml getenv doc = Inr c" "Finalize c = Inl vs" "\<And>x. one_line (gfmt x)"
  shows "\<exists>msgs. violations_text is_print gfmt vs = Some (errors_Join msgs) \<and>
    go_split (CHR 0x0A) (errors_Join msgs) = msgs \<and>
    list_all2 (\<lambda>v msg. violation_text is_print gfmt v = Some msg \<and> has_prefix msg (fst v @ '': '')) vs msgs"
proof -
  have "vs \<noteq> []" and vs: "vs = Config_validate (applyDefaults c)"
    using assms(2) by (auto simp: Finalize_def Let_def split: if_splits)
  have neat: "list_all neat vs" unfolding vs by (rule config_neat [OF Load_names [OF assms(1)]])
  have "\<forall>x. one_line (gfmt x)" using assms(3) by simp
  then obtain msgs where msgs: "those (map (violation_text is_print gfmt) vs) = Some msgs" "list_all one_line msgs"
    "list_all2 (\<lambda>v msg. violation_text is_print gfmt v = Some msg \<and> has_prefix msg (fst v @ '': '')) vs msgs"
    using neat_messages [of gfmt vs is_print] neat by blast
  moreover have "msgs \<noteq> []" using msgs(3) \<open>vs \<noteq> []\<close> by auto
  ultimately show ?thesis
    using go_split_join [of msgs "CHR 0x0A"]
    by (intro exI [of _ msgs]) (simp add: violations_text_def errors_Join_def one_line_def list_all_iff)
qed

lemma violations_one_per_line_witness:
  "\<exists>msgs. violations_text (\<lambda>_. False) (\<lambda>_. ''0.5'') (Config_validate (applyDefaults (bareConfig []))) = Some (errors_Join msgs) \<and>
     go_split (CHR 0x0A) (errors_Join msgs) = msgs"
proof -
  let ?c = "bareConfig []"
  have load: "Load (\<lambda>_. Inr ?c) (\<lambda>_. []) (Inr []) = Inr ?c"
    by (simp add: Load_def Parse_def splitDefaults_def checkPoolNames_def bareConfig_def)
  have "ResolvedPools (applyDefaults ?c) = []"
    unfolding ResolvedPools_applyDefaults by (simp add: ResolvedPools_def bareConfig_def List.map_filter_simps)
  then have "\<not> valid_config (applyDefaults ?c)" by (simp add: valid_config_def)
  then have "Finalize ?c = Inl (Config_validate (applyDefaults ?c))"
    by (simp add: Finalize_def Let_def Config_validate_Nil_iff)
  from violations_one_per_line [OF load this, of "\<lambda>_. ''0.5''"] show ?thesis by auto
qed

end
