(* ===== verification/Cmd.thy ===== *)
theory Cmd
  imports Service Messages
begin

text \<open>
  \<open>cmd/doorbell-pm\<close>: the verbs, what they write and the exit code of the process
  (\<open>main.go\<close>), the output of \<open>check\<close> before its yaml rendering (\<open>check.go\<close>) and the logger
  (\<open>logger.go\<close>).  The command-line library parses the arguments: its result is the \<open>verb\<close>.
  The yaml encoder and the writes to stdout are arguments.
\<close>

section \<open>The output of check\<close>

record resolvedPool =
  rp_Enabled :: bool
  rp_Channel :: string
  rp_Command :: "string list"
  rp_Concurrency :: gint
  rp_OkExitCodes :: "gint list"
  rp_ExitFailureThreshold :: gint
  rp_ExitFailureWindow :: duration
  rp_ExitCooldown :: duration
  rp_ExitCooldownMax :: duration
  rp_ExitCooldownMultiplier :: f64
  rp_TTL :: duration
  rp_Poke :: duration
  rp_PokeCount :: gint
  rp_GraceShutdown :: duration
  rp_TermSignal :: signal
  rp_InheritEnv :: bool
  rp_Env :: "string gmap"
  rp_Dir :: string
  rp_ResultStream :: string

definition toResolvedPool :: "PoolConfig \<Rightarrow> resolvedPool" where
  "toResolvedPool p = \<lparr>
     rp_Enabled = pc_Enabled p, rp_Channel = pc_Channel p, rp_Command = pc_Command p,
     rp_Concurrency = pc_Concurrency p, rp_OkExitCodes = sort (pc_OkExitCodes p),
     rp_ExitFailureThreshold = pc_ExitFailureThreshold p, rp_ExitFailureWindow = pc_ExitFailureWindow p,
     rp_ExitCooldown = pc_ExitCooldown p, rp_ExitCooldownMax = pc_ExitCooldownMax p,
     rp_ExitCooldownMultiplier = pc_ExitCooldownMultiplier p, rp_TTL = pc_TTL p, rp_Poke = pc_Poke p,
     rp_PokeCount = pc_PokeCount p, rp_GraceShutdown = pc_GraceShutdown p, rp_TermSignal = pc_TermSignal p,
     rp_InheritEnv = pc_InheritEnv p, rp_Env = pc_Env p, rp_Dir = pc_Dir p,
     rp_ResultStream = pc_ResultStream p\<rparr>"

record resolved =
  rs_Log :: Log
  rs_HTTP :: HTTP
  rs_Redis :: Redis
  rs_Metrics :: MetricsCfg
  rs_ShutdownTimeout :: duration
  rs_Pools :: "(string \<times> resolvedPool) list"

text \<open>\<open>printResolved\<close> before the yaml encoder.\<close>

definition resolvedOutput :: "Config \<Rightarrow> resolved" where
  "resolvedOutput cfg =
     (let r = \<lparr>rs_Log = cfg_Log cfg, rs_HTTP = cfg_HTTP cfg, rs_Redis = cfg_Redis cfg,
            rs_Metrics = cfg_Metrics cfg, rs_ShutdownTimeout = cfg_ShutdownTimeout cfg, rs_Pools = []\<rparr>;
          r = (if Redis_Password (rs_Redis r) \<noteq> [] then r\<lparr>rs_Redis := (rs_Redis r)\<lparr>Redis_Password := ''***''\<rparr>\<rparr> else r)
      in fold (\<lambda>p r. r\<lparr>rs_Pools := rs_Pools r @ [(pc_Name p, toResolvedPool p)]\<rparr>) (ResolvedPools cfg) r)"

lemma resolvedOutput_pools:
  "fold (\<lambda>p r. r\<lparr>rs_Pools := rs_Pools r @ [(pc_Name p, toResolvedPool p)]\<rparr>) ps r =
   r\<lparr>rs_Pools := rs_Pools r @ map (\<lambda>p. (pc_Name p, toResolvedPool p)) ps\<rparr>"
  by (induction ps arbitrary: r) simp_all

text \<open>\<open>check\<close> never prints the redis password: documents that differ in nothing but a
  non-empty password print the same.  Otherwise it prints what runs: the pools in the order
  of their names, each as resolved, with the exit codes sorted.\<close>

theorem check_masks_password:
  assumes "pw \<noteq> []" "Redis_Password (cfg_Redis cfg) \<noteq> []"
  shows "resolvedOutput (cfg\<lparr>cfg_Redis := (cfg_Redis cfg)\<lparr>Redis_Password := pw\<rparr>\<rparr>) = resolvedOutput cfg \<and>
    map fst (rs_Pools (resolvedOutput cfg)) = sort (map fst (cfg_Pools cfg)) \<and>
    list_all (\<lambda>(name, rp). \<exists>p. Config_Pool cfg name = Some p \<and> rp = toResolvedPool p \<and>
      sorted (rp_OkExitCodes rp) \<and> mset (rp_OkExitCodes rp) = mset (pc_OkExitCodes p)) (rs_Pools (resolvedOutput cfg))"
proof -
  have same: "ResolvedPools (cfg\<lparr>cfg_Redis := x\<rparr>) = ResolvedPools cfg" for x
    by (simp add: ResolvedPools_def Config_Pool_def [abs_def] cong: option.case_cong)
  have pools: "rs_Pools (resolvedOutput cfg) = map (\<lambda>p. (pc_Name p, toResolvedPool p)) (ResolvedPools cfg)"
    by (simp add: resolvedOutput_def resolvedOutput_pools Let_def)
  have "map fst (rs_Pools (resolvedOutput cfg)) = sort (map fst (cfg_Pools cfg))"
    using ResolvedPools_names [of cfg] by (simp add: pools comp_def)
  moreover have "list_all (\<lambda>(name, rp). \<exists>p. Config_Pool cfg name = Some p \<and> rp = toResolvedPool p \<and>
      sorted (rp_OkExitCodes rp) \<and> mset (rp_OkExitCodes rp) = mset (pc_OkExitCodes p)) (rs_Pools (resolvedOutput cfg))"
    by (auto simp: pools list_all_iff ResolvedPools_mem_iff toResolvedPool_def)
  ultimately show ?thesis
    using assms by (simp add: resolvedOutput_def same Let_def)
qed

lemma check_masks_password_witness:
  "Redis_Password (rs_Redis (resolvedOutput (two_pools\<lparr>cfg_Redis := (cfg_Redis two_pools)\<lparr>Redis_Password := ''secret''\<rparr>\<rparr>)))
     = Redis_Password (rs_Redis (resolvedOutput (two_pools\<lparr>cfg_Redis := (cfg_Redis two_pools)\<lparr>Redis_Password := ''x''\<rparr>\<rparr>)))"
  using check_masks_password [of "''secret''" "two_pools\<lparr>cfg_Redis := (cfg_Redis two_pools)\<lparr>Redis_Password := ''x''\<rparr>\<rparr>"]
  by simp

section \<open>The logger\<close>

definition unixTimestamps :: string where "unixTimestamps = ''unix''"

text \<open>An attribute of a record: its groups, its key and its value, a time or something else.\<close>

datatype attr_value = VTime gtime | VInt int | VStr string | VOther string

definition timestampFormatter :: "(gtime \<Rightarrow> string \<Rightarrow> string) \<Rightarrow> string \<Rightarrow> string list \<Rightarrow> string \<times> attr_value \<Rightarrow> string \<times> attr_value" where
  "timestampFormatter format layout groups a =
     (if length groups > 0 \<or> fst a \<noteq> ''time'' then a
      else case snd a of
        VTime t \<Rightarrow>
          if layout = unixTimestamps then (''time'', VInt ((t - 62135596800 * second) div second))
          else (''time'', VStr (format t layout))
      | _ \<Rightarrow> a)"

text \<open>The logger: its handler, its level and what it does to an attribute.  It writes the lines
  at its level or above.\<close>

record logger =
  lg_json :: bool
  lg_level :: level
  lg_replace :: "string list \<Rightarrow> string \<times> attr_value \<Rightarrow> string \<times> attr_value"

definition newLogger :: "(gtime \<Rightarrow> string \<Rightarrow> string) \<Rightarrow> Log \<Rightarrow> logger" where
  "newLogger format cfg =
     \<lparr>lg_json = (Log_Format cfg = ''json''), lg_level = Log_Level cfg,
      lg_replace = timestampFormatter format (Log_TimestampFormat cfg)\<rparr>"

definition lg_write :: "logger \<Rightarrow> logline list \<Rightarrow> logline list" where
  "lg_write lg lines = filter (\<lambda>(lv, msg, attrs). lg_level lg \<le> lv) lines"

section \<open>The commands\<close>

text \<open>The verbs with their usage lines and flags (each with its alias), as \<open>newCommand\<close> lists
  them.\<close>

definition configFlag :: "string list" where
  "configFlag = [''config'', ''c'']"

definition newCommand :: "(string \<times> string \<times> string list list) list" where
  "newCommand =
     [(''run'', ''start the process manager'', [configFlag]),
      (''check'', ''load and validate the config, print it resolved, exit'', [configFlag]),
      (''version'', ''print version and exit'', [])]"

text \<open>What the library makes of the arguments: the root command with the arguments left over, a
  verb with the value of \<open>--config\<close>, a request for the help of a verb (\<open>None\<close> is the root),
  or a flag it rejects, with the verb and its error.\<close>

datatype verb =
    VRoot "string list"
  | VRun string
  | VCheck string
  | VVersion
  | VHelp "string option"
  | VBadFlag "string option" string

text \<open>The error a command returns: a plain one, or a \<open>cli.ExitCoder\<close>.\<close>

datatype cmd_error = PlainErr string | ExitCoder int string

text \<open>What is written to stderr: a line, the help of a command, a log line.\<close>

datatype errout = ErrLine string | HelpText "string option" | LogLine logline

definition usageError :: "string option \<Rightarrow> string option \<Rightarrow> cmd_error \<times> errout list" where
  "usageError cmd err =
     (ExitCoder 2 [], (case err of None \<Rightarrow> [] | Some e \<Rightarrow> [ErrLine (''doorbell-pm: '' @ e)]) @ [HelpText cmd])"

text \<open>The text of the error of \<open>Finalize\<close>; it has one, by \<open>violations_one_per_line\<close>.\<close>

definition finalize_error_text :: "(nat \<Rightarrow> bool) \<Rightarrow> (f64 \<Rightarrow> string) \<Rightarrow> violation list \<Rightarrow> string" where
  "finalize_error_text is_print gfmt vs = (case violations_text is_print gfmt vs of None \<Rightarrow> [] | Some t \<Rightarrow> t)"

text \<open>What the world does for a command: the document a path names, the encoder, the write to
  stdout, the errors of running the service, the process id, and the two tables of \<open>fmt\<close>.\<close>

record cli_env =
  ce_load :: "string \<Rightarrow> cfg_error + Config"
  ce_marshal :: "resolved \<Rightarrow> string + string"
  ce_write :: "string \<Rightarrow> string option"
  ce_app :: "Config \<Rightarrow> app_error list"
  ce_pid :: gint
  ce_version :: string
  ce_print :: "nat \<Rightarrow> bool"
  ce_gfmt :: "f64 \<Rightarrow> string"
  ce_format :: "gtime \<Rightarrow> string \<Rightarrow> string"

definition loadConfig :: "cli_env \<Rightarrow> string \<Rightarrow> string \<Rightarrow> (cmd_error \<times> errout list) + Config" where
  "loadConfig W cmd path =
     (if path = [] then Inl (usageError (Some cmd) (Some ''--config is required''))
      else case ce_load W path of
        Inl e \<Rightarrow> Inl (PlainErr (load_error_text path e), [])
      | Inr cfg \<Rightarrow> (case Finalize cfg of
            Inl vs \<Rightarrow> Inl (PlainErr (finalize_error_text (ce_print W) (ce_gfmt W) vs), [])
          | Inr cfg' \<Rightarrow> Inr cfg'))"

text \<open>\<open>runApp\<close>; \<open>errs\<close> are the errors \<open>Run\<close> returned.  The lines are those it logs itself.\<close>

definition runApp :: "cli_env \<Rightarrow> string \<Rightarrow> Config \<Rightarrow> app_error list \<Rightarrow> cmd_error option \<times> errout list" where
  "runApp W path cfg errs =
     (let log = newLogger (ce_format W) (cfg_Log cfg);
          start = (Info, ''doorbell starting'', [(''version'', AStr (ce_version W)), (''pid'', AInt (ce_pid W)),
                     (''config'', AStr path)])
      in if errs \<noteq> [] then
           (Some (ExitCoder 1 []), map LogLine (lg_write log [start,
              (Error, ''doorbell stopped with error'', [(''err'', AErr (errors_Join (map app_error_text errs)))])]))
         else (None, map LogLine (lg_write log [start, (Info, ''doorbell stopped'', [])])))"

definition printResolved :: "cli_env \<Rightarrow> Config \<Rightarrow> cmd_error option" where
  "printResolved W cfg =
     (case ce_marshal W (resolvedOutput cfg) of
        Inl e \<Rightarrow> Some (PlainErr (''render config: '' @ e))
      | Inr out \<Rightarrow> map_option PlainErr (ce_write W out))"

definition version_line :: "string \<Rightarrow> string" where
  "version_line v = ''doorbell-pm '' @ v @ [CHR 0x0A]"

text \<open>The action of a verb: its error and what it wrote to stderr itself.  Help is the library's:
  it is printed on stdout, no action runs.\<close>

definition command :: "cli_env \<Rightarrow> verb \<Rightarrow> cmd_error option \<times> errout list" where
  "command W v =
     (case v of
        VRoot args \<Rightarrow> (case usageError None (case args of [] \<Rightarrow> None
            | a # as \<Rightarrow> Some (''unknown command '' @ go_quote (ce_print W) a)) of (e, out) \<Rightarrow> (Some e, out))
      | VRun path \<Rightarrow> (case loadConfig W ''run'' path of Inl (e, out) \<Rightarrow> (Some e, out)
          | Inr cfg \<Rightarrow> runApp W path cfg (ce_app W cfg))
      | VCheck path \<Rightarrow> (case loadConfig W ''check'' path of Inl (e, out) \<Rightarrow> (Some e, out)
          | Inr cfg \<Rightarrow> (printResolved W cfg, []))
      | VVersion \<Rightarrow> (map_option PlainErr (ce_write W (version_line (ce_version W))), [])
      | VHelp cmd \<Rightarrow> (None, [])
      | VBadFlag cmd err \<Rightarrow> (case usageError cmd (Some err) of (e, out) \<Rightarrow> (Some e, out)))"

text \<open>\<open>run\<close>: the exit code, and what the command and \<open>run\<close> wrote to stderr.\<close>

definition main_run :: "cmd_error option \<times> errout list \<Rightarrow> int \<times> errout list" where
  "main_run r =
     (case r of (None, out) \<Rightarrow> (0, out)
      | (Some e, out) \<Rightarrow>
          (case e of PlainErr msg \<Rightarrow> 1 | ExitCoder code msg \<Rightarrow> code,
           out @ (let msg = (case e of PlainErr msg \<Rightarrow> msg | ExitCoder code msg \<Rightarrow> msg)
                  in if msg \<noteq> [] then [ErrLine (''doorbell-pm: '' @ msg)] else [])))"

text \<open>Whether a line of stderr is a complaint: not help and not a log line below \<open>Error\<close>.\<close>

definition complains :: "errout \<Rightarrow> bool" where
  "complains l \<longleftrightarrow> (case l of ErrLine t \<Rightarrow> True | HelpText c \<Rightarrow> False | LogLine (lv, msg, attrs) \<Rightarrow> Error \<le> lv)"

lemma loadConfig_eq:
  "loadConfig W cmd path =
     (if path = [] then Inl (usageError (Some cmd) (Some ''--config is required''))
      else case ce_load W path of Inl e \<Rightarrow> Inl (PlainErr (load_error_text path e), [])
        | Inr cfg \<Rightarrow> if valid_config (applyDefaults cfg) then Inr (applyDefaults cfg)
            else Inl (PlainErr (finalize_error_text (ce_print W) (ce_gfmt W) (Config_validate (applyDefaults cfg))), []))"
  by (auto simp: loadConfig_def Finalize_def Let_def Config_validate_Nil_iff split: sum.split)

text \<open>C38: the exit code tells the cases apart: 2 for a usage problem, which includes a missing
  \<open>--config\<close>; 1 when the document cannot be loaded or breaks a rule, when the service
  stopped with an error or when the output could not be written; 0 otherwise, which is
  exactly when the command returned no error, and then no line the command itself wrote to
  stderr is a complaint.  Asking for help is one of these cases and leaves stderr empty.\<close>

theorem exit_codes:
  "fst (main_run (command W v)) =
     (case v of
        VRoot args \<Rightarrow> 2
      | VBadFlag cmd err \<Rightarrow> 2
      | VHelp cmd \<Rightarrow> 0
      | VVersion \<Rightarrow> if ce_write W (''doorbell-pm '' @ ce_version W @ [CHR 0x0A]) = None then 0 else 1
      | VRun path \<Rightarrow>
          if path = [] then 2
          else (case ce_load W path of Inl e \<Rightarrow> 1
            | Inr cfg \<Rightarrow> if valid_config (applyDefaults cfg) \<and> ce_app W (applyDefaults cfg) = [] then 0 else 1)
      | VCheck path \<Rightarrow>
          if path = [] then 2
          else (case ce_load W path of Inl e \<Rightarrow> 1
            | Inr cfg \<Rightarrow> if valid_config (applyDefaults cfg) \<and>
                (\<exists>out. ce_marshal W (resolvedOutput (applyDefaults cfg)) = Inr out \<and> ce_write W out = None) then 0 else 1)) \<and>
   (fst (main_run (command W v)) = 0) = (fst (command W v) = None) \<and>
   (fst (command W v) = None \<longrightarrow> \<not> list_ex complains (snd (main_run (command W v)))) \<and>
   (\<forall>cmd. v = VHelp cmd \<longrightarrow> main_run (command W v) = (0, []))"
proof (cases v)
  case (VRun path)
  then show ?thesis
    by (auto simp: command_def loadConfig_eq main_run_def usageError_def runApp_def lg_write_def complains_def Let_def
        less_eq_level_def split: sum.split)
next
  case (VCheck path)
  then show ?thesis
    by (auto simp: command_def loadConfig_eq main_run_def usageError_def printResolved_def Let_def split: sum.split)
qed (auto simp: command_def main_run_def usageError_def version_line_def split: list.split)

definition demo_cli :: cli_env where
  "demo_cli = \<lparr>ce_load = \<lambda>_. Inr two_pools, ce_marshal = \<lambda>_. Inr [], ce_write = \<lambda>_. None, ce_app = \<lambda>_. [],
     ce_pid = 7, ce_version = ''dev'', ce_print = \<lambda>_. True, ce_gfmt = \<lambda>_. [], ce_format = \<lambda>_ _. []\<rparr>"

lemma exit_codes_witness:
  "fst (main_run (command demo_cli VVersion)) = 0 \<and> \<not> list_ex complains (snd (main_run (command demo_cli VVersion))) \<and>
   fst (main_run (command demo_cli (VRun []))) = 2"
proof -
  have "fst (main_run (command demo_cli VVersion)) = 0"
    using exit_codes [of demo_cli VVersion, THEN conjunct1] by (simp add: demo_cli_def)
  with exit_codes [of demo_cli VVersion] exit_codes [of demo_cli "VRun []", THEN conjunct1] show ?thesis by simp
qed

end
