(* ===== verification/ServiceRuns.thy ===== *)
theory ServiceRuns
  imports Service
begin

text \<open>
  What every finite run of the service guarantees: the pools keep their contract, reporting a
  failure never blocks, failures are reported, and a nil return is final.  Concrete runs
  show that the hypotheses can hold.
\<close>

section \<open>Concrete runs\<close>

text \<open>A service without pools and sources, asked to stop.\<close>

definition quiet_config :: Config where
  "quiet_config = (bareConfig [])\<lparr>cfg_HTTP := (cfg_HTTP (bareConfig []))\<lparr>HTTP_Enabled := Some False\<rparr>,
     cfg_Redis := (cfg_Redis (bareConfig []))\<lparr>Redis_Enabled := Some False\<rparr>\<rparr>"

lemma quiet_app: "a_pools (newApp quiet_config) = []" "a_sources (newApp quiet_config) = []"
    "a_metrics (newApp quiet_config) = None" "bg_goroutines (newApp quiet_config) = []"
proof -
  have "ResolvedPools quiet_config = []"
    by (simp add: ResolvedPools_def quiet_config_def bareConfig_def List.map_filter_simps)
  then show "a_pools (newApp quiet_config) = []" "a_sources (newApp quiet_config) = []"
      "a_metrics (newApp quiet_config) = None" "bg_goroutines (newApp quiet_config) = []"
    by (simp_all add: newApp_def newSources_def enabledPools_eq newPools_eq Let_def bg_goroutines_def)
      (simp_all add: quiet_config_def bareConfig_def HTTP_IsEnabled_def Redis_IsEnabled_def Metrics_IsEnabled_def)
qed

definition quiet_stop :: "saction list" where
  "quiet_stop = [SCtx, SShutdown, SDispatchEnd, SAwaited True, SAwaited True, SDrain, SDrain]"

definition quiet_end :: svc where
  "quiet_end = (let s0 = svc_start (newApp quiet_config) in
     s0\<lparr>sv_dispatched := True, sv_main := MReturned [], sv_ctx := True, sv_cancelled := True,
       sv_log := sv_log s0 @ [(Info, ''shutting down'', [(''timeout'', ADur 0)])]\<rparr>)"

lemma quiet_run: "svc_run E quiet_config quiet_stop quiet_end"
proof -
  have t: "cfg_ShutdownTimeout (a_cfg (newApp quiet_config)) = 0"
    by (simp add: newApp_def Let_def split_beta) (simp add: quiet_config_def bareConfig_def)
  note d = svc_start_def quiet_app main_select_def main_awaited_def await_def main_drain_def Let_def t quiet_end_def
  show ?thesis
    unfolding svc_run_def quiet_stop_def
    apply (rule svc_steps.more [OF svc_step.ctx_done])
    apply (rule svc_steps.more [OF svc_step.select_ctx], simp add: d, simp)
    apply (rule svc_steps.more [OF svc_step.dispatch_end], simp add: d, simp add: d)
    apply (rule svc_steps.more [OF svc_step.sources], simp add: d, simp add: d)
    apply (rule svc_steps.more [OF svc_step.dispatcher], simp add: d, simp add: d)
    apply (rule svc_steps.more [OF svc_step.pools_done], simp add: d, simp add: d)
    apply (rule svc_steps.more [OF svc_step.drain], simp add: d)
    apply (simp add: d svc_steps.none)
    done
qed

text \<open>Two pools, one of them disabled; a request for the enabled one.\<close>

definition bell :: Hint where
  "bell = \<lparr>Hint_Source = SourceHTTP, Hint_Pool = ''a'', Hint_Count = 2\<rparr>"

definition rung :: "(string \<Rightarrow> env) \<Rightarrow> svc" where
  "rung E = (let s = svc_start (newApp two_pools)
     in s\<lparr>sv_d := snd (Dispatch (pools_hint E) (a_routes (newApp two_pools)) bell (sv_d s))\<rparr>)"

lemma bell_run: "svc_run E two_pools [SSend bell, SDispatch bell] (rung E)"
proof -
  let ?a = "newApp two_pools" and ?s = "svc_start (newApp two_pools)"
  have "svc_step E ?a ?s (SSend bell) (?s\<lparr>sv_chan := sv_chan ?s @ [bell]\<rparr>)"
    by (rule svc_step.send) (simp add: svc_start_def hintBuffer_def)
  moreover have "svc_step E ?a (?s\<lparr>sv_chan := sv_chan ?s @ [bell]\<rparr>) (SDispatch bell)
      (?s\<lparr>sv_chan := sv_chan ?s @ [bell]\<rparr>\<lparr>sv_chan := [],
        sv_d := snd (Dispatch (pools_hint E) (a_routes ?a) bell (sv_d (?s\<lparr>sv_chan := sv_chan ?s @ [bell]\<rparr>)))\<rparr>)"
    by (rule svc_step.dispatch) (simp_all add: svc_start_def)
  moreover have "?s\<lparr>sv_chan := sv_chan ?s @ [bell]\<rparr>\<lparr>sv_chan := [],
        sv_d := snd (Dispatch (pools_hint E) (a_routes ?a) bell (sv_d (?s\<lparr>sv_chan := sv_chan ?s @ [bell]\<rparr>)))\<rparr> = rung E"
    by (simp add: rung_def Let_def svc_start_def)
  ultimately show ?thesis unfolding svc_run_def by (metis svc_steps.intros)
qed

lemma two_pools_a: "resolvePool emptySettings ''a'' (plainPool [''w'']) \<in> set (ResolvedPools two_pools)"
    "pc_Enabled (resolvePool emptySettings ''a'' (plainPool [''w'']))"
    "pc_Name (resolvePool emptySettings ''a'' (plainPool [''w''])) = ''a''"
    "gmap_ok (cfg_Pools two_pools)"
  by (simp_all add: two_pools_resolved resolve_layers plain_defs layer3_def)
    (simp add: two_pools_def applyDefaults_def bareConfig_def)

lemma rung_facts: "sv_chan (rung E) = []" "sv_bg (rung E) = [(BSource SourceHTTP, False), (BSource SourceRedis, False)]"
proof -
  have "HTTP_IsEnabled (cfg_HTTP two_pools)" "Redis_IsEnabled (cfg_Redis two_pools)" "Metrics_Addr (cfg_Metrics two_pools) = []"
    by (simp_all add: two_pools_def applyDefaults_def bareConfig_def setStr_def setBool_def
        HTTP_IsEnabled_def Redis_IsEnabled_def)
  then have "bg_goroutines (newApp two_pools) = [BSource SourceHTTP, BSource SourceRedis]"
    by (simp add: bg_goroutines_def newApp_def newSources_def Let_def split_beta)
  then show "sv_chan (rung E) = []" "sv_bg (rung E) = [(BSource SourceHTTP, False), (BSource SourceRedis, False)]"
    by (simp_all add: rung_def svc_start_def Let_def)
qed

text \<open>The same app asked to stop, or stopped by a source that fails; then everything ends and the
  pool shuts down.\<close>

definition two_end :: "saction list" where
  "two_end = [SDispatchEnd, SAwaited True, SAwaited True, SPoolBegin ''a'', SPoolEnd ''a'' None, SDrain, SDrain]"

definition two_stop :: "saction list" where
  "two_stop = [SCtx, SShutdown, SEnd 0 None, SEnd 1 None] @ two_end"

definition two_fail :: "saction list" where
  "two_fail = [SEnd 0 (Some ''boom''), SShutdown, SEnd 1 None] @ two_end"

lemma two_pools_start:
  "sv_bg (svc_start (newApp two_pools)) = [(BSource SourceHTTP, False), (BSource SourceRedis, False)]"
  "d_world (sv_d (svc_start (newApp two_pools))) =
     [(''a'', pool_Start (pool_New (resolvePool emptySettings ''a'' (plainPool [''w'']))))]"
proof -
  have "sv_bg (svc_start (newApp two_pools)) = sv_bg (rung E)" for E by (simp add: rung_def Let_def)
  then show "sv_bg (svc_start (newApp two_pools)) = [(BSource SourceHTTP, False), (BSource SourceRedis, False)]"
    by (simp add: rung_facts)
  have "a_pools (newApp two_pools) = [(''a'', pool_New (resolvePool emptySettings ''a'' (plainPool [''w''])))]"
    by (simp add: newApp_fields newPools_eq two_pools_resolved)
      (simp add: resolve_layers plain_defs layer3_def)
  then show "d_world (sv_d (svc_start (newApp two_pools))) =
     [(''a'', pool_Start (pool_New (resolvePool emptySettings ''a'' (plainPool [''w'']))))]"
    by (simp add: svc_start_def)
qed

lemma two_end_run:
  assumes "sv_main s = MSources errs" "sv_cancelled s" "\<not> sv_dispatched s" "list_all snd (sv_bg s)" "sv_errc s = []"
    and "d_world (sv_d s) = d_world (sv_d (svc_start (newApp two_pools)))"
  shows "\<exists>s'. svc_steps E a s two_end s' \<and> sv_main s' = MReturned errs"
proof -
  let ?p = "pool_New (resolvePool emptySettings ''a'' (plainPool [''w'']))"
  have p: "p_reapers (Shutdown_begin (pool_Start ?p)) = 0" "p_bg (Shutdown_begin (pool_Start ?p)) = 0"
    by (simp_all add: pool_New_def pool_Start_def Shutdown_begin_def)
      (simp add: resolve_layers plain_defs layer3_def)
  note d = main_awaited_def await_def main_drain_def shutdown_end_def set_pool_def Shutdown_returns_def
  note f = assms(1-5) assms(6) [unfolded two_pools_start]
  show ?thesis
    unfolding two_end_def
    apply (intro exI conjI)
     apply (rule svc_steps.more [OF svc_step.dispatch_end], simp add: f, simp add: f)
     apply (rule svc_steps.more [OF svc_step.sources], simp add: f, simp add: f)
     apply (rule svc_steps.more [OF svc_step.dispatcher], simp add: d f, simp add: d f)
     apply (rule svc_steps.more [OF svc_step.pool_begin], simp add: d f, simp, simp add: d f)
     apply (rule svc_steps.more [OF svc_step.pool_end], simp, simp, simp add: d f, simp add: d p)
     apply (rule svc_steps.more [OF svc_step.pools_done], simp add: d, simp)
     apply (rule svc_steps.more [OF svc_step.drain], simp add: d f)
     apply (rule svc_steps.none)
    apply (simp add: d f)
    done
qed

definition stopping_now :: "app_error list \<Rightarrow> svc \<Rightarrow> bool" where
  "stopping_now errs s \<longleftrightarrow> sv_main s = MSources errs \<and> sv_cancelled s \<and> \<not> sv_dispatched s \<and> list_all snd (sv_bg s) \<and>
     sv_errc s = [] \<and> d_world (sv_d s) = d_world (sv_d (svc_start (newApp two_pools)))"

lemma two_end_append:
  assumes "svc_steps E (newApp two_pools) (svc_start (newApp two_pools)) xs s" "stopping_now errs s"
  shows "\<exists>s'. svc_run E two_pools (xs @ two_end) s' \<and> sv_main s' = MReturned errs"
proof -
  obtain s' where "svc_steps E (newApp two_pools) s two_end s'" "sv_main s' = MReturned errs"
    using two_end_run [of s errs E "newApp two_pools"] assms(2) by (auto simp: stopping_now_def)
  with svc_steps_append [OF assms(1)] show ?thesis unfolding svc_run_def by blast
qed

lemma two_pools_main:
  "sv_main (svc_start (newApp two_pools)) = MSelect" "sv_errc (svc_start (newApp two_pools)) = []"
  "\<not> sv_dispatched (svc_start (newApp two_pools))"
  by (simp_all add: svc_start_def)

lemma two_stop_run: "\<exists>s. svc_run E two_pools two_stop s \<and> sv_main s = MReturned []"
proof -
  note d = main_select_def bg_end_def two_pools_start two_pools_main stopping_now_def
  have "\<exists>s. svc_steps E (newApp two_pools) (svc_start (newApp two_pools)) [SCtx, SShutdown, SEnd 0 None, SEnd 1 None] s \<and>
      stopping_now [] s"
    apply (intro exI conjI)
     apply (rule svc_steps.more [OF svc_step.ctx_done])
     apply (rule svc_steps.more [OF svc_step.select_ctx], simp add: d, simp)
     apply (rule svc_steps.more [OF svc_step.bg_end], simp add: d, simp add: d, simp)
     apply (rule svc_steps.more [OF svc_step.bg_end], simp add: d, simp add: d, simp)
     apply (rule svc_steps.none)
    apply (simp add: d)
    done
  then show ?thesis unfolding two_stop_def using two_end_append by blast
qed

lemma two_fail_run: "\<exists>s. svc_run E two_pools two_fail s \<and> sv_main s = MReturned [SourceFailed ''http'' ''boom'']"
proof -
  note d = main_select_def bg_end_def bg_error_def two_pools_start two_pools_main stopping_now_def errc_cap_def SourceHTTP_def
  have "\<exists>s. svc_steps E (newApp two_pools) (svc_start (newApp two_pools)) [SEnd 0 (Some ''boom''), SShutdown, SEnd 1 None] s \<and>
      stopping_now [SourceFailed ''http'' ''boom''] s"
    apply (intro exI conjI)
     apply (rule svc_steps.more [OF svc_step.bg_end], simp add: d, simp add: d, simp add: d)
     apply (rule svc_steps.more [OF svc_step.select_err], simp add: d, simp add: d)
     apply (rule svc_steps.more [OF svc_step.bg_end], simp add: d, simp add: d, simp)
     apply (rule svc_steps.none)
    apply (simp add: d)
    done
  then show ?thesis unfolding two_fail_def using two_end_append by blast
qed

lemma quiet_end_main: "sv_main quiet_end = MReturned []" "sv_ctx quiet_end"
  by (simp_all add: quiet_end_def Let_def)

section \<open>What a run guarantees\<close>

text \<open>C3: the service keeps every pool's contract.  In every run of the whole service, an
  enabled pool has done exactly a run of its own: started once, shut down only by the
  service, and given, in order and once each, the dispatched hints that are routed to it.
  So its concurrency cap holds whatever the sources, the dispatcher and the stop do.\<close>

theorem service_refines_pool:
  assumes "svc_run E c xs s" "gmap_ok (cfg_Pools c)" "pc \<in> set (ResolvedPools c)" "pc_Enabled pc"
  shows "\<exists>p. pool_of s (pc_Name pc) = Some p \<and>
    pool_steps (E (pc_Name pc)) (pool_New pc) (AStart # pool_trace (newApp c) (pc_Name pc) xs) p \<and>
    routed_hints (pool_trace (newApp c) (pc_Name pc) xs) = hints_for (newApp c) (pc_Name pc) (dispatches xs) \<and>
    0 \<le> p_running p \<and> p_running p \<le> max 0 (pc_Concurrency pc)"
proof -
  have "map_of (a_pools (newApp c)) (pc_Name pc) = Some (pool_New pc)"
    using newPools_lookup(1) [OF ResolvedPools_distinct [OF assms(2)] assms(3,4)] by (simp add: newApp_fields)
  then have "pool_of (svc_start (newApp c)) (pc_Name pc) = Some (pool_Start (pool_New pc))"
    by (simp add: pool_of_start)
  from svc_steps_pool [OF assms(1) [unfolded svc_run_def] this] obtain p where
    p: "pool_of s (pc_Name pc) = Some p"
      "pool_steps (E (pc_Name pc)) (pool_Start (pool_New pc)) (pool_trace (newApp c) (pc_Name pc) xs) p" by blast
  then have run: "pool_steps (E (pc_Name pc)) (pool_New pc) (AStart # pool_trace (newApp c) (pc_Name pc) xs) p"
    by (blast intro: pool_steps.more pool_step.start)
  have "pool_inv p" using pool_inv_steps [OF run pool_inv_New] .
  moreover have "p_cfg p = pc" using cfg_reachable run unfolding reachable_def by blast
  ultimately show ?thesis
    using p run routed_hints_trace [OF assms(1) [unfolded svc_run_def]] by (auto simp: pool_inv_def)
qed

lemma service_refines_pool_witness:
  "\<exists>p. pool_of (rung (\<lambda>_. demo_env)) ''a'' = Some p \<and> 0 \<le> p_running p"
  using service_refines_pool [OF bell_run two_pools_a(4,1,2), of "\<lambda>_. demo_env"] two_pools_a(3) by auto

text \<open>C26: reporting a failure never blocks: whatever happened before, a source or listener
  that returns finds room for its error in \<open>errc\<close>, so the wait group of the sources is
  always released.\<close>

theorem errc_never_blocks:
  assumes "svc_run E c xs s" "i < length (sv_bg s)" "\<not> snd (sv_bg s ! i)"
  shows "length (sv_errc s) < errc_cap (newApp c) \<and> (\<exists>s'. svc_step E (newApp c) s (SEnd i r) s')"
  using errc_room [OF svc_inv_run [OF assms(1)] assms(3,2)] assms(2,3) by (blast intro: svc_step.bg_end)

lemma errc_never_blocks_witness: "\<exists>s'. svc_step (\<lambda>_. demo_env) (newApp two_pools) (rung (\<lambda>_. demo_env)) (SEnd 0 (Some ''boom'')) s'"
  using errc_never_blocks [OF bell_run [of "\<lambda>_. demo_env"], where i = 0 and r = "Some ''boom''"] by (simp add: rung_facts)

text \<open>A nil return and what follows it.\<close>

lemma nil_return_final:
  assumes "svc_run E c xs s" "sv_main s = MReturned []" "svc_steps E (newApp c) s ys s'"
  shows "list_all snd (sv_bg s) \<and> sv_dispatched s \<and> sv_errc s = [] \<and>
    (\<forall>name p. pool_of s name = Some p \<longrightarrow> p_running p = 0 \<and>
       (\<exists>p'. pool_of s' name = Some p' \<and> p_running p' = 0 \<and> s_spawns p' = s_spawns p))"
proof -
  have "main_ok s" using svc_inv_run [OF assms(1)] by (simp add: svc_inv_def)
  then have ok: "clean s" "all_pools drained s" "sv_errc s = []" using assms(2) by (auto simp: main_ok_def)
  have idle: "p_running p = 0" if "drained p" for p using that by (simp add: drained_def all_reaped(2))
  have "\<exists>p'. pool_of s' name = Some p' \<and> p_running p' = 0 \<and> s_spawns p' = s_spawns p"
    if "pool_of s name = Some p" "drained p" for name p
    using svc_steps_pool [OF assms(3) that(1)] drained_steps [OF _ that(2)] idle by blast
  with ok idle show ?thesis by (auto simp: clean_def all_pools_def)
qed

text \<open>C13: when \<open>Run\<close> returns nil the stop was clean and is final: every source and listener
  has ended, the dispatcher too, no error is left unreported, and every pool is empty and
  starts nothing in any continuation.\<close>

theorem Run_nil_is_final:
  assumes "svc_run E c xs s" "sv_main s = MReturned []" "svc_steps E (newApp c) s ys s'"
  shows "list_all snd (sv_bg s) \<and> sv_dispatched s \<and> sv_errc s = [] \<and>
    (\<forall>name p. pool_of s name = Some p \<longrightarrow> p_running p = 0 \<and>
       (\<exists>p'. pool_of s' name = Some p' \<and> p_running p' = 0 \<and> s_spawns p' = s_spawns p))"
  using nil_return_final [OF assms] .

lemma Run_nil_is_final_witness:
  "\<exists>s p. svc_run (\<lambda>_. demo_env) two_pools two_stop s \<and> list_all snd (sv_bg s) \<and> sv_errc s = [] \<and>
     pool_of s ''a'' = Some p \<and> p_running p = 0"
proof -
  obtain s where s: "svc_run (\<lambda>_. demo_env) two_pools two_stop s" "sv_main s = MReturned []" using two_stop_run by blast
  have "pool_of (svc_start (newApp two_pools)) ''a'' \<noteq> None" by (simp add: two_pools_start)
  then obtain p where "pool_of s ''a'' = Some p"
    using svc_steps_pool [OF s(1) [unfolded svc_run_def]] by blast
  with Run_nil_is_final [OF s svc_steps.none] s(1) show ?thesis by blast
qed

section \<open>Failures\<close>

definition is_failure :: "app_error \<Rightarrow> bool" where
  "is_failure e = (case e of SourceFailed name msg \<Rightarrow> True | MetricsListenerFailed msg \<Rightarrow> True | _ \<Rightarrow> False)"

text \<open>The failures of the sources and listeners, in the order they happened.\<close>

definition failure_part :: "App \<Rightarrow> saction \<Rightarrow> app_error list" where
  "failure_part a x = (case x of SEnd i r \<Rightarrow> (case r of None \<Rightarrow> [] | Some e \<Rightarrow> [bg_error (bg_goroutines a ! i) e]) | _ \<Rightarrow> [])"

definition failures_of :: "App \<Rightarrow> saction list \<Rightarrow> app_error list" where
  "failures_of a xs = concat (map (failure_part a) xs)"

definition errs_of :: "mainphase \<Rightarrow> app_error list" where
  "errs_of m = (case m of MSelect \<Rightarrow> [] | MSources errs \<Rightarrow> errs | MDispatcher errs \<Rightarrow> errs | MPools errs ps \<Rightarrow> errs
     | MDrain errs \<Rightarrow> errs | MReturned errs \<Rightarrow> errs)"

lemma is_failure_simps [simp]:
  "is_failure (bg_error g e)" "\<not> is_failure (StopSources e)" "\<not> is_failure (StopDispatcher e)"
  "\<not> is_failure (PoolShutdown name e)"
  by (simp_all add: is_failure_def bg_error_def split: bgrun.split)

definition failures_ok :: "App \<Rightarrow> app_error list \<Rightarrow> svc \<Rightarrow> bool" where
  "failures_ok a fs s \<longleftrightarrow> fs = filter is_failure (errs_of (sv_main s)) @ sv_errc s \<and> list_all is_failure (sv_errc s)"

lemma failures_ok_step:
  "svc_step E a s x s' \<Longrightarrow> bg_ok a s \<Longrightarrow> failures_ok a fs s \<Longrightarrow> failures_ok a (fs @ failure_part a x) s'"
proof (induction rule: svc_step.induct)
  case (bg_end i s r)
  then have "fst (sv_bg s ! i) = bg_goroutines a ! i"
    unfolding bg_ok_def by (metis nth_map)
  with bg_end show ?case
    by (auto simp: failures_ok_def failure_part_def bg_end_def errs_of_def split: option.split)
next
  case (select_err s)
  then show ?case
    by (cases "sv_errc s") (auto simp: failures_ok_def failure_part_def errs_of_def main_select_def)
next
  case (drain s errs)
  then show ?case
    by (cases "sv_errc s") (auto simp: failures_ok_def failure_part_def errs_of_def main_drain_def)
qed (auto simp: failures_ok_def failure_part_def errs_of_def set_pool_def main_select_def main_awaited_def await_def
    shutdown_end_def main_drain_def split: option.split)

lemma failures_ok_steps:
  "svc_steps E a s xs s' \<Longrightarrow> svc_inv a s \<Longrightarrow> failures_ok a fs s \<Longrightarrow> failures_ok a (fs @ failures_of a xs) s'"
proof (induction arbitrary: fs rule: svc_steps.induct)
  case (more s x s' xs s'')
  from more.IH [OF svc_inv_step [OF more(1,4)] failures_ok_step [OF more(1) _ more(5)]] more(4)
  show ?case by (simp add: svc_inv_def failures_of_def)
qed (simp add: failures_of_def)

text \<open>Past the first wait, either its timeout is among the errors or the sources have ended.\<close>

definition waited_ok :: "svc \<Rightarrow> bool" where
  "waited_ok s \<longleftrightarrow> StopSources deadlineExceeded \<notin> set (errs_of (sv_main s)) \<longrightarrow>
     (case sv_main s of MSelect \<Rightarrow> True | MSources errs \<Rightarrow> True
      | MReturned errs \<Rightarrow> list_all snd (sv_bg s) \<and> sv_errc s = [] | _ \<Rightarrow> list_all snd (sv_bg s))"

lemma waited_ok_step:
  assumes "svc_step E a s x s'" "waited_ok s"
  shows "waited_ok s'"
proof (cases "sv_main s' = sv_main s")
  case True
  with assms(2) bg_done_step [OF assms(1)] errc_step [OF assms(1)] show ?thesis
    by (auto simp: waited_ok_def split: mainphase.splits)
next
  case False
  from assms False show ?thesis
    by (induction rule: svc_step.induct)
      (auto simp: waited_ok_def errs_of_def set_pool_def bg_end_def main_select_def main_awaited_def await_def
        shutdown_end_def main_drain_def split: list.split option.split if_splits)
qed

lemma waited_ok_steps: "svc_steps E a s xs s' \<Longrightarrow> waited_ok s \<Longrightarrow> waited_ok s'"
  by (induction rule: svc_steps.induct) (auto dest: waited_ok_step)

text \<open>The failures and the errors of a return.\<close>

lemma return_failures:
  assumes "svc_run E c xs s" "sv_main s = MReturned errs"
  shows "failures_of (newApp c) xs = filter is_failure errs @ sv_errc s \<and>
    (StopSources deadlineExceeded \<in> set errs \<or> failures_of (newApp c) xs = filter is_failure errs)"
proof -
  have "failures_ok (newApp c) [] (svc_start (newApp c))" by (simp add: failures_ok_def svc_start_def errs_of_def)
  from failures_ok_steps [OF assms(1) [unfolded svc_run_def] svc_inv_start this]
  have f: "failures_of (newApp c) xs = filter is_failure errs @ sv_errc s"
    using assms(2) by (simp add: failures_ok_def errs_of_def)
  have "waited_ok (svc_start (newApp c))" by (simp add: waited_ok_def svc_start_def)
  from waited_ok_steps [OF assms(1) [unfolded svc_run_def] this] assms(2)
  have "StopSources deadlineExceeded \<in> set errs \<or> sv_errc s = []" by (auto simp: waited_ok_def errs_of_def)
  with f show ?thesis by auto
qed

text \<open>C17: \<open>Run\<close> reports the failures.  The failures of sources and listeners so far are, in
  their order, the ones \<open>Run\<close> returned followed by those that came too late and are left in
  \<open>errc\<close>; when the wait for the sources was not cut off by \<open>shutdown_timeout\<close>, \<open>Run\<close> returned
  all of them.\<close>

theorem Run_reports_failures:
  assumes "svc_run E c xs s" "sv_main s = MReturned errs"
  shows "failures_of (newApp c) xs = filter is_failure errs @ sv_errc s \<and>
    (StopSources deadlineExceeded \<in> set errs \<or> failures_of (newApp c) xs = filter is_failure errs)"
  using return_failures [OF assms] .

lemma Run_reports_failures_witness:
  "failures_of (newApp two_pools) two_fail = [SourceFailed ''http'' ''boom'']"
proof -
  obtain s where s: "svc_run (\<lambda>_. demo_env) two_pools two_fail s" "sv_main s = MReturned [SourceFailed ''http'' ''boom'']"
    using two_fail_run by blast
  from Run_reports_failures [OF s, THEN conjunct2] show ?thesis by (simp add: is_failure_def)
qed

end
