(* ===== verification/Paths.thy ===== *)
theory Paths
  imports Main
begin

text \<open>
  Infinite behaviours of a step relation: paths, actions that stay enabled, fairness, and
  the two arguments the liveness proofs use.  A fact no step destroys holds from then on;
  a goal is reached when a fair class of actions stays enabled until then and brings a
  measure down that no other step raises.
\<close>

section \<open>Paths and fairness\<close>

text \<open>A path is an infinite sequence of states and actions.  A class of actions is treated
  fairly when it is not enabled forever without being taken: a ready goroutine runs in the
  end, an armed timer fires in the end.\<close>

definition path :: "('s \<Rightarrow> 'x \<Rightarrow> 's \<Rightarrow> bool) \<Rightarrow> 's \<Rightarrow> (nat \<Rightarrow> 's) \<Rightarrow> (nat \<Rightarrow> 'x) \<Rightarrow> bool" where
  "path R s \<sigma> \<tau> \<longleftrightarrow> \<sigma> 0 = s \<and> (\<forall>n. R (\<sigma> n) (\<tau> n) (\<sigma> (Suc n)))"

definition enabled :: "('s \<Rightarrow> 'x \<Rightarrow> 's \<Rightarrow> bool) \<Rightarrow> ('x \<Rightarrow> bool) \<Rightarrow> 's \<Rightarrow> bool" where
  "enabled R P s \<longleftrightarrow> (\<exists>x s'. P x \<and> R s x s')"

definition fair :: "('s \<Rightarrow> 'x \<Rightarrow> 's \<Rightarrow> bool) \<Rightarrow> ('x \<Rightarrow> bool) \<Rightarrow> (nat \<Rightarrow> 's) \<Rightarrow> (nat \<Rightarrow> 'x) \<Rightarrow> bool" where
  "fair R P \<sigma> \<tau> \<longleftrightarrow> (\<forall>n. (\<forall>m\<ge>n. enabled R P (\<sigma> m)) \<longrightarrow> (\<exists>m\<ge>n. P (\<tau> m)))"

text \<open>Strong fairness: a class that is enabled again and again is taken in the end, as a
  sender that waits in the queue of a channel is.\<close>

definition strong_fair :: "('s \<Rightarrow> 'x \<Rightarrow> 's \<Rightarrow> bool) \<Rightarrow> ('x \<Rightarrow> bool) \<Rightarrow> (nat \<Rightarrow> 's) \<Rightarrow> (nat \<Rightarrow> 'x) \<Rightarrow> bool" where
  "strong_fair R P \<sigma> \<tau> \<longleftrightarrow> (\<forall>n. (\<forall>m\<ge>n. \<exists>k\<ge>m. enabled R P (\<sigma> k)) \<longrightarrow> (\<exists>m\<ge>n. P (\<tau> m)))"

lemma strong_fairD: "strong_fair R P \<sigma> \<tau> \<Longrightarrow> \<forall>m\<ge>n. \<exists>k\<ge>m. enabled R P (\<sigma> k) \<Longrightarrow> \<exists>m\<ge>n. P (\<tau> m)"
  by (simp add: strong_fair_def)

lemma strong_fair_final: "\<forall>n\<ge>k. \<sigma> n = s \<Longrightarrow> \<not> enabled R P s \<Longrightarrow> strong_fair R P \<sigma> \<tau>"
  unfolding strong_fair_def by (metis max.cobounded1 max.cobounded2 order_trans)

text \<open>Fairness carries over to a component that moves along.\<close>

lemma fair_part:
  assumes "fair R P \<sigma> \<tau>" "\<And>n. enabled R' P' (f (\<sigma> n)) \<Longrightarrow> enabled R P (\<sigma> n)" "\<And>n. P (\<tau> n) \<Longrightarrow> P' (\<tau>' n)"
  shows "fair R' P' (f \<circ> \<sigma>) \<tau>'"
  using assms unfolding fair_def comp_def by blast

lemma path_step: "path R s \<sigma> \<tau> \<Longrightarrow> R (\<sigma> n) (\<tau> n) (\<sigma> (Suc n))"
  by (simp add: path_def)

lemma path_start: "path R s \<sigma> \<tau> \<Longrightarrow> \<sigma> 0 = s"
  by (simp add: path_def)

lemma enabledI: "R s x s' \<Longrightarrow> P x \<Longrightarrow> enabled R P s"
  by (auto simp: enabled_def)

lemma fairD: "fair R P \<sigma> \<tau> \<Longrightarrow> \<forall>m\<ge>n. enabled R P (\<sigma> m) \<Longrightarrow> \<exists>m\<ge>n. P (\<tau> m)"
  by (simp add: fair_def)

lemma path_stable:
  assumes "path R s \<sigma> \<tau>" "\<And>s x s'. R s x s' \<Longrightarrow> P s \<Longrightarrow> P s'" "P (\<sigma> n)" "n \<le> m"
  shows "P (\<sigma> m)"
  using assms(4)
proof (induction m rule: dec_induct)
  case (step m)
  with assms(1,2) show ?case by (auto simp: path_def)
qed (rule assms(3))

section \<open>Descent\<close>

lemma fair_descent:
  assumes "\<And>n. (\<forall>m\<ge>n. en m) \<Longrightarrow> \<exists>m\<ge>n. act m" "\<And>m. n \<le> m \<Longrightarrow> \<not> goal m \<Longrightarrow> en m"
    and "\<And>m. n \<le> m \<Longrightarrow> \<not> goal m \<Longrightarrow> \<mu> (Suc m) \<le> \<mu> m \<and> (act m \<longrightarrow> \<mu> (Suc m) < (\<mu> m :: nat))"
  shows "\<exists>m\<ge>n. goal m"
proof (rule ccontr)
  assume no: "\<not> (\<exists>m\<ge>n. goal m)"
  have "\<exists>m\<ge>n. \<mu> m + k \<le> \<mu> n" for k
  proof (induction k)
    case (Suc k)
    then obtain m where m: "n \<le> m" "\<mu> m + k \<le> \<mu> n" by blast
    have "\<forall>j\<ge>m. en j" using assms(2) no m(1) by (meson order_trans)
    then obtain l where l: "m \<le> l" "act l" using assms(1) by blast
    from l(1) have "\<mu> l \<le> \<mu> m"
    proof (induction l rule: dec_induct)
      case (step j)
      have "\<mu> (Suc j) \<le> \<mu> j" using assms(3) [of j] no m(1) step(1) by auto
      with step show ?case by simp
    qed simp
    have "\<mu> (Suc l) < \<mu> l" using assms(3) [of l] l m(1) no by auto
    with \<open>\<mu> l \<le> \<mu> m\<close> m l(1) show ?case by (intro exI [of _ "Suc l"]) simp
  qed auto
  from this [of "Suc (\<mu> n)"] show False by auto
qed

text \<open>The same over states: \<open>I\<close> holds from \<open>n\<close> on.\<close>

lemma path_reaches:
  assumes "path R s \<sigma> \<tau>" "fair R P \<sigma> \<tau>" "\<And>m. n \<le> m \<Longrightarrow> I (\<sigma> m)"
    and "\<And>s. I s \<Longrightarrow> \<not> goal s \<Longrightarrow> enabled R P s"
    and "\<And>s x s'. R s x s' \<Longrightarrow> I s \<Longrightarrow> \<not> goal s \<Longrightarrow> \<mu> s' \<le> (\<mu> s :: nat) \<and> (P x \<longrightarrow> \<mu> s' < \<mu> s)"
  obtains m where "n \<le> m" "goal (\<sigma> m)"
proof -
  have "\<exists>m\<ge>n. goal (\<sigma> m)"
    by (rule fair_descent [where en = "\<lambda>m. enabled R P (\<sigma> m)" and act = "\<lambda>m. P (\<tau> m)" and \<mu> = "\<lambda>m. \<mu> (\<sigma> m)"])
      (use fairD [OF assms(2)] assms(3,4) assms(5) [OF path_step [OF assms(1)]] in blast)+
  with that show ?thesis by blast
qed

section \<open>Finite runs as paths\<close>

primrec runs :: "('s \<Rightarrow> 'x \<Rightarrow> 's \<Rightarrow> bool) \<Rightarrow> 's \<Rightarrow> 'x list \<Rightarrow> 's \<Rightarrow> bool" where
  "runs R s [] s' \<longleftrightarrow> s' = s"
| "runs R s (x # xs) s' \<longleftrightarrow> (\<exists>t. R s x t \<and> runs R t xs s')"

lemma runs_snoc: "runs R s xs t \<Longrightarrow> R t x s' \<Longrightarrow> runs R s (xs @ [x]) s'"
  by (induction xs arbitrary: s) auto

lemma path_runs: "path R s \<sigma> \<tau> \<Longrightarrow> runs R s (map \<tau> [0..<n]) (\<sigma> n)"
  by (induction n) (auto simp: path_def intro: runs_snoc)

text \<open>A run that then stands still.\<close>

lemma path_of_run:
  assumes "runs R s xs s'" "\<And>s. R s idle s"
  obtains \<sigma> \<tau> where "path R s \<sigma> \<tau>" "\<forall>n\<ge>length xs. \<sigma> n = s'" "map \<tau> [0..<length xs] = xs"
proof -
  have "\<exists>\<sigma> \<tau>. path R s \<sigma> \<tau> \<and> (\<forall>n\<ge>length xs. \<sigma> n = s') \<and> map \<tau> [0..<length xs] = xs"
    using assms(1)
  proof (induction xs arbitrary: s)
    case Nil
    with assms(2) show ?case by (intro exI [of _ "\<lambda>_. s"] exI [of _ "\<lambda>_. idle"]) (auto simp: path_def)
  next
    case (Cons x xs)
    then obtain t where "R s x t" "runs R t xs s'" by auto
    with Cons.IH obtain \<sigma> \<tau> where
      t: "R s x t" "path R t \<sigma> \<tau>" "\<forall>n\<ge>length xs. \<sigma> n = s'" "map \<tau> [0..<length xs] = xs" by blast
    have "path R s (case_nat s \<sigma>) (case_nat x \<tau>)" using t(1,2) by (auto simp: path_def split: nat.split)
    moreover have "map (case_nat x \<tau>) [0..<length (x # xs)] = x # xs"
      using t(4) by (simp add: upt_conv_Cons map_Suc_upt [symmetric] comp_def del: upt_Suc)
    ultimately show ?case
      using t(3) by (intro exI [of _ "case_nat s \<sigma>"] exI [of _ "case_nat x \<tau>"]) (auto split: nat.split)
  qed
  with that show ?thesis by blast
qed

text \<open>A path that comes to rest where the class is not enabled is fair to it.\<close>

lemma fair_final: "\<forall>n\<ge>k. \<sigma> n = s \<Longrightarrow> \<not> enabled R P s \<Longrightarrow> fair R P \<sigma> \<tau>"
  unfolding fair_def by (metis max.cobounded1 max.cobounded2)

end
