(* ===== verification/ServiceLive.thy ===== *)
theory ServiceLive
  imports ServiceRuns Paths
begin

text \<open>
  Infinite behaviours of the service under a fair scheduler: \<open>Run\<close> returns once it is asked
  to stop, and no hint waits forever while it runs.
\<close>

section \<open>Liveness\<close>

text \<open>The behaviours of the service; \<open>SIdle\<close> is a step of the rest of the world.\<close>

abbreviation svc_path :: "(string \<Rightarrow> env) \<Rightarrow> App \<Rightarrow> (nat \<Rightarrow> svc) \<Rightarrow> (nat \<Rightarrow> saction) \<Rightarrow> bool" where
  "svc_path E a \<equiv> path (svc_step E a) (svc_start a)"

text \<open>The steps of the main goroutine and of those it waits for in \<open>shutdownPools\<close>.\<close>

fun is_main :: "saction \<Rightarrow> bool" where
  "is_main SShutdown \<longleftrightarrow> True"
| "is_main (SAwaited b) \<longleftrightarrow> True"
| "is_main (SPoolBegin name) \<longleftrightarrow> True"
| "is_main (SPoolEnd name r) \<longleftrightarrow> True"
| "is_main SDrain \<longleftrightarrow> True"
| "is_main x \<longleftrightarrow> False"

fun is_dispatch :: "saction \<Rightarrow> bool" where
  "is_dispatch (SDispatch h) \<longleftrightarrow> True"
| "is_dispatch x \<longleftrightarrow> False"

lemma svc_path_steps: "svc_path E a \<sigma> \<tau> \<Longrightarrow> svc_steps E a (svc_start a) (map \<tau> [0..<n]) (\<sigma> n)"
  by (induction n) (auto simp: path_def intro: svc_steps.none svc_steps_snoc)

lemma svc_path_inv: "svc_path E (newApp c) \<sigma> \<tau> \<Longrightarrow> svc_inv (newApp c) (\<sigma> n)"
  using svc_inv_steps [OF svc_path_steps svc_inv_start] .

lemma svc_runs: "svc_steps E a s xs s' \<Longrightarrow> runs (svc_step E a) s xs s'"
  by (induction rule: svc_steps.induct) auto

lemma flags_stable:
  assumes "svc_step E a s x s'"
  shows "sv_ctx s \<Longrightarrow> sv_ctx s'" "sv_expired s \<Longrightarrow> sv_expired s'" "sv_main s \<noteq> MSelect \<Longrightarrow> sv_main s' \<noteq> MSelect"
    "returned s \<Longrightarrow> returned s'" "sv_cancelled s \<Longrightarrow> sv_cancelled s'" "length (d_world (sv_d s')) = length (d_world (sv_d s))"
  using assms svc_step_names [OF assms, THEN arg_cong, of length]
  by (induction rule: svc_step.induct)
    (auto simp: bg_end_def set_pool_def main_select_def main_awaited_def shutdown_end_def main_drain_def returned_def
      split: mainphase.splits list.split)

text \<open>How many steps the stop can still take: its own, the errors in \<open>errc\<close> and those the
  sources can still add.\<close>

definition pool_weight :: "pstate \<Rightarrow> nat" where
  "pool_weight st = (case st of PPending \<Rightarrow> 2 | PWaiting \<Rightarrow> 1 | PDone \<Rightarrow> 0)"

definition pools_weight :: "pstate gmap \<Rightarrow> nat" where
  "pools_weight ps = sum_list (map (pool_weight \<circ> snd) ps)"

definition stage :: "svc \<Rightarrow> nat" where
  "stage s = (case sv_main s of
     MSelect \<Rightarrow> 5 + 2 * length (d_world (sv_d s))
   | MSources errs \<Rightarrow> 4 + 2 * length (d_world (sv_d s))
   | MDispatcher errs \<Rightarrow> 3 + 2 * length (d_world (sv_d s))
   | MPools errs ps \<Rightarrow> 2 + pools_weight ps
   | MDrain errs \<Rightarrow> 1
   | MReturned errs \<Rightarrow> 0)"

definition stop_measure :: "svc \<Rightarrow> nat" where
  "stop_measure s = stage s + length (sv_errc s) + 2 * length (filter (\<lambda>g. \<not> snd g) (sv_bg s))"

lemma pools_weight_put:
  "map_of ps name = Some st \<Longrightarrow> pools_weight (gmap_put name st' ps) + pool_weight st = pools_weight ps + pool_weight st'"
  by (induction ps) (auto simp: pools_weight_def split: if_splits)

lemma pools_weight_start: "pools_weight (map (\<lambda>(name, p). (name, PPending)) w) = 2 * length w"
  by (induction w) (auto simp: pools_weight_def pool_weight_def)

lemma stop_measure_step:
  "svc_step E a s x s' \<Longrightarrow>
   stop_measure s' \<le> stop_measure s \<and> (is_main x \<longrightarrow> \<not> returned s \<longrightarrow> stop_measure s' < stop_measure s)"
proof (induction rule: svc_step.induct)
  case (bg_end i s r)
  then have "int (length (filter (\<lambda>g. \<not> snd g) ((sv_bg s)[i := (fst (sv_bg s ! i), True)]))) =
      int (length (filter (\<lambda>g. \<not> snd g) (sv_bg s))) - 1"
    by (simp add: length_filter_update)
  then show ?case
    by (auto simp: stop_measure_def stage_def bg_end_def split: option.split mainphase.split)
next
  case (dispatch s h hs)
  have "length (d_world (snd (Dispatch (pools_hint E) (a_routes a) h (sv_d s)))) = length (d_world (sv_d s))"
    using flags_stable(6) [OF svc_step.dispatch [OF dispatch]] by simp
  then show ?case by (simp add: stop_measure_def stage_def split: mainphase.split)
next
  case (pool s name p y p')
  have "length (gmap_put name p' (d_world (sv_d s))) = length (d_world (sv_d s))"
    using map_fst_gmap_put [OF pool(1), THEN arg_cong, of length] by simp
  then show ?case by (simp add: stop_measure_def stage_def set_pool_def split: mainphase.split)
next
  case (pool_begin s errs ps name p)
  then show ?case
    using pools_weight_put [of ps name PPending PWaiting]
    by (simp add: stop_measure_def stage_def set_pool_def pool_weight_def)
next
  case (pool_end s errs ps name p r)
  then show ?case
    using pools_weight_put [of ps name PWaiting PDone]
    by (simp add: stop_measure_def stage_def shutdown_end_def pool_weight_def)
qed (auto simp: stop_measure_def stage_def main_select_def main_awaited_def main_drain_def pools_weight_start
    returned_def neq_Nil_conv split: list.split mainphase.split)

lemma stop_enabled:
  assumes "svc_inv a s" "sv_main s \<noteq> MSelect" "sv_expired s" "\<not> returned s"
  shows "enabled (svc_step E a) is_main s"
proof (cases "sv_main s")
  case (MPools errs ps)
  then have sh: "shutting (errs = []) ps s" using assms(1) by (simp add: svc_inv_def main_ok_def)
  show ?thesis
  proof (cases "list_all (\<lambda>(name, st). st = PDone) ps")
    case True
    with svc_step.pools_done [OF MPools] show ?thesis
      unfolding enabled_def by (intro exI [of _ SDrain]) auto
  next
    case False
    then obtain n st where "(n, st) \<in> set ps" "st \<noteq> PDone" by (auto simp: list_all_iff)
    moreover have "gmap_ok ps" using sh assms(1) by (simp add: shutting_def svc_inv_def)
    ultimately have st: "map_of ps n = Some st" "st \<noteq> PDone" "n \<in> set (map fst ps)" by force+
    have "n \<in> set (map fst (d_world (sv_d s)))" using st(3) sh unfolding shutting_def by metis
    then obtain p where p: "pool_of s n = Some p" by (metis map_of_eq_None_iff not_None_eq set_map)
    have ends: "Shutdown_returns p (if sv_expired s then Some deadlineExceeded else None) (Some deadlineExceeded)"
      using assms(3) by (simp add: Shutdown_returns_def)
    show ?thesis
    proof (cases st)
      case PPending
      with svc_step.pool_begin [OF MPools _ p] st show ?thesis
        unfolding enabled_def by (intro exI [of _ "SPoolBegin n"]) auto
    next
      case PWaiting
      with svc_step.pool_end [OF MPools _ p ends] st show ?thesis
        unfolding enabled_def by (intro exI [of _ "SPoolEnd n (Some deadlineExceeded)"]) auto
    qed (use st in simp)
  qed
next
  case (MSources errs)
  with svc_step.sources [OF MSources, of False] assms(3) show ?thesis
    unfolding enabled_def by (intro exI [of _ "SAwaited False"]) auto
next
  case (MDispatcher errs)
  with svc_step.dispatcher [OF MDispatcher, of False] assms(3) show ?thesis
    unfolding enabled_def by (intro exI [of _ "SAwaited False"]) auto
next
  case (MDrain errs)
  with svc_step.drain [OF MDrain] show ?thesis
    unfolding enabled_def by (intro exI [of _ SDrain]) auto
qed (use assms in \<open>auto simp: returned_def\<close>)

lemma quiet_final:
  "\<not> enabled (svc_step E a) is_main quiet_end" "\<not> enabled (svc_step E a) ((=) SExpire) quiet_end"
  unfolding enabled_def using quiet_end_main by (auto elim!: svc_stepE simp: returned_def)

text \<open>Asked to stop, by the signal or by a failure, the main goroutine leaves its \<open>select\<close>; then
  the timer of the stop fires, unless \<open>Run\<close> has returned by then; then it returns.\<close>

definition to_stop :: "svc \<Rightarrow> bool" where
  "to_stop s \<longleftrightarrow> (sv_main s = MSelect \<longrightarrow> sv_ctx s \<or> sv_errc s \<noteq> [])"

lemma to_stop_step: "svc_step E a s x s' \<Longrightarrow> to_stop s \<Longrightarrow> to_stop s'"
  by (induction rule: svc_step.induct)
    (auto simp: to_stop_def bg_end_def set_pool_def main_select_def main_awaited_def shutdown_end_def main_drain_def
      split: list.split)

lemma leaves_select:
  assumes "svc_path E (newApp c) \<sigma> \<tau>" "fair (svc_step E (newApp c)) is_main \<sigma> \<tau>" "to_stop (\<sigma> n)"
  obtains k where "n \<le> k" "sv_main (\<sigma> k) \<noteq> MSelect"
proof (rule path_reaches [OF assms(1,2), where n = n and I = to_stop and goal = "\<lambda>s. sv_main s \<noteq> MSelect" and \<mu> = stop_measure])
  show "to_stop (\<sigma> m)" if "n \<le> m" for m using path_stable [OF assms(1), of to_stop] to_stop_step assms(3) that by blast
  show "enabled (svc_step E (newApp c)) is_main s" if "to_stop s" "\<not> sv_main s \<noteq> MSelect" for s
    using that by (auto simp: enabled_def to_stop_def intro!: exI [of _ SShutdown] svc_step.select_ctx svc_step.select_err)
  show "stop_measure s' \<le> stop_measure s \<and> (is_main x \<longrightarrow> stop_measure s' < stop_measure s)"
    if "svc_step E (newApp c) s x s'" "\<not> sv_main s \<noteq> MSelect" for s x s'
    using stop_measure_step [OF that(1)] that(2) by (auto simp: returned_def)
qed

lemma expires:
  assumes "svc_path E (newApp c) \<sigma> \<tau>" "fair (svc_step E (newApp c)) ((=) SExpire) \<sigma> \<tau>" "sv_main (\<sigma> k) \<noteq> MSelect"
  obtains l where "k \<le> l" "sv_expired (\<sigma> l) \<or> returned (\<sigma> l)"
proof (rule path_reaches [OF assms(1,2), where n = k and I = sv_cancelled and goal = "\<lambda>s. sv_expired s \<or> returned s"
      and \<mu> = "\<lambda>s. of_bool (\<not> sv_expired s)"])
  show "sv_cancelled (\<sigma> m)" if "k \<le> m" for m
    using svc_path_inv [OF assms(1), of m] that
      path_stable [OF assms(1), of "\<lambda>s. sv_main s \<noteq> MSelect"] flags_stable(3) assms(3)
    by (fastforce simp: svc_inv_def bg_ok_def)
  show "enabled (svc_step E (newApp c)) ((=) SExpire) s" if "sv_cancelled s" "\<not> (sv_expired s \<or> returned s)" for s
    using that by (auto simp: enabled_def intro: svc_step.expire)
qed (auto elim: svc_stepE)

lemma returns_expired:
  assumes "svc_path E (newApp c) \<sigma> \<tau>" "fair (svc_step E (newApp c)) is_main \<sigma> \<tau>"
    "sv_main (\<sigma> l) \<noteq> MSelect" "sv_expired (\<sigma> l)"
  obtains m where "l \<le> m" "returned (\<sigma> m)"
proof (rule path_reaches [OF assms(1,2), where n = l and goal = returned and \<mu> = stop_measure
      and I = "\<lambda>s. svc_inv (newApp c) s \<and> sv_main s \<noteq> MSelect \<and> sv_expired s"])
  show "svc_inv (newApp c) (\<sigma> m) \<and> sv_main (\<sigma> m) \<noteq> MSelect \<and> sv_expired (\<sigma> m)" if "l \<le> m" for m
    using svc_path_inv [OF assms(1), of m] that assms(3,4)
      path_stable [OF assms(1), of "\<lambda>s. sv_main s \<noteq> MSelect \<and> sv_expired s"] flags_stable(2,3) by blast
qed (use stop_enabled stop_measure_step in auto)

text \<open>The three stages together.\<close>

lemma asked_returns:
  assumes "svc_path E (newApp c) \<sigma> \<tau>" "fair (svc_step E (newApp c)) is_main \<sigma> \<tau>"
    and "fair (svc_step E (newApp c)) ((=) SExpire) \<sigma> \<tau>" "to_stop (\<sigma> n)"
  shows "\<exists>m. returned (\<sigma> m)"
proof -
  obtain k where k: "sv_main (\<sigma> k) \<noteq> MSelect" using leaves_select [OF assms(1,2,4)] by blast
  then obtain l where l: "k \<le> l" "sv_expired (\<sigma> l) \<or> returned (\<sigma> l)" using expires [OF assms(1,3)] by blast
  have "sv_main (\<sigma> l) \<noteq> MSelect"
    using path_stable [OF assms(1), of "\<lambda>s. sv_main s \<noteq> MSelect"] flags_stable(3) k l(1) by blast
  with returns_expired [OF assms(1,2)] l(2) show ?thesis by blast
qed

text \<open>C15: \<open>Run\<close> comes back.  In every behaviour in which the scheduler does not starve the
  main goroutine and the \<open>shutdown_timeout\<close> timer fires, once the process is asked to stop
  \<open>Run\<close> returns, whatever the sources, the dispatcher and the workers do.\<close>

theorem Run_returns:
  assumes "svc_path E (newApp c) \<sigma> \<tau>" "fair (svc_step E (newApp c)) is_main \<sigma> \<tau>"
    and "fair (svc_step E (newApp c)) ((=) SExpire) \<sigma> \<tau>" "sv_ctx (\<sigma> n)"
  shows "\<exists>m. returned (\<sigma> m)"
  using asked_returns [OF assms(1-3), of n] assms(4) by (simp add: to_stop_def)

lemma Run_returns_witness:
  "\<exists>\<sigma> \<tau>. svc_path (\<lambda>_. demo_env) (newApp quiet_config) \<sigma> \<tau> \<and> (\<exists>m. returned (\<sigma> m))"
proof -
  obtain \<sigma> \<tau> where p: "svc_path (\<lambda>_. demo_env) (newApp quiet_config) \<sigma> \<tau>" "\<forall>n\<ge>length quiet_stop. \<sigma> n = quiet_end"
    using path_of_run [OF svc_runs [OF quiet_run [unfolded svc_run_def]], OF svc_step.idle] by blast
  have "sv_ctx (\<sigma> (length quiet_stop))" using p(2) quiet_end_main(2) by simp
  from Run_returns [OF p(1) fair_final [OF p(2) quiet_final(1)] fair_final [OF p(2) quiet_final(2)] this] p(1)
  show ?thesis by blast
qed

text \<open>Whatever has been sent is a prefix of what has been dispatched by some later moment.\<close>

lemma sent_dispatched:
  assumes "svc_path E (newApp c) \<sigma> \<tau>" "fair (svc_step E (newApp c)) is_dispatch \<sigma> \<tau>" "\<And>m. \<not> sv_cancelled (\<sigma> m)"
  shows "\<exists>m\<ge>n. \<exists>rest. dispatches (map \<tau> [0..<m]) = sends (map \<tau> [0..<n]) @ rest"
proof -
  let ?a = "newApp c" and ?S = "sends (map \<tau> [0..<n])"
  let ?D = "\<lambda>m. dispatches (map \<tau> [0..<m])"
  have chan: "sends (map \<tau> [0..<m]) = ?D m @ sv_chan (\<sigma> m)" for m
    using channel_inv [OF svc_path_steps [OF assms(1)]] by blast
  have sent: "\<exists>more. sends (map \<tau> [0..<m]) = ?S @ more" if "n \<le> m" for m
    using sends_append [of "map \<tau> [0..<n]" "map \<tau> [n..<m]"] upt_add_eq_append [of 0 n "m - n"] that by auto
  have "\<exists>m\<ge>n. length ?S \<le> length (?D m)"
  proof (rule fair_descent [where en = "\<lambda>m. enabled (svc_step E ?a) is_dispatch (\<sigma> m)" and act = "\<lambda>m. is_dispatch (\<tau> m)"
        and \<mu> = "\<lambda>m. length ?S - length (?D m)"])
    show "\<forall>m\<ge>k. enabled (svc_step E ?a) is_dispatch (\<sigma> m) \<Longrightarrow> \<exists>m\<ge>k. is_dispatch (\<tau> m)" for k
      using fairD [OF assms(2)] by blast
    fix m assume m: "n \<le> m" "\<not> length ?S \<le> length (?D m)"
    obtain more where "?D m @ sv_chan (\<sigma> m) = ?S @ more" using sent [OF m(1)] chan [of m] by auto
    from arg_cong [OF this, of length] m(2) obtain h hs where h: "sv_chan (\<sigma> m) = h # hs"
      by (cases "sv_chan (\<sigma> m)") auto
    have "\<not> sv_dispatched (\<sigma> m)"
      using svc_path_inv [OF assms(1), of m] assms(3) [of m] by (auto simp: svc_inv_def bg_ok_def)
    with h show "enabled (svc_step E ?a) is_dispatch (\<sigma> m)"
      unfolding enabled_def by (intro exI [of _ "SDispatch h"]) (auto intro: svc_step.dispatch)
    show "length ?S - length (?D (Suc m)) \<le> length ?S - length (?D m) \<and>
        (is_dispatch (\<tau> m) \<longrightarrow> length ?S - length (?D (Suc m)) < length ?S - length (?D m))"
      using m(2) by (cases "\<tau> m") (auto simp: dispatches_append)
  qed
  then obtain m where m: "n \<le> m" "length ?S \<le> length (?D m)" by blast
  from sent [OF m(1)] chan [of m] obtain more where "?D m @ sv_chan (\<sigma> m) = ?S @ more" by auto
  from arg_cong [OF this, of "take (length ?S)"] m(2) have "take (length ?S) (?D m) = ?S" by simp
  with m(1) show ?thesis by (metis append_take_drop_id)
qed

text \<open>While the service runs no hint waits forever: if the scheduler does not starve the
  dispatcher, everything the sources have sent by any moment is dispatched at a later one,
  in the order it was sent.\<close>

theorem hints_delivered:
  assumes "svc_path E (newApp c) \<sigma> \<tau>" "fair (svc_step E (newApp c)) is_dispatch \<sigma> \<tau>" "\<And>m. \<not> sv_cancelled (\<sigma> m)"
  shows "\<exists>m\<ge>n. \<exists>rest. dispatches (map \<tau> [0..<m]) = sends (map \<tau> [0..<n]) @ rest"
  using sent_dispatched [OF assms] .

lemma hints_delivered_witness:
  "\<exists>\<sigma> \<tau> m. svc_path (\<lambda>_. demo_env) (newApp two_pools) \<sigma> \<tau> \<and> (\<exists>rest. dispatches (map \<tau> [0..<m]) = [bell] @ rest)"
proof -
  obtain \<sigma> \<tau> where p: "svc_path (\<lambda>_. demo_env) (newApp two_pools) \<sigma> \<tau>" "\<forall>n\<ge>2. \<sigma> n = rung (\<lambda>_. demo_env)"
      "map \<tau> [0..<2] = [SSend bell, SDispatch bell]"
    using path_of_run [OF svc_runs [OF bell_run [unfolded svc_run_def]], OF svc_step.idle, of "\<lambda>_. demo_env"]
    by (auto simp: numeral_2_eq_2)
  have "\<not> enabled (svc_step E a) is_dispatch (rung E')" for E a E'
    unfolding enabled_def by (auto elim!: svc_stepE simp: rung_facts)
  then have f: "fair (svc_step (\<lambda>_. demo_env) (newApp two_pools)) is_dispatch \<sigma> \<tau>" by (rule fair_final [OF p(2)])
  have "\<not> sv_cancelled (\<sigma> 2)" using p(2) by (simp add: rung_def svc_start_def Let_def)
  have "\<not> sv_cancelled (\<sigma> m)" for m
  proof
    assume "sv_cancelled (\<sigma> m)"
    then have "sv_cancelled (\<sigma> (max m 2))"
      using path_stable [OF p(1), of sv_cancelled] flags_stable(5) max.cobounded1 by blast
    with p(2) \<open>\<not> sv_cancelled (\<sigma> 2)\<close> show False by simp
  qed
  from hints_delivered [OF p(1) f this, of 2] p show ?thesis by (auto simp: p(3))
qed

end
