(* ===== verification/RunProcess.thy ===== *)
theory RunProcess
  imports Cmd ServiceLive
begin

text \<open>
  The process as a whole: \<open>doorbell-pm run\<close> from its arguments to its exit code, with the
  running service in between (\<open>cmd/doorbell-pm/main.go\<close> over \<open>internal/app\<close>).  The signal
  ends the context of \<open>Run\<close>; the errors \<open>Run\<close> returns decide the exit code.  Standard error also
  carries the log of the pools and sources; here only what \<open>Run\<close> and \<open>runApp\<close> log is spoken of.
\<close>

section \<open>The exit of a run\<close>

text \<open>The exit code of the process when the service returned \<open>errs\<close>.\<close>

definition process_exit :: "cli_env \<Rightarrow> string \<Rightarrow> app_error list \<Rightarrow> int" where
  "process_exit W conf errs = fst (main_run (command (W\<lparr>ce_app := \<lambda>_. errs\<rparr>) (VRun conf)))"

lemma process_exit_eq:
  assumes "conf \<noteq> []" "ce_load W conf = Inr doc" "Finalize doc = Inr c"
  shows "process_exit W conf errs = (if errs = [] then 0 else 1)"
proof -
  have "loadConfig (W\<lparr>ce_app := \<lambda>_. errs\<rparr>) ''run'' conf = Inr c" using assms by (simp add: loadConfig_def)
  then show ?thesis by (simp add: process_exit_def command_def main_run_def runApp_def Let_def)
qed

text \<open>Without an error \<open>Run\<close> has left its \<open>select\<close> only because of the signal, and has logged
  no error itself.\<close>

definition is_error_line :: "logline \<Rightarrow> bool" where
  "is_error_line line \<longleftrightarrow> fst line = Error"

definition asked :: "svc \<Rightarrow> bool" where
  "asked s \<longleftrightarrow> (sv_main s = MSelect \<longrightarrow> \<not> list_ex is_error_line (sv_log s)) \<and>
     (sv_main s \<noteq> MSelect \<and> errs_of (sv_main s) = [] \<longrightarrow> sv_ctx s \<and> \<not> list_ex is_error_line (sv_log s))"

lemma asked_step: "svc_step E a s x s' \<Longrightarrow> asked s \<Longrightarrow> asked s'"
  by (induction rule: svc_step.induct)
    (auto simp: asked_def errs_of_def is_error_line_def set_pool_def bg_end_def main_select_def main_awaited_def
      shutdown_end_def main_drain_def split: mainphase.splits list.splits)

lemma asked_run:
  assumes "svc_run E c xs s"
  shows "asked s"
proof -
  have "asked (svc_start (newApp c))" by (simp add: asked_def svc_start_def is_error_line_def)
  moreover have "svc_steps E a t xs s \<Longrightarrow> asked t \<Longrightarrow> asked s" for a t
    by (induction rule: svc_steps.induct) (auto dest: asked_step)
  ultimately show ?thesis using assms unfolding svc_run_def by blast
qed

text \<open>C14: exit code 0 means a clean stop.  If the process of a loaded document exits with 0, it
  was asked to stop by a signal, no source or listener ever failed, every one of them and
  the dispatcher has ended, no pool has a worker left, and \<open>App.Run\<close> itself logged no error.
  A pool may have logged failures of its workers, which do not change the exit code.\<close>

theorem exit_zero_is_clean:
  assumes "conf \<noteq> []" "ce_load W conf = Inr doc" "Finalize doc = Inr c"
    and "svc_run E c xs s" "sv_main s = MReturned errs" "process_exit W conf errs = 0"
  shows "sv_ctx s \<and> failures_of (newApp c) xs = [] \<and> list_all snd (sv_bg s) \<and> sv_dispatched s \<and>
    (\<forall>name p. pool_of s name = Some p \<longrightarrow> p_running p = 0) \<and> \<not> list_ex is_error_line (sv_log s)"
proof -
  have errs: "errs = []" using process_exit_eq [OF assms(1-3), of errs] assms(6) by (simp split: if_splits)
  note run = assms(4) assms(5) [unfolded errs]
  have "sv_ctx s \<and> \<not> list_ex is_error_line (sv_log s)"
    using asked_run [OF assms(4)] run(2) by (auto simp: asked_def errs_of_def)
  moreover have "failures_of (newApp c) xs = []" using return_failures [OF run, THEN conjunct2] by simp
  ultimately show ?thesis using nil_return_final [OF run svc_steps.none] by blast
qed

lemma returned_stable: "svc_step E a s x s' \<Longrightarrow> sv_main s = MReturned errs \<Longrightarrow> sv_main s' = MReturned errs"
  by (induction rule: svc_step.induct) (auto simp: bg_end_def set_pool_def)

text \<open>C16: a signal or a failure ends the process.  In every behaviour in which the scheduler does
  not starve the main goroutine and the timer of \<open>shutdown_timeout\<close> fires, once a signal has
  arrived or a source or listener has failed the process exits with 0 or 1: with 1 exactly
  if the stop had errors, and then they are logged; with 0 no pool has a worker and none
  ever will.\<close>

theorem signal_ends_process:
  assumes "conf \<noteq> []" "ce_load W conf = Inr doc" "Finalize doc = Inr c"
    and "svc_path E (newApp c) \<sigma> \<tau>" "fair (svc_step E (newApp c)) is_main \<sigma> \<tau>"
    and "fair (svc_step E (newApp c)) ((=) SExpire) \<sigma> \<tau>" "\<tau> n = SCtx \<or> (\<exists>i e. \<tau> n = SEnd i (Some e))"
  shows "\<exists>m errs. sv_main (\<sigma> m) = MReturned errs \<and> process_exit W conf errs = (if errs = [] then 0 else 1) \<and>
    (errs \<noteq> [] \<longrightarrow> LogLine (Error, ''doorbell stopped with error'',
       [(''err'', AErr (errors_Join (map app_error_text errs)))]) \<in> set (snd (runApp W conf c errs))) \<and>
    (process_exit W conf errs = 0 \<longrightarrow> (\<forall>k\<ge>m. \<forall>name p. pool_of (\<sigma> k) name = Some p \<longrightarrow> p_running p = 0))"
proof -
  have "to_stop (\<sigma> (Suc n))"
    using path_step [OF assms(4), of n] assms(7) by (auto elim!: svc_stepE simp: to_stop_def bg_end_def)
  then obtain m where "returned (\<sigma> m)" using asked_returns [OF assms(4-6)] by blast
  then obtain errs where m: "sv_main (\<sigma> m) = MReturned errs" by (auto simp: returned_def split: mainphase.splits)
  have run: "svc_run E c (map \<tau> [0..<k]) (\<sigma> k)" for k
    unfolding svc_run_def by (rule svc_path_steps [OF assms(4)])
  note exit = process_exit_eq [OF assms(1-3), of errs]
  have logged: "LogLine (Error, ''doorbell stopped with error'', [(''err'', AErr (errors_Join (map app_error_text errs)))])
      \<in> set (snd (runApp W conf c errs))" if "errs \<noteq> []"
  proof -
    have "lg \<le> Error" for lg by (cases lg) (simp_all add: less_eq_level_def)
    with that show ?thesis by (simp add: runApp_def lg_write_def Let_def)
  qed
  have idle: "p_running p = 0" if nil: "errs = []" and k: "m \<le> k" and p: "pool_of (\<sigma> k) name = Some p" for k name p
  proof -
    have r: "sv_main (\<sigma> k) = MReturned []"
      using path_stable [OF assms(4), of "\<lambda>s. sv_main s = MReturned []"] returned_stable m nil k by blast
    with nil_return_final [OF run r svc_steps.none] p show ?thesis by blast
  qed
  show ?thesis
    using m logged idle exit by (intro exI [of _ m] exI [of _ errs]) auto
qed

section \<open>A concrete run\<close>

lemma demo_load: "ce_load demo_cli f = Inr two_pools"
  by (simp add: demo_cli_def)

lemma exit_zero_is_clean_witness:
  "\<exists>xs s. svc_run (\<lambda>_. demo_env) two_pools xs s \<and> process_exit demo_cli ''doorbell.yaml'' [] = 0 \<and>
     sv_ctx s \<and> list_all snd (sv_bg s)"
proof -
  obtain s where s: "svc_run (\<lambda>_. demo_env) two_pools two_stop s" "sv_main s = MReturned []" using two_stop_run by blast
  have zero: "process_exit demo_cli ''doorbell.yaml'' [] = 0"
    using process_exit_eq [OF _ demo_load two_pools_finalized] by simp
  from exit_zero_is_clean [OF _ demo_load two_pools_finalized s zero] s(1) zero show ?thesis by blast
qed

lemma returned_final:
  assumes "sv_main s = MReturned errs"
  shows "\<not> enabled (svc_step E a) is_main s" "\<not> enabled (svc_step E a) ((=) SExpire) s"
  using assms unfolding enabled_def by (auto elim!: svc_stepE simp: returned_def)

lemma signal_ends_process_witness:
  "\<exists>\<sigma> \<tau> m errs. svc_path (\<lambda>_. demo_env) (newApp two_pools) \<sigma> \<tau> \<and> \<tau> 0 = SEnd 0 (Some ''boom'') \<and>
     sv_main (\<sigma> m) = MReturned errs \<and> process_exit demo_cli ''doorbell.yaml'' errs = (if errs = [] then 0 else 1)"
proof -
  obtain s where s: "svc_run (\<lambda>_. demo_env) two_pools two_fail s" "sv_main s = MReturned [SourceFailed ''http'' ''boom'']"
    using two_fail_run by blast
  obtain \<sigma> \<tau> where p: "svc_path (\<lambda>_. demo_env) (newApp two_pools) \<sigma> \<tau>" "\<forall>n\<ge>length two_fail. \<sigma> n = s"
      "map \<tau> [0..<length two_fail] = two_fail"
    using path_of_run [OF svc_runs [OF s(1) [unfolded svc_run_def]], OF svc_step.idle] by blast
  have t: "\<tau> 0 = SEnd 0 (Some ''boom'')" using p(3) [THEN arg_cong, of hd] by (simp add: two_fail_def two_end_def upt_conv_Cons)
  then have "\<tau> 0 = SCtx \<or> (\<exists>i e. \<tau> 0 = SEnd i (Some e))" by blast
  from signal_ends_process [OF _ demo_load two_pools_finalized p(1) fair_final [OF p(2) returned_final(1) [OF s(2)]]
      fair_final [OF p(2) returned_final(2) [OF s(2)]] this, of "''doorbell.yaml''"] p(1) t
  show ?thesis by blast
qed

end
