(* ===== verification/Requests.thy ===== *)
theory Requests
  imports ServiceLive "HOL-Library.Sublist"
begin

text \<open>
  The HTTP hint requests in flight, composed with the running service
  (\<open>httpapi/hint.go\<close> with \<open>app/app.go\<close>): each request is a goroutine that parses its body
  and then sends its hints one by one into the channel all sources share, so the sends of
  several requests, the redis source and the dispatcher interleave.
\<close>

section \<open>Requests in flight\<close>

text \<open>A request: its body, what the decoder makes of it (the entries in the order Go ranges
  over the map, which may differ from one request to the next), the hints it has still to
  send, those it has sent, and its answer once it has one.\<close>

record request =
  rq_body :: string
  rq_decoded :: "string + (string \<times> gint) list"
  rq_todo :: "Hint list"
  rq_sent :: "Hint list"
  rq_reply :: "(int \<times> hint_body) option"

record web =
  w_svc :: svc
  w_reqs :: "request list"

datatype waction = WArrive string "string + (string \<times> gint) list" | WSend nat Hint | WCut nat | WAnswer nat | WSvc saction

definition request_parse :: "Server \<Rightarrow> string \<Rightarrow> string + (string \<times> gint) list \<Rightarrow> requestError + Hint list" where
  "request_parse srv body raw = parseHints (\<lambda>_. raw) srv body"

text \<open>A request is parsed before anything is sent: it is rejected at once, or its hints are
  the ones to send.\<close>

definition new_request :: "Server \<Rightarrow> string \<Rightarrow> string + (string \<times> gint) list \<Rightarrow> request" where
  "new_request srv body raw =
     (case request_parse srv body raw of
        Inl e \<Rightarrow> \<lparr>rq_body = body, rq_decoded = raw, rq_todo = [], rq_sent = [], rq_reply = Some (re_status e, Rejected e)\<rparr>
      | Inr hs \<Rightarrow> \<lparr>rq_body = body, rq_decoded = raw, rq_todo = hs, rq_sent = [], rq_reply = None\<rparr>)"

definition req_sent :: "request \<Rightarrow> request" where
  "req_sent r = r\<lparr>rq_todo := tl (rq_todo r), rq_sent := rq_sent r @ [hd (rq_todo r)]\<rparr>"

definition req_reply :: "int \<times> hint_body \<Rightarrow> request \<Rightarrow> request" where
  "req_reply a r = r\<lparr>rq_reply := Some a\<rparr>"

abbreviation set_req :: "nat \<Rightarrow> (request \<Rightarrow> request) \<Rightarrow> web \<Rightarrow> web" where
  "set_req i f w \<equiv> w\<lparr>w_reqs := (w_reqs w)[i := f (w_reqs w ! i)]\<rparr>"

definition waiting :: "nat \<Rightarrow> web \<Rightarrow> bool" where
  "waiting i w \<longleftrightarrow> i < length (w_reqs w) \<and> rq_reply (w_reqs w ! i) = None"

text \<open>The other steps are those of the service, except that no one else sends in the name
  of the HTTP source.  A request's context may end whenever a send is still to do.\<close>

definition by_http :: "saction \<Rightarrow> bool" where
  "by_http x \<longleftrightarrow> (case x of SSend h \<Rightarrow> Hint_Source h = SourceHTTP | _ \<Rightarrow> False)"

inductive web_step :: "(string \<Rightarrow> env) \<Rightarrow> App \<Rightarrow> Server \<Rightarrow> web \<Rightarrow> waction \<Rightarrow> web \<Rightarrow> bool" for E a srv where
  arrive: "web_step E a srv w (WArrive body raw) (w\<lparr>w_reqs := w_reqs w @ [new_request srv body raw]\<rparr>)"
| req_send: "waiting i w \<Longrightarrow> rq_todo (w_reqs w ! i) = h # hs \<Longrightarrow> svc_step E a (w_svc w) (SSend h) s' \<Longrightarrow>
    web_step E a srv w (WSend i h) ((set_req i req_sent w)\<lparr>w_svc := s'\<rparr>)"
| cut: "waiting i w \<Longrightarrow> rq_todo (w_reqs w ! i) \<noteq> [] \<Longrightarrow>
    web_step E a srv w (WCut i) (set_req i (req_reply (503, ShuttingDown)) w)"
| answer: "waiting i w \<Longrightarrow> rq_todo (w_reqs w ! i) = [] \<Longrightarrow>
    web_step E a srv w (WAnswer i) (set_req i (req_reply (202, Accepted)) w)"
| svc: "svc_step E a (w_svc w) x s' \<Longrightarrow> \<not> by_http x \<Longrightarrow> web_step E a srv w (WSvc x) (w\<lparr>w_svc := s'\<rparr>)"

inductive_cases web_stepE: "web_step E a srv w x w'"

definition web_start :: "App \<Rightarrow> web" where
  "web_start a = \<lparr>w_svc = svc_start a, w_reqs = []\<rparr>"

abbreviation web_run :: "(string \<Rightarrow> env) \<Rightarrow> App \<Rightarrow> Server \<Rightarrow> waction list \<Rightarrow> web \<Rightarrow> bool" where
  "web_run E a srv xs w \<equiv> runs (web_step E a srv) (web_start a) xs w"

abbreviation web_path :: "(string \<Rightarrow> env) \<Rightarrow> App \<Rightarrow> Server \<Rightarrow> (nat \<Rightarrow> web) \<Rightarrow> (nat \<Rightarrow> waction) \<Rightarrow> bool" where
  "web_path E a srv \<equiv> path (web_step E a srv) (web_start a)"

text \<open>What a step is for the service.\<close>

fun svc_act :: "waction \<Rightarrow> saction" where
  "svc_act (WSend i h) = SSend h"
| "svc_act (WSvc x) = x"
| "svc_act x = SIdle"

lemma web_svc: "web_step E a srv w x w' \<Longrightarrow> svc_step E a (w_svc w) (svc_act x) (w_svc w')"
  by (induction rule: web_step.induct) (auto intro: svc_step.idle)

section \<open>What has happened to each request\<close>

text \<open>A request that is answered did what the handler does, with its context ending at some
  send or not at all; an open one has its hints sent or still to send.\<close>

definition request_ok :: "Server \<Rightarrow> request \<Rightarrow> bool" where
  "request_ok srv r \<longleftrightarrow>
     (case rq_reply r of
        None \<Rightarrow> request_parse srv (rq_body r) (rq_decoded r) = Inr (rq_sent r @ rq_todo r)
      | Some a \<Rightarrow> \<exists>ends. hintHandler (\<lambda>_. rq_decoded r) srv ends (rq_body r) = (a, rq_sent r))"

definition http_hints :: "Hint list \<Rightarrow> Hint list" where
  "http_hints = filter (\<lambda>h. Hint_Source h = SourceHTTP)"

text \<open>The hints of the HTTP source on the channel are those the requests have sent, each
  request's in its order.\<close>

definition web_ok :: "Server \<Rightarrow> saction list \<Rightarrow> web \<Rightarrow> bool" where
  "web_ok srv xs w \<longleftrightarrow> list_all (request_ok srv) (w_reqs w) \<and>
     mset (http_hints (sends xs)) = (\<Sum>r\<leftarrow>w_reqs w. mset (rq_sent r)) \<and>
     list_all (\<lambda>r. subseq (rq_sent r) (sends xs)) (w_reqs w)"

lemma parsed_source:
  assumes "request_parse srv body raw = Inr hs"
  shows "list_all (\<lambda>h. Hint_Source h = SourceHTTP) hs"
proof -
  obtain es where es: "parse_entries srv es = Inr hs"
    using assms by (auto simp: request_parse_def parseHints_def split: sum.splits if_splits)
  then have "list_all (good_entry srv) es" using parse_entries_eq(2) [of srv es] by auto
  with es show ?thesis by (auto simp: parse_entries_eq(1) entry_hint_def list_all_iff)
qed

lemma request_ok_new: "request_ok srv (new_request srv body raw)" "rq_sent (new_request srv body raw) = []"
  by (auto simp: request_ok_def new_request_def request_parse_def hintHandler_def split: sum.split)

lemma request_ok_ops:
  assumes "request_ok srv r" "rq_reply r = None"
  shows "rq_todo r \<noteq> [] \<Longrightarrow> request_ok srv (req_sent r)"
    "rq_todo r \<noteq> [] \<Longrightarrow> request_ok srv (req_reply (503, ShuttingDown) r)"
    "rq_todo r = [] \<Longrightarrow> request_ok srv (req_reply (202, Accepted) r)"
proof -
  have p: "parseHints (\<lambda>_. rq_decoded r) srv (rq_body r) = Inr (rq_sent r @ rq_todo r)"
    using assms by (simp add: request_ok_def request_parse_def)
  show "rq_todo r \<noteq> [] \<Longrightarrow> request_ok srv (req_sent r)"
    using assms by (simp add: request_ok_def req_sent_def)
  show "rq_todo r \<noteq> [] \<Longrightarrow> request_ok srv (req_reply (503, ShuttingDown) r)"
    using p by (auto simp: request_ok_def req_reply_def hintHandler_def intro!: exI [of _ "Some (length (rq_sent r))"])
  show "rq_todo r = [] \<Longrightarrow> request_ok srv (req_reply (202, Accepted) r)"
    using p by (auto simp: request_ok_def req_reply_def hintHandler_def intro!: exI [of _ None])
qed

lemma sum_mset_update:
  "i < length xs \<Longrightarrow> (\<Sum>x\<leftarrow>xs[i := y]. mset (f x)) + mset (f (xs ! i)) = (\<Sum>x\<leftarrow>xs. mset (f x)) + mset (f y)"
  by (induction xs arbitrary: i) (auto simp: ac_simps split: nat.split)

lemma list_all_update: "list_all P xs \<Longrightarrow> P y \<Longrightarrow> list_all P (xs[i := y])"
  by (auto simp: list_all_iff dest: set_update_subset_insert [THEN subsetD])

lemma subseq_snoc: "subseq xs ys \<Longrightarrow> subseq xs (ys @ [y])" "subseq xs ys \<Longrightarrow> subseq (xs @ [y]) (ys @ [y])"
  by (auto intro: subseq_append_iff [THEN iffD2])

lemma web_ok_reply:
  assumes "web_ok srv xs w" "waiting i w" "request_ok srv (req_reply b (w_reqs w ! i))" "sends ys = sends xs"
  shows "web_ok srv ys (set_req i (req_reply b) w)"
proof -
  have i: "i < length (w_reqs w)" using assms(2) by (simp add: waiting_def)
  then have "subseq (rq_sent (w_reqs w ! i)) (sends xs)" using assms(1) by (auto simp: web_ok_def list_all_length)
  moreover have "(\<Sum>r\<leftarrow>(w_reqs w)[i := req_reply b (w_reqs w ! i)]. mset (rq_sent r)) = (\<Sum>r\<leftarrow>w_reqs w. mset (rq_sent r))"
    using sum_mset_update [OF i, of rq_sent "req_reply b (w_reqs w ! i)"] by (simp add: req_reply_def)
  ultimately show ?thesis
    using assms(1,3,4) by (simp add: web_ok_def list_all_update) (simp add: list_all_update req_reply_def)
qed

lemma web_ok_step: "web_step E a srv w x w' \<Longrightarrow> web_ok srv xs w \<Longrightarrow> web_ok srv (xs @ [svc_act x]) w'"
proof (induction rule: web_step.induct)
  case (arrive w body raw)
  then show ?case by (simp add: web_ok_def sends_append request_ok_new)
next
  case (req_send i w h hs s')
  let ?r = "w_reqs w ! i" and ?r' = "req_sent (w_reqs w ! i)"
  have i: "i < length (w_reqs w)" "rq_reply ?r = None" using req_send(1) by (auto simp: waiting_def)
  have r: "request_ok srv ?r" "subseq (rq_sent ?r) (sends xs)"
    using req_send(4) i(1) by (auto simp: web_ok_def list_all_length)
  have "Hint_Source h = SourceHTTP"
    using r(1) i(2) req_send(2) parsed_source by (fastforce simp: request_ok_def)
  moreover have "rq_sent ?r' = rq_sent ?r @ [h]" using req_send(2) by (simp add: req_sent_def)
  moreover have "(\<Sum>r\<leftarrow>(w_reqs w)[i := ?r']. mset (rq_sent r)) = (\<Sum>r\<leftarrow>w_reqs w. mset (rq_sent r)) + {#h#}"
    using sum_mset_update [OF i(1), of rq_sent ?r'] calculation(2) by simp
  moreover have "request_ok srv ?r'" using request_ok_ops(1) [OF r(1) i(2)] req_send(2) by simp
  moreover have "list_all (\<lambda>r. subseq (rq_sent r) (sends xs @ [h])) (w_reqs w)"
    using req_send(4) by (auto simp: web_ok_def list_all_iff subseq_snoc)
  ultimately show ?case
    using req_send(4) r(2) by (simp add: web_ok_def sends_append http_hints_def list_all_update subseq_snoc)
next
  case (cut i w)
  then have "waiting i w" "request_ok srv (w_reqs w ! i)" by (auto simp: waiting_def web_ok_def list_all_length)
  with cut web_ok_reply request_ok_ops(2) [of srv "w_reqs w ! i"] show ?case by (simp add: sends_append waiting_def)
next
  case (answer i w)
  then have "waiting i w" "request_ok srv (w_reqs w ! i)" by (auto simp: waiting_def web_ok_def list_all_length)
  with answer web_ok_reply request_ok_ops(3) [of srv "w_reqs w ! i"] show ?case by (simp add: sends_append waiting_def)
next
  case (svc w x s')
  have "http_hints (sends (xs @ [x])) = http_hints (sends xs)"
    using svc(2) by (cases x) (auto simp: sends_append http_hints_def by_http_def)
  with svc(3) show ?case by (auto simp: web_ok_def list_all_iff sends_append intro: subseq_append_iff [THEN iffD2])
qed

lemma web_run_inv: "web_run E a srv ws w \<Longrightarrow> svc_steps E a (svc_start a) (map svc_act ws) (w_svc w) \<and> web_ok srv (map svc_act ws) w"
proof -
  have "web_ok srv (ys @ map svc_act ws) w'" if "runs (web_step E a srv) w ws w'" "web_ok srv ys w" for ys w w' ws
    using that by (induction ws arbitrary: ys w) (fastforce dest: web_ok_step)+
  moreover have "svc_steps E a (w_svc w) (map svc_act ws) (w_svc w')" if "runs (web_step E a srv) w ws w'" for w w' ws
    using that by (induction ws arbitrary: w) (auto intro: svc_steps.intros dest: web_svc)
  moreover have "web_ok srv [] (web_start a)" by (simp add: web_ok_def web_start_def http_hints_def)
  ultimately show "web_run E a srv ws w \<Longrightarrow> ?thesis" by (fastforce simp: web_start_def)
qed

text \<open>C9: the requests take part in a run of the service without disturbing it.  In every
  interleaving of any number of requests with the rest of the service, the service does a
  run of its own; each request that has been answered did what the handler does, rejected
  before it sent anything, accepted after it sent everything, or cut off in between; and the
  hints of the HTTP source on the channel are exactly those the requests have sent, each
  request's in its order.\<close>

theorem requests_refine_handler:
  assumes "web_run E (newApp c) srv ws w"
  shows "svc_run E c (map svc_act ws) (w_svc w) \<and>
    list_all (\<lambda>r. case rq_reply r of
        None \<Rightarrow> (\<exists>todo. parseHints (\<lambda>_. rq_decoded r) srv (rq_body r) = Inr (rq_sent r @ todo))
      | Some a \<Rightarrow> (\<exists>ends. hintHandler (\<lambda>_. rq_decoded r) srv ends (rq_body r) = (a, rq_sent r))) (w_reqs w) \<and>
    mset (http_hints (sends (map svc_act ws))) = (\<Sum>r\<leftarrow>w_reqs w. mset (rq_sent r)) \<and>
    list_all (\<lambda>r. subseq (rq_sent r) (sends (map svc_act ws))) (w_reqs w)"
  using web_run_inv [OF assms]
  by (auto simp: svc_run_def web_ok_def request_ok_def request_parse_def list_all_iff split: option.splits)

section \<open>From a request to a pool\<close>

definition web_dispatch :: "waction \<Rightarrow> bool" where
  "web_dispatch x \<longleftrightarrow> is_dispatch (svc_act x)"

text \<open>A behaviour of the requests and the service is one of the service.\<close>

lemma web_path_svc:
  assumes "web_path E a srv \<sigma> \<tau>"
  shows "svc_path E a (w_svc \<circ> \<sigma>) (svc_act \<circ> \<tau>)"
    "fair (web_step E a srv) web_dispatch \<sigma> \<tau> \<Longrightarrow> fair (svc_step E a) is_dispatch (w_svc \<circ> \<sigma>) (svc_act \<circ> \<tau>)"
proof -
  show "svc_path E a (w_svc \<circ> \<sigma>) (svc_act \<circ> \<tau>)"
    using assms web_svc by (fastforce simp: path_def web_start_def)
  have en: "enabled (web_step E a srv) web_dispatch w" if "enabled (svc_step E a) is_dispatch (w_svc w)" for w
  proof -
    from that obtain x s' where x: "is_dispatch x" "svc_step E a (w_svc w) x s'" by (auto simp: enabled_def)
    then have "\<not> by_http x" by (cases x) (auto simp: by_http_def)
    from web_step.svc [OF x(2) this, of srv] x(1) show ?thesis by (force simp: enabled_def web_dispatch_def)
  qed
  show "fair (web_step E a srv) web_dispatch \<sigma> \<tau> \<Longrightarrow> fair (svc_step E a) is_dispatch (w_svc \<circ> \<sigma>) (svc_act \<circ> \<tau>)"
    by (erule fair_part [where f = w_svc]) (use en in \<open>auto simp: web_dispatch_def\<close>)
qed

text \<open>An accepted request, its entries and where they lead.\<close>

lemma accepted_entries:
  assumes "request_ok srv r" "rq_reply r = Some (202, Accepted)"
  obtains raw where "rq_decoded r = Inr raw" "list_all (good_entry srv) raw" "rq_sent r = map (entry_hint srv) raw"
proof -
  have "parseHints (\<lambda>_. rq_decoded r) srv (rq_body r) = Inr (rq_sent r)"
  proof -
    obtain ends where "hintHandler (\<lambda>_. rq_decoded r) srv ends (rq_body r) = ((202, Accepted), rq_sent r)"
      using assms by (auto simp: request_ok_def)
    then show ?thesis
      by (cases "parseHints (\<lambda>_. rq_decoded r) srv (rq_body r)"; cases ends)
        (auto simp: hintHandler_def split: if_splits)
  qed
  then obtain raw where raw: "rq_decoded r = Inr raw" "parse_entries srv raw = Inr (rq_sent r)"
    by (auto simp: parseHints_def split: sum.splits if_splits)
  moreover from this have "list_all (good_entry srv) raw" using parse_entries_eq(2) [of srv raw] by auto
  ultimately show thesis using that by (auto simp: parse_entries_eq(1))
qed

text \<open>The counts a body has for one pool, as hint calls.\<close>

definition counts_for :: "Server \<Rightarrow> PoolConfig \<Rightarrow> (string \<times> gint) list \<Rightarrow> (string \<times> gint) list" where
  "counts_for srv p raw = map (\<lambda>(key, n). (SourceHTTP, n)) (filter (\<lambda>(key, n). key = srv_prefix srv @ pc_Channel p) raw)"

lemma entry_routed:
  assumes "Finalize c0 = Inr c" "gmap_ok (cfg_Pools c)" "a_http (newApp c) = Some srv"
    and "good_entry srv (srv_prefix srv @ pc_Channel p, n)" "p \<in> set (ResolvedPools c)"
  shows "routed (newApp c) (entry_hint srv (srv_prefix srv @ pc_Channel p, n)) = Some (pc_Name p)"
proof -
  have "pc_Channel p \<in> fst ` set (srv_channels srv)" using assms(4) by (simp add: good_entry_def)
  from known_channel_pool [OF assms(1-3) this] obtain q where q:
    "\<forall>r \<in> set (ResolvedPools c). pc_Channel r = pc_Channel p \<longrightarrow> r = q"
    "map_of (a_routes (newApp c)) (pc_Channel p) = Some \<lparr>rt_pool = pc_Name q, rt_target = Some (pc_Name q)\<rparr>" by blast
  moreover from q(1) assms(5) have "p = q" by blast
  ultimately show ?thesis by (simp add: routed_def entry_hint_def)
qed

lemma entry_owner:
  assumes "Finalize c0 = Inr c" "gmap_ok (cfg_Pools c)" "a_http (newApp c) = Some srv" "good_entry srv (key, k)"
  shows "0 \<le> k \<and> (\<exists>!p. p \<in> set (ResolvedPools c) \<and> key = srv_prefix srv @ pc_Channel p)"
proof -
  obtain ch where ch: "key = srv_prefix srv @ ch" "ch \<in> fst ` set (srv_channels srv)" and k: "0 \<le> k"
    using assms(4) that by (force simp: good_entry_def has_prefix_iff)
  obtain p where p: "p \<in> set (ResolvedPools c)" "pc_Channel p = ch" "\<forall>q \<in> set (ResolvedPools c). pc_Channel q = ch \<longrightarrow> q = p"
    using known_channel_pool [OF assms(1-3) ch(2)] by blast
  have "\<exists>!p. p \<in> set (ResolvedPools c) \<and> key = srv_prefix srv @ pc_Channel p"
  proof (rule ex1I [of _ p])
    show "p \<in> set (ResolvedPools c) \<and> key = srv_prefix srv @ pc_Channel p" using p(1,2) ch(1) by blast
    fix q assume "q \<in> set (ResolvedPools c) \<and> key = srv_prefix srv @ pc_Channel q"
    then have "q \<in> set (ResolvedPools c)" "pc_Channel q = ch" using ch(1) same_append_eq by metis+
    with p(3) show "q = p" by blast
  qed
  with k show ?thesis ..
qed

lemma counts_for_hints:
  assumes "Finalize c0 = Inr c" "gmap_ok (cfg_Pools c)" "a_http (newApp c) = Some srv" "p \<in> set (ResolvedPools c)"
  shows "list_all (good_entry srv) raw \<Longrightarrow>
    mset (counts_for srv p raw) \<subseteq># mset (hints_for (newApp c) (pc_Name p) (map (entry_hint srv) raw))"
proof (induction raw)
  case (Cons e raw)
  then have sub: "mset (counts_for srv p raw) \<subseteq># mset (hints_for (newApp c) (pc_Name p) (map (entry_hint srv) raw))" by simp
  obtain key n where e: "e = (key, n)" by force
  show ?case
  proof (cases "key = srv_prefix srv @ pc_Channel p")
    case True
    with Cons.prems e entry_routed [OF assms(1-3) _ assms(4)] sub show ?thesis
      by (auto simp: counts_for_def hints_for_def) (simp add: entry_hint_def)
  next
    case False
    with sub e show ?thesis
      by (auto simp: counts_for_def hints_for_def intro: subset_mset.order_trans)
  qed
qed (simp add: counts_for_def)

lemma subset_sum_list: "x \<in> set xs \<Longrightarrow> f x \<subseteq># (\<Sum>x\<leftarrow>xs. f x)"
  by (induction xs) (auto intro: subset_mset.order_trans)

lemma hints_for_mono: "mset hs \<subseteq># mset hs' \<Longrightarrow> mset (hints_for a name hs) \<subseteq># mset (hints_for a name hs')"
  by (simp add: hints_for_def image_mset_subseteq_mono multiset_filter_mono)

text \<open>C8: an accepted request is served, if the service is never asked to stop.  With a finalized
  config, in every behaviour in which the context is never cancelled and the dispatcher is
  not starved, for every request that was answered 202 there is a moment by which each entry
  of its body has become a hint call, with its count, on the pool that owns its channel; and
  each entry's channel has exactly one owner.  Hints still buffered when the service is
  stopped are lost.\<close>

theorem accepted_request_served:
  assumes "Finalize c0 = Inr c" "gmap_ok (cfg_Pools c)" "a_http (newApp c) = Some srv"
    and "web_path E (newApp c) srv \<sigma> \<tau>" "fair (web_step E (newApp c) srv) web_dispatch \<sigma> \<tau>"
    and "\<And>m. \<not> sv_cancelled (w_svc (\<sigma> m))"
    and "r \<in> set (w_reqs (\<sigma> n))" "rq_reply r = Some (202, Accepted)"
  shows "\<exists>raw. rq_decoded r = Inr raw \<and>
    (\<forall>(key, k) \<in> set raw. 0 \<le> k \<and> (\<exists>!p. p \<in> set (ResolvedPools c) \<and> key = srv_prefix srv @ pc_Channel p)) \<and>
    (\<exists>m\<ge>n. \<forall>p \<in> set (ResolvedPools c).
       mset (counts_for srv p raw) \<subseteq># mset (routed_hints (pool_trace (newApp c) (pc_Name p) (map (svc_act \<circ> \<tau>) [0..<m]))))"
proof -
  let ?a = "newApp c" and ?xs = "\<lambda>m. map (svc_act \<circ> \<tau>) [0..<m]"
  note svc = web_path_svc [OF assms(4)]
  have ok: "web_ok srv (?xs n) (\<sigma> n)" using web_run_inv [OF path_runs [OF assms(4), of n]] by simp
  then have "request_ok srv r" using assms(7) by (simp add: web_ok_def list_all_iff)
  then obtain raw where raw: "rq_decoded r = Inr raw" "list_all (good_entry srv) raw" "rq_sent r = map (entry_hint srv) raw"
    using assms(8) by (rule accepted_entries)
  have owner: "\<forall>(key, k) \<in> set raw. 0 \<le> k \<and> (\<exists>!p. p \<in> set (ResolvedPools c) \<and> key = srv_prefix srv @ pc_Channel p)"
    using raw(2) entry_owner [OF assms(1-3)] by (fast dest: list_all_iff [THEN iffD1])
  obtain m where m: "n \<le> m" "mset (sends (?xs n)) \<subseteq># mset (dispatches (?xs m))"
    using sent_dispatched [OF svc(1) svc(2) [OF assms(5)], of n] assms(6) by fastforce
  have "mset (rq_sent r) \<subseteq># (\<Sum>r\<leftarrow>w_reqs (\<sigma> n). mset (rq_sent r))" using assms(7) by (rule subset_sum_list)
  also have "\<dots> = mset (http_hints (sends (?xs n)))" using ok by (simp add: web_ok_def)
  also have "\<dots> \<subseteq># mset (sends (?xs n))" by (simp add: http_hints_def)
  also note m(2)
  finally have sub: "mset (rq_sent r) \<subseteq># mset (dispatches (?xs m))" .
  have "mset (counts_for srv p raw) \<subseteq># mset (routed_hints (pool_trace ?a (pc_Name p) (?xs m)))"
    if p: "p \<in> set (ResolvedPools c)" for p
    unfolding routed_hints_trace [OF svc_path_steps [OF svc(1)]]
    using counts_for_hints [OF assms(1-3) p raw(2)] hints_for_mono [OF sub [unfolded raw(3)]]
    by (rule subset_mset.order_trans)
  with raw(1) owner m(1) show ?thesis by blast
qed

section \<open>A concrete behaviour\<close>

text \<open>One request with a good entry for the enabled pool: it arrives, sends, is answered, and
  the dispatcher takes its hint.\<close>

definition one_request :: "waction list" where
  "one_request = [WArrive ''ok'' (Inr [(''jobs:a'', 2)]), WSend 0 bell, WAnswer 0, WSvc (SDispatch bell)]"

definition one_served :: request where
  "one_served = \<lparr>rq_body = ''ok'', rq_decoded = Inr [(''jobs:a'', 2)], rq_todo = [], rq_sent = [bell],
     rq_reply = Some (202, Accepted)\<rparr>"

abbreviation one_server :: Server where
  "one_server \<equiv> httpapi_New (cfg_HTTP two_pools) ''jobs:'' [''a''] True"

lemma one_arrives: "new_request one_server ''ok'' (Inr [(''jobs:a'', 2)]) =
  \<lparr>rq_body = ''ok'', rq_decoded = Inr [(''jobs:a'', 2)], rq_todo = [bell], rq_sent = [], rq_reply = None\<rparr>"
proof -
  have "parse_entries one_server [(''jobs:a'', 2)] = Inr [bell]"
    by (simp add: parseHint_eq good_entry_def httpapi_New_def has_prefix_def entry_hint_def bell_def)
  then show ?thesis by (simp add: new_request_def request_parse_def parseHints_def)
qed

lemma web_idle: "web_step E a srv w (WSvc SIdle) w"
proof -
  have "\<not> by_http SIdle" by (simp add: by_http_def)
  with web_step.svc [where w = w and x = SIdle and s' = "w_svc w"] show ?thesis by (auto intro: svc_step.idle)
qed

lemma one_request_run:
  "web_run E (newApp two_pools) one_server one_request \<lparr>w_svc = rung E, w_reqs = [one_served]\<rparr>"
proof -
  let ?a = "newApp two_pools"
  have "svc_steps E ?a (svc_start ?a) [SSend bell, SDispatch bell] (rung E)"
    using bell_run [of E] by (simp add: svc_run_def)
  then obtain s where s: "svc_step E ?a (svc_start ?a) (SSend bell) s" "svc_step E ?a s (SDispatch bell) (rung E)"
    by (auto elim!: svc_steps.cases [of _ _ _ "_ # _"] svc_steps.cases [of _ _ _ "[]"])
  note d = one_arrives waiting_def web_start_def req_sent_def req_reply_def
  have "web_step E ?a one_server (web_start ?a) (WArrive ''ok'' (Inr [(''jobs:a'', 2)]))
      \<lparr>w_svc = svc_start ?a, w_reqs = [new_request one_server ''ok'' (Inr [(''jobs:a'', 2)])]\<rparr>"
    using web_step.arrive [of E ?a one_server "web_start ?a"] by (simp add: web_start_def)
  moreover have "web_step E ?a one_server \<lparr>w_svc = svc_start ?a, w_reqs = [new_request one_server ''ok'' (Inr [(''jobs:a'', 2)])]\<rparr>
      (WSend 0 bell) \<lparr>w_svc = s, w_reqs = [one_served\<lparr>rq_reply := None\<rparr>]\<rparr>"
    using web_step.req_send [of 0 "\<lparr>w_svc = svc_start ?a, w_reqs = [new_request one_server ''ok'' (Inr [(''jobs:a'', 2)])]\<rparr>"
      bell "[]" E ?a s one_server] s(1) by (simp add: d one_served_def)
  moreover have "web_step E ?a one_server \<lparr>w_svc = s, w_reqs = [one_served\<lparr>rq_reply := None\<rparr>]\<rparr> (WAnswer 0)
      \<lparr>w_svc = s, w_reqs = [one_served]\<rparr>"
    using web_step.answer [of 0 "\<lparr>w_svc = s, w_reqs = [one_served\<lparr>rq_reply := None\<rparr>]\<rparr>" E ?a one_server]
    by (simp add: d one_served_def)
  moreover have "web_step E ?a one_server \<lparr>w_svc = s, w_reqs = [one_served]\<rparr> (WSvc (SDispatch bell))
      \<lparr>w_svc = rung E, w_reqs = [one_served]\<rparr>"
    using web_step.svc [of E ?a "\<lparr>w_svc = s, w_reqs = [one_served]\<rparr>" "SDispatch bell" "rung E" one_server] s(2)
    by (simp add: by_http_def)
  ultimately show ?thesis unfolding one_request_def by auto
qed

lemma requests_refine_handler_witness:
  "\<exists>ws w. web_run (\<lambda>_. demo_env) (newApp two_pools) one_server ws w \<and> mset (http_hints (sends (map svc_act ws))) = {#bell#}"
  using one_request_run [of "\<lambda>_. demo_env"] requests_refine_handler [OF one_request_run, of "\<lambda>_. demo_env"]
  by (intro exI [of _ one_request] exI [of _ "\<lparr>w_svc = rung (\<lambda>_. demo_env), w_reqs = [one_served]\<rparr>"]) (simp add: one_served_def)

lemma accepted_request_served_witness:
  "\<exists>\<sigma> \<tau> m. web_path (\<lambda>_. demo_env) (newApp two_pools) one_server \<sigma> \<tau> \<and>
     {#(SourceHTTP, 2)#} \<subseteq># mset (routed_hints (pool_trace (newApp two_pools) ''a'' (map (svc_act \<circ> \<tau>) [0..<m])))"
proof -
  let ?E = "\<lambda>_. demo_env" and ?a = "newApp two_pools"
  let ?w = "\<lparr>w_svc = rung ?E, w_reqs = [one_served]\<rparr>" and ?p = "resolvePool emptySettings ''a'' (plainPool [''w''])"
  have idle: "web_step ?E ?a one_server w (WSvc SIdle) w" for w by (rule web_idle)
  obtain \<sigma> \<tau> where p: "web_path ?E ?a one_server \<sigma> \<tau>" "\<forall>n\<ge>length one_request. \<sigma> n = ?w"
    by (rule path_of_run [where idle = "WSvc SIdle" and R = "web_step ?E ?a one_server"]) (use one_request_run idle in auto)
  have "\<not> enabled (web_step ?E ?a one_server) web_dispatch ?w"
    unfolding enabled_def by (auto elim!: web_stepE svc_stepE simp: rung_facts web_dispatch_def)
  then have f: "fair (web_step ?E ?a one_server) web_dispatch \<sigma> \<tau>" by (rule fair_final [OF p(2)])
  have "\<not> sv_cancelled (w_svc (\<sigma> 4))" using p(2) by (simp add: rung_def svc_start_def Let_def one_request_def)
  have nc: "\<not> sv_cancelled (w_svc (\<sigma> m))" for m
  proof
    assume "sv_cancelled (w_svc (\<sigma> m))"
    then have "sv_cancelled ((w_svc \<circ> \<sigma>) (max m 4))"
      using path_stable [OF web_path_svc(1) [OF p(1)], of sv_cancelled m "max m 4"] flags_stable(5) by fastforce
    with p(2) \<open>\<not> sv_cancelled (w_svc (\<sigma> 4))\<close> show False by (simp add: one_request_def)
  qed
  have "one_served \<in> set (w_reqs (\<sigma> 4))" "rq_reply one_served = Some (202, Accepted)"
    using p(2) by (simp_all add: one_request_def one_served_def)
  from accepted_request_served [OF two_pools_finalized two_pools_a(4) two_pools_http p(1) f nc this]
  obtain m where "mset (counts_for one_server ?p [(''jobs:a'', 2)]) \<subseteq>#
      mset (routed_hints (pool_trace ?a (pc_Name ?p) (map (svc_act \<circ> \<tau>) [0..<m])))"
    using two_pools_a(1) by (auto simp: one_served_def)
  moreover have "pc_Channel ?p = ''a''" by (simp add: resolve_layers plain_defs layer3_def)
  ultimately have "{#(SourceHTTP, 2)#} \<subseteq># mset (routed_hints (pool_trace ?a ''a'' (map (svc_act \<circ> \<tau>) [0..<m])))"
    by (simp add: counts_for_def two_pools_a(3) httpapi_New_def)
  with p(1) show ?thesis by blast
qed

end
