(* ===== verification/HintLedger.thy ===== *)
theory HintLedger
  imports ServiceRuns
begin

text \<open>
  Where every hint went.  The dispatcher's own log and metrics and the metrics of the pools are
  read back from a state of the service and compared with what was sent on the channel: a
  hint is taken by the pool it is routed to, or is a counted drop of the dispatcher, or is
  still buffered.
\<close>

section \<open>Reading the state back\<close>

text \<open>The hint a line of \<open>Dispatch\<close> is about.\<close>

definition logged_hint :: "logline \<Rightarrow> Hint" where
  "logged_hint line = (case line of (lvl, msg, as) \<Rightarrow>
     \<lparr>Hint_Source = (case map_of as ''source'' of Some (AStr x) \<Rightarrow> x | _ \<Rightarrow> []),
      Hint_Pool = (case map_of as ''channel'' of Some (AStr x) \<Rightarrow> x | _ \<Rightarrow> []),
      Hint_Count = (case map_of as ''count'' of Some (AInt n) \<Rightarrow> n | _ \<Rightarrow> 0)\<rparr>)"

text \<open>A hint of a source reaches a pool: \<open>HintReceived\<close>, or the drop of a stopping pool.  A hint
  the breaker drops was received first.\<close>

fun takes :: "string \<Rightarrow> mevent \<Rightarrow> bool" where
  "takes src (MHint s name) \<longleftrightarrow> s = src"
| "takes src (MDrop s name reason) \<longleftrightarrow> s = src \<and> reason = ''shutdown''"
| "takes src _ \<longleftrightarrow> False"

definition hints_taken :: "string \<Rightarrow> pool_sys \<Rightarrow> nat" where
  "hints_taken src p = length (filter (takes src) (s_metrics p))"

definition all_taken :: "string \<Rightarrow> svc \<Rightarrow> nat" where
  "all_taken src s = sum_list (map (\<lambda>(name, p). hints_taken src p) (d_world (sv_d s)))"

fun drops :: "string \<Rightarrow> mevent \<Rightarrow> bool" where
  "drops src (MDrop s name reason) \<longleftrightarrow> s = src"
| "drops src _ \<longleftrightarrow> False"

definition all_dropped :: "string \<Rightarrow> svc \<Rightarrow> nat" where
  "all_dropped src s = length (filter (drops src) (d_metrics (sv_d s)))"

definition of_source :: "string \<Rightarrow> Hint list \<Rightarrow> nat" where
  "of_source src hs = length (filter (\<lambda>h. Hint_Source h = src) hs)"

lemma of_source_simps [simp]:
  "of_source src [] = 0" "of_source src (hs @ hs') = of_source src hs + of_source src hs'"
  "of_source src (h # hs) = (if Hint_Source h = src then 1 else 0) + of_source src hs"
  by (simp_all add: of_source_def)

section \<open>One pool\<close>

lemma hints_taken_simps [simp]:
  "hints_taken src (plog l m as s) = hints_taken src s"
  "hints_taken src (pmetric e s) = hints_taken src s + (if takes src e then 1 else 0)"
  "hints_taken src (set_phase i ph s) = hints_taken src s"
  "hints_taken src (s\<lparr>s_reads := n\<rparr>) = hints_taken src s" "hints_taken src (s\<lparr>s_spawns := n\<rparr>) = hints_taken src s"
  "hints_taken src (s\<lparr>s_workers := ws\<rparr>) = hints_taken src s" "hints_taken src (s\<lparr>p_breaker := b\<rparr>) = hints_taken src s"
  "hints_taken src (s\<lparr>p_running := r\<rparr>) = hints_taken src s" "hints_taken src (s\<lparr>p_reapers := r\<rparr>) = hints_taken src s"
  "hints_taken src (s\<lparr>p_lastHint := t\<rparr>) = hints_taken src s" "hints_taken src (s\<lparr>p_bg := r\<rparr>) = hints_taken src s"
  by (simp_all add: hints_taken_def set_phase_def)

lemma hints_taken_failure [simp]: "hints_taken src (failureLocked E k v s) = hints_taken src s"
  by (simp add: failureLocked_def clock_now_def Let_def split: prod.split)

lemma hints_taken_spawn: "hints_taken src (snd (spawnLocked E source s)) = hints_taken src s"
  by (simp add: spawnLocked_def clock_now_def Let_def split: sum.split)

lemma hints_taken_loop: "hints_taken src (snd (spawn_loop E source n s)) = hints_taken src s"
proof (induction n arbitrary: s)
  case (Suc n)
  then show ?case using hints_taken_spawn [of src E source s]
    by (auto split: prod.split bool.split) (metis snd_conv)+
qed simp

lemma hints_taken_Hint [simp]:
  "hints_taken src (snd (pool_Hint E source n s)) = hints_taken src s + (if source = src then 1 else 0)"
  by (simp add: pool_Hint_def clock_now_def Let_def case_prod_unfold hints_taken_loop)

lemma hints_taken_moves [simp]:
  "hints_taken src (snd (pool_Stats E s)) = hints_taken src s" "hints_taken src (pool_Start s) = hints_taken src s"
  "hints_taken src (Shutdown_begin s) = hints_taken src s" "hints_taken src (wait_done i e s) = hints_taken src s"
  "hints_taken src (wait_ttl i s) = hints_taken src s" "hints_taken src (wait_stop i s) = hints_taken src s"
  "hints_taken src (leave_wait i e r s) = hints_taken src s" "hints_taken src (reap_stamp E i e r s) = hints_taken src s"
  "hints_taken src (reap_report i er s) = hints_taken src s"
  by (simp_all add: hints_taken_def pool_Stats_def pool_Start_def Shutdown_begin_def wait_done_def leave_wait_def
      wait_ttl_def wait_stop_def reap_stamp_def reap_report_def logExit_def clock_now_def Let_def set_phase_def
      split: prod.split)

lemma hints_taken_record [simp]: "hints_taken src (reap_record E i e r t s) = hints_taken src s"
proof -
  have "hints_taken src (snd (recordExit E er t s)) = hints_taken src s" for er
    by (simp add: recordExit_def Let_def) (simp add: hints_taken_def)
  then show ?thesis by (simp add: reap_record_def Let_def split: prod.split) (metis snd_conv)
qed

text \<open>The sources outside a pool; the other two are the pool's own.\<close>

definition external :: "string \<Rightarrow> bool" where
  "external src \<longleftrightarrow> src \<noteq> SourcePoke \<and> src \<noteq> SourceWorker"

definition hint_of :: "string \<Rightarrow> action \<Rightarrow> nat" where
  "hint_of src x = (case x of AHint s n \<Rightarrow> if s = src then 1 else 0 | _ \<Rightarrow> 0)"

lemma hints_taken_step:
  "pool_step E p x p' \<Longrightarrow> external src \<Longrightarrow> hints_taken src p' = hints_taken src p + hint_of src x"
proof (induction rule: pool_step.induct)
  case (poke s w c)
  then show ?case using hints_taken_Hint [of src E SourcePoke "pc_PokeCount (p_cfg s)" s]
    by (cases "pool_Hint E SourcePoke (pc_PokeCount (p_cfg s)) s") (auto simp: poke_round_def hint_of_def external_def)
next
  case (chain s i r)
  then show ?case by (auto simp: reap_chain_def hint_of_def external_def Let_def)
qed (simp_all add: hint_of_def)

section \<open>The dispatcher\<close>

lemma Dispatch_logs:
  "map logged_hint (d_log (snd (Dispatch hint routes h d))) = map logged_hint (d_log d) @ [h]"
  by (simp add: Dispatch_def dlog_def dmetric_def logged_hint_def split: option.split prod.split)

definition drop_metric :: "App \<Rightarrow> Hint \<Rightarrow> mevent list" where
  "drop_metric a h = (case map_of (a_routes a) (Hint_Pool h) of
     None \<Rightarrow> [MDrop (Hint_Source h) [] ''unknown_pool'']
   | Some r \<Rightarrow> (case rt_target r of None \<Rightarrow> [MDrop (Hint_Source h) (rt_pool r) ''disabled''] | Some t \<Rightarrow> []))"

lemma Dispatch_metrics: "d_metrics (snd (Dispatch hint (a_routes a) h d)) = d_metrics d @ drop_metric a h"
  by (simp add: Dispatch_def dlog_def dmetric_def drop_metric_def split: option.split prod.split)

lemma drop_metric_routed: "routed a h = Some name \<Longrightarrow> drop_metric a h = []"
  by (cases "map_of (a_routes a) (Hint_Pool h)") (auto simp: drop_metric_def routed_def)

lemma drop_metric_count:
  "length (filter (drops src) (drop_metric a h)) = (if routed a h = None \<and> Hint_Source h = src then 1 else 0)"
  by (simp add: drop_metric_def routed_def split: option.split)

section \<open>The pools together\<close>

lemma sum_gmap_put:
  "map_of m k = Some v \<Longrightarrow> sum_list (map (\<lambda>(k, v). g v) (gmap_put k v' m)) + g v = sum_list (map (\<lambda>(k, v). g v) m) + (g v' :: nat)"
  by (induction m) (auto split: if_splits)

lemma all_taken_put:
  assumes "d_world (sv_d s') = gmap_put name p' (d_world (sv_d s))" "pool_of s name = Some p"
    and "hints_taken src p' = hints_taken src p + k"
  shows "all_taken src s' = all_taken src s + k"
  using sum_gmap_put [OF assms(2), of "hints_taken src" p'] assms(1,3) by (simp add: all_taken_def)

text \<open>Every route leads to a pool of the app.\<close>

definition routes_ok :: "App \<Rightarrow> svc \<Rightarrow> bool" where
  "routes_ok a s \<longleftrightarrow> (\<forall>h name. routed a h = Some name \<longrightarrow> pool_of s name \<noteq> None)"

lemma routes_ok_step: "svc_step E a s x s' \<Longrightarrow> routes_ok a s \<Longrightarrow> routes_ok a s'"
  using svc_step_pool [of E a s x s'] unfolding routes_ok_def by (metis not_None_eq)

lemma hinters_named:
  "(\<forall>n t. map_of hs n = Some t \<longrightarrow> map_of ps t \<noteq> None) \<Longrightarrow>
   map_of (fold (\<lambda>pc. gmap_put (pc_Name pc) (pc_Name pc)) cfgs hs) n = Some t \<Longrightarrow>
   map_of (fold (\<lambda>pc. gmap_put (pc_Name pc) (pool_New pc)) cfgs ps) t \<noteq> None"
proof (induction cfgs arbitrary: hs ps)
  case (Cons c cfgs)
  from Cons.prems show ?case
    by (simp only: fold_simps) (rule Cons.IH [rotated], assumption, auto)
qed simp

lemma make_route_target: "rt_target (make_route pools c) = Some t \<Longrightarrow> map_of pools (pc_Name c) = Some t"
  by (simp add: make_route_def split: if_splits)

lemma routes_ok_start: "routes_ok (newApp c) (svc_start (newApp c))"
proof -
  let ?cfgs = "filter pc_Enabled (ResolvedPools c)"
  define hinters where "hinters = fold (\<lambda>pc. gmap_put (pc_Name pc) (pc_Name pc)) ?cfgs []"
  have routes: "\<exists>c. r = make_route hinters c" if "map_of (NewDispatcher cfgs hinters) ch = Some r" for ch r cfgs
  proof -
    have "\<forall>ch r. map_of (NewDispatcher cfgs hinters) ch = Some r \<longrightarrow> (\<exists>c. r = make_route hinters c)"
      unfolding NewDispatcher_def by (rule fold_invariant [where Q = "\<lambda>_. True"]) auto
    with that show ?thesis by blast
  qed
  have "pool_of (svc_start (newApp c)) t \<noteq> None" if "routed (newApp c) h = Some t" for h t
  proof -
    from that obtain r where "map_of (NewDispatcher (ResolvedPools c) hinters) (Hint_Pool h) = Some r" "rt_target r = Some t"
      by (auto simp: routed_def newApp_fields newPools_eq hinters_def split: option.splits)
    with routes obtain n where "map_of hinters n = Some t" by (metis make_route_target)
    then have "map_of (fold (\<lambda>pc. gmap_put (pc_Name pc) (pool_New pc)) ?cfgs []) t \<noteq> None"
      unfolding hinters_def by (intro hinters_named [of "[]" "[]"]) auto
    then show ?thesis by (simp add: pool_of_start newApp_fields newPools_eq)
  qed
  then show ?thesis by (simp add: routes_ok_def)
qed

section \<open>The ledger\<close>

text \<open>What the state says of the hints received from the channel so far.\<close>

definition received :: "svc \<Rightarrow> Hint list" where
  "received s = map logged_hint (d_log (sv_d s))"

definition to_pool :: "App \<Rightarrow> string \<Rightarrow> string \<Rightarrow> Hint list \<Rightarrow> nat" where
  "to_pool a src name hs = length (filter (\<lambda>h. Hint_Source h = src \<and> routed a h = Some name) hs)"

definition ledger :: "App \<Rightarrow> string \<Rightarrow> Hint list \<Rightarrow> svc \<Rightarrow> bool" where
  "ledger a src hs s \<longleftrightarrow> hs = received s @ sv_chan s \<and>
     d_metrics (sv_d s) = concat (map (drop_metric a) (received s)) \<and>
     all_taken src s + all_dropped src s = of_source src (received s) \<and>
     (\<forall>name p. pool_of s name = Some p \<longrightarrow> hints_taken src p = to_pool a src name (received s))"

lemma svc_ops_dispatcher [simp]:
  "d_log (sv_d (bg_end i r s)) = d_log (sv_d s)" "d_metrics (sv_d (bg_end i r s)) = d_metrics (sv_d s)"
  "d_log (sv_d (main_select a b s)) = d_log (sv_d s)" "d_metrics (sv_d (main_select a b s)) = d_metrics (sv_d s)"
  "d_log (sv_d (main_awaited b s)) = d_log (sv_d s)" "d_metrics (sv_d (main_awaited b s)) = d_metrics (sv_d s)"
  "d_log (sv_d (shutdown_end name r s)) = d_log (sv_d s)" "d_metrics (sv_d (shutdown_end name r s)) = d_metrics (sv_d s)"
  "d_log (sv_d (main_drain s)) = d_log (sv_d s)" "d_metrics (sv_d (main_drain s)) = d_metrics (sv_d s)"
  "d_log (sv_d (set_pool name p s)) = d_log (sv_d s)" "d_metrics (sv_d (set_pool name p s)) = d_metrics (sv_d s)"
  by (simp_all add: bg_end_def set_pool_def main_select_def main_awaited_def shutdown_end_def main_drain_def
      split: mainphase.split list.split)

lemma ledger_keep:
  assumes "ledger a src hs s" "received s' = received s" "sv_chan s' = sv_chan s" "d_metrics (sv_d s') = d_metrics (sv_d s)"
    and "all_taken src s' = all_taken src s"
    and "\<And>name p'. pool_of s' name = Some p' \<Longrightarrow> \<exists>p. pool_of s name = Some p \<and> hints_taken src p' = hints_taken src p"
  shows "ledger a src hs s'"
  using assms unfolding ledger_def all_dropped_def by metis

lemma ledger_dispatch:
  assumes "ledger a src hs s" "sv_chan s = h # rest" "routes_ok a s" "external src"
    and s'_def: "s' = s\<lparr>sv_chan := rest, sv_d := snd (Dispatch (pools_hint E) (a_routes a) h (sv_d s))\<rparr>"
  shows "ledger a src hs s'"
proof -
  have r: "received s' = received s @ [h]" by (simp add: received_def s'_def Dispatch_logs)
  have d: "d_metrics (sv_d s') = d_metrics (sv_d s) @ drop_metric a h" by (simp add: s'_def Dispatch_metrics)
  have w: "d_world (sv_d s') = (case routed a h of None \<Rightarrow> d_world (sv_d s)
      | Some name \<Rightarrow> snd (pools_hint E name (Hint_Source h) (Hint_Count h) (d_world (sv_d s))))"
    by (simp add: s'_def Dispatch_world)
  show ?thesis
  proof (cases "routed a h")
    case None
    with assms(1,2) r d w show ?thesis
      by (auto simp: ledger_def all_dropped_def drop_metric_count all_taken_def to_pool_def s'_def)
  next
    case (Some name)
    then obtain p where p: "pool_of s name = Some p" using assms(3) unfolding routes_ok_def by blast
    define p' where "p' = snd (pool_Hint (E name) (Hint_Source h) (Hint_Count h) p)"
    have t: "hints_taken src p' = hints_taken src p + (if Hint_Source h = src then 1 else 0)" by (simp add: p'_def)
    have w': "d_world (sv_d s') = gmap_put name p' (d_world (sv_d s))" using w Some p by (simp add: pools_hint_world p'_def)
    have "drop_metric a h = []" using Some by (rule drop_metric_routed)
    moreover have "sv_chan s' = rest" by (simp add: s'_def)
    ultimately show ?thesis using assms(1,2) r d t Some all_taken_put [OF w' p t] p
      by (auto simp: ledger_def all_dropped_def to_pool_def w')
  qed
qed

lemma ledger_step:
  "svc_step E a s x s' \<Longrightarrow> routes_ok a s \<Longrightarrow> external src \<Longrightarrow> ledger a src hs s \<Longrightarrow> ledger a src (hs @ sends [x]) s'"
proof (induction rule: svc_step.induct)
  case (send s h)
  then show ?case by (auto simp: ledger_def received_def all_taken_def all_dropped_def)
next
  case (dispatch s h rest)
  then show ?case using ledger_dispatch [OF dispatch(5) dispatch(2-4) refl] by simp
next
  case (pool s name p x p')
  have "hints_taken src p' = hints_taken src p"
    using hints_taken_step [OF pool(2,5)] pool(3) by (auto simp: hint_of_def internal_def split: action.splits)
  with pool all_taken_put [of "set_pool name p' s" name p' s p src 0] show ?case
    by (simp, intro ledger_keep [OF pool(6)]) (auto simp: received_def split: if_splits)
next
  case (pool_begin s errs ps name p)
  let ?s' = "(set_pool name (Shutdown_begin p) s)\<lparr>sv_main := MPools errs (gmap_put name PWaiting ps)\<rparr>"
  from pool_begin all_taken_put [of ?s' name "Shutdown_begin p" s p src 0] show ?case
    by (simp, intro ledger_keep [OF pool_begin(6)]) (auto simp: received_def split: if_splits)
qed (auto simp: ledger_def received_def all_taken_def all_dropped_def)

lemma ledger_start: "ledger (newApp c) src [] (svc_start (newApp c))"
proof -
  have fresh: "hints_taken src p = 0" if "pool_of (svc_start (newApp c)) name = Some p" for name p
    using that newApp_pools by (fastforce simp: pool_of_start hints_taken_def pool_New_def pool_Start_def)
  have "gmap_ok (d_world (sv_d (svc_start (newApp c))))" using svc_inv_start by (simp add: svc_inv_def)
  then have "\<forall>(name, p) \<in> set (d_world (sv_d (svc_start (newApp c)))). hints_taken src p = 0"
    using fresh by (auto simp: map_of_is_SomeI)
  then have "all_taken src (svc_start (newApp c)) = 0" by (auto simp: all_taken_def sum_list_eq_0_iff)
  with fresh show ?thesis by (auto simp: ledger_def received_def all_dropped_def to_pool_def) (simp_all add: svc_start_def)
qed

lemma ledger_run:
  assumes "svc_run E c xs s" "external src"
  shows "ledger (newApp c) src (sends xs) s"
proof -
  have "routes_ok (newApp c) s \<and> ledger (newApp c) src (sends xs) s"
    using assms(1) unfolding svc_run_def
  proof (induction rule: svc_steps_rev_induct)
    case start
    then show ?case using routes_ok_start ledger_start by simp
  next
    case (snoc xs s x s')
    with routes_ok_step [OF snoc(2)] ledger_step [OF snoc(2) _ assms(2)] show ?case by (simp add: sends_append)
  qed
  then show ?thesis ..
qed

text \<open>C12: no hint is lost.  In every state of the service, what was sent on the channel is, in
  order and once each, what the dispatcher has logged followed by what is still buffered, at
  most 64 hints.  Of the hints of a source outside the pools every one is accounted for by
  the counters: it was taken by a pool, or is a counted drop of the dispatcher, or is
  buffered; and each pool has taken exactly those logged hints that are routed to it.\<close>

theorem hints_conserved:
  assumes "svc_run E c xs s" "src \<noteq> SourcePoke" "src \<noteq> SourceWorker"
  shows "sends xs = map logged_hint (d_log (sv_d s)) @ sv_chan s \<and> length (sv_chan s) \<le> 64 \<and>
    of_source src (sends xs) = all_taken src s + all_dropped src s + of_source src (sv_chan s) \<and>
    d_metrics (sv_d s) = concat (map (drop_metric (newApp c)) (map logged_hint (d_log (sv_d s)))) \<and>
    (\<forall>name p. pool_of s name = Some p \<longrightarrow>
       hints_taken src p = to_pool (newApp c) src name (map logged_hint (d_log (sv_d s))))"
proof -
  have "ledger (newApp c) src (sends xs) s" using ledger_run [OF assms(1)] assms(2,3) by (simp add: external_def)
  moreover have "length (sv_chan s) \<le> 64" using channel_inv [OF assms(1) [unfolded svc_run_def]] by (simp add: hintBuffer_def)
  ultimately show ?thesis by (simp add: ledger_def received_def)
qed

lemma hints_conserved_witness:
  "all_taken SourceHTTP (rung (\<lambda>_. demo_env)) = 1 \<and>
   (\<exists>p. pool_of (rung (\<lambda>_. demo_env)) ''a'' = Some p \<and> hints_taken SourceHTTP p = 1)"
proof -
  let ?s = "rung (\<lambda>_. demo_env)" and ?p = "resolvePool emptySettings ''a'' (plainPool [''w''])"
  have src: "SourceHTTP \<noteq> SourcePoke" "SourceHTTP \<noteq> SourceWorker"
    by (simp_all add: SourceHTTP_def SourcePoke_def SourceWorker_def)
  note c = hints_conserved [OF bell_run [of "\<lambda>_. demo_env"] src]
  note route = enabled_pool_route [OF two_pools_finalized two_pools_a(4,1,2)]
  have "pc_Channel ?p = ''a''" by (simp add: resolve_layers plain_defs layer3_def)
  with route(2) two_pools_a(3) have r: "routed (newApp two_pools) bell = Some ''a''" by (simp add: routed_def bell_def)
  then have "drop_metric (newApp two_pools) bell = []" by (rule drop_metric_routed)
  moreover have l: "map logged_hint (d_log (sv_d ?s)) = [bell]" using c by (simp add: rung_facts)
  moreover from c have "d_metrics (sv_d ?s) = concat (map (drop_metric (newApp two_pools)) (map logged_hint (d_log (sv_d ?s))))"
    by blast
  ultimately have "all_dropped SourceHTTP ?s = 0" unfolding l by (simp add: all_dropped_def)
  moreover obtain p where "pool_of ?s ''a'' = Some p"
    using svc_steps_pool [OF bell_run [unfolded svc_run_def]] route(1) two_pools_a(3) by (fastforce simp: pool_of_start)
  ultimately show ?thesis using c r unfolding l by (auto simp: rung_facts to_pool_def bell_def)
qed

end
