(* ===== verification/ClockFake.thy ===== *)
theory ClockFake
  imports Prelude
begin

text \<open>
  \<open>internal/clock/fake.go\<close>: the clock that moves only by \<open>Advance\<close>.  A \<open>*waiter\<close> is named
  by a number, and its one-place channel is an entry of \<open>fc_chan\<close>, which outlives the
  waiter as the channel does.  \<open>fc_sends\<close> records the sends \<open>Advance\<close> tries, in order;
  nobody receives while it runs.
\<close>

section \<open>Operations\<close>

record waiter =
  wt_id :: nat
  wt_at :: gtime
  wt_period :: duration

record FakeClock =
  fc_now :: gtime
  fc_waiters :: "waiter list"
  fc_next :: nat
  fc_chan :: "nat \<Rightarrow> gtime option"
  fc_sends :: "(nat \<times> gtime) list"

definition NewFake :: "gtime \<Rightarrow> FakeClock" where
  "NewFake start = \<lparr>fc_now = start, fc_waiters = [], fc_next = 0, fc_chan = (\<lambda>_. None), fc_sends = []\<rparr>"

definition fc_add :: "duration \<Rightarrow> duration \<Rightarrow> FakeClock \<Rightarrow> nat \<times> FakeClock" where
  "fc_add d period c =
     (fc_next c, c\<lparr>fc_waiters := fc_waiters c @ [\<lparr>wt_id = fc_next c, wt_at = time_add (fc_now c) d, wt_period = period\<rparr>],
        fc_next := Suc (fc_next c), fc_chan := (fc_chan c)(fc_next c := None)\<rparr>)"

definition fc_After :: "duration \<Rightarrow> FakeClock \<Rightarrow> nat \<times> FakeClock" where
  "fc_After d c = fc_add d 0 c"

definition fc_NewTimer :: "duration \<Rightarrow> FakeClock \<Rightarrow> nat \<times> FakeClock" where
  "fc_NewTimer d c = fc_add d 0 c"

text \<open>\<open>None\<close> is the panic on a non-positive interval.\<close>

definition fc_NewTicker :: "duration \<Rightarrow> FakeClock \<Rightarrow> (nat \<times> FakeClock) option" where
  "fc_NewTicker d c = (if d \<le> 0 then None else Some (fc_add d d c))"

definition fc_Pending :: "FakeClock \<Rightarrow> nat" where
  "fc_Pending c = length (fc_waiters c)"

text \<open>\<open>earliest\<close> sorts the waiters stably by deadline, for good.\<close>

definition fc_earliest :: "FakeClock \<Rightarrow> waiter option \<times> FakeClock" where
  "fc_earliest c =
     (let ws = sort_key wt_at (fc_waiters c)
      in (case ws of [] \<Rightarrow> None | w # _ \<Rightarrow> Some w, c\<lparr>fc_waiters := ws\<rparr>))"

fun remove_waiter :: "nat \<Rightarrow> waiter list \<Rightarrow> bool \<times> waiter list" where
  "remove_waiter i [] = (False, [])"
| "remove_waiter i (w # ws) =
     (if wt_id w = i then (True, ws) else case remove_waiter i ws of (b, ws') \<Rightarrow> (b, w # ws'))"

definition fc_remove :: "nat \<Rightarrow> FakeClock \<Rightarrow> bool \<times> FakeClock" where
  "fc_remove i c = (case remove_waiter i (fc_waiters c) of (b, ws) \<Rightarrow> (b, c\<lparr>fc_waiters := ws\<rparr>))"

text \<open>\<open>fakeTimer.Stop\<close> and \<open>fakeTicker.Stop\<close>.\<close>

definition fc_Stop :: "nat \<Rightarrow> FakeClock \<Rightarrow> bool \<times> FakeClock" where
  "fc_Stop i c = fc_remove i c"

text \<open>One round of the loop of \<open>Advance\<close> for the waiter \<open>w\<close> that \<open>earliest\<close> put at the front,
  before \<open>ws\<close>: the send, dropped when the buffer is full, and the next deadline.\<close>

definition fc_fire :: "waiter \<Rightarrow> waiter list \<Rightarrow> FakeClock \<Rightarrow> FakeClock" where
  "fc_fire w ws c =
     (let c = c\<lparr>fc_now := wt_at w, fc_sends := fc_sends c @ [(wt_id w, wt_at w)],
                fc_chan := (case fc_chan c (wt_id w) of
                   None \<Rightarrow> (fc_chan c)(wt_id w := Some (wt_at w)) | Some _ \<Rightarrow> fc_chan c)\<rparr>
      in if wt_period w > 0 then c\<lparr>fc_waiters := w\<lparr>wt_at := time_add (wt_at w) (wt_period w)\<rparr> # ws\<rparr>
         else snd (fc_remove (wt_id w) c))"

lemma fc_fire_waiters:
  "fc_waiters c = w # ws \<Longrightarrow> fc_waiters (fc_fire w ws c) =
     (if wt_period w > 0 then w\<lparr>wt_at := wt_at w + wt_period w\<rparr> # ws else ws)"
  by (simp add: fc_fire_def fc_remove_def go_defs Let_def)

text \<open>What is left to fire up to \<open>target\<close>, the measure of the loop.\<close>

definition due :: "gtime \<Rightarrow> waiter list \<Rightarrow> nat" where
  "due target ws = sum_list (map (\<lambda>w. nat (target - wt_at w + 1)) ws)"

lemma due_sort: "due target (sort_key wt_at ws) = due target ws"
  by (simp add: due_def flip: sum_mset_sum_list)

lemma due_fire:
  "fc_waiters c = w # ws \<Longrightarrow> wt_at w \<le> target \<Longrightarrow> due target (fc_waiters (fc_fire w ws c)) < due target (w # ws)"
  by (simp add: fc_fire_waiters due_def)

lemma earliest_Some:
  assumes "fc_earliest c = (Some w, d)"
  shows "fc_waiters d = w # tl (fc_waiters d)" "fc_waiters d = sort_key wt_at (fc_waiters c)"
    "d = c\<lparr>fc_waiters := fc_waiters d\<rparr>"
  using assms by (auto simp: fc_earliest_def Let_def split: list.splits)

lemma sort_key_Nil: "sort_key f ws = [] \<longleftrightarrow> ws = []"
  using set_sort [of f ws] by (metis set_empty)

lemma earliest_None: "fc_earliest c = (None, d) \<longleftrightarrow> fc_waiters c = [] \<and> d = c"
proof (cases "sort_key wt_at (fc_waiters c)")
  case Nil
  then have "fc_waiters c = []" by (simp only: sort_key_Nil)
  moreover have "c\<lparr>fc_waiters := fc_waiters c\<rparr> = c" by simp
  ultimately show ?thesis by (auto simp: fc_earliest_def)
next
  case (Cons w ws)
  then have "fc_waiters c \<noteq> []" by auto
  with Cons show ?thesis by (simp add: fc_earliest_def Let_def)
qed

lemma advance_decreases:
  assumes "fc_earliest c = (Some w, d)" "\<not> time_after (wt_at w) target"
  shows "due target (fc_waiters (fc_fire w (tl (fc_waiters d)) d)) < due target (fc_waiters c)"
proof -
  note E = earliest_Some [OF assms(1)]
  have "due target (fc_waiters (fc_fire w (tl (fc_waiters d)) d)) < due target (fc_waiters d)"
    using due_fire [OF E(1), of target] assms(2) E(1) by (simp add: go_defs)
  then show ?thesis by (simp add: E(2) due_sort)
qed

function advance_loop :: "gtime \<Rightarrow> FakeClock \<Rightarrow> FakeClock" where
  "advance_loop target c =
     (case fc_earliest c of
        (None, c) \<Rightarrow> c
      | (Some w, c) \<Rightarrow>
          if time_after (wt_at w) target then c
          else advance_loop target (fc_fire w (tl (fc_waiters c)) c))"
  by pat_completeness auto

termination
  by (relation "measure (\<lambda>(target, c). due target (fc_waiters c))") (auto dest: advance_decreases [OF sym])

declare advance_loop.simps [simp del]

definition fc_Advance :: "duration \<Rightarrow> FakeClock \<Rightarrow> FakeClock" where
  "fc_Advance d c = (let target = time_add (fc_now c) d in (advance_loop target c)\<lparr>fc_now := target\<rparr>)"

section \<open>What one advance sends\<close>

text \<open>The contract of one waiter: a timer fires at its deadline, a ticker at its deadline and
  every period after it, up to the target.\<close>

definition fires :: "gtime \<Rightarrow> waiter \<Rightarrow> gtime list" where
  "fires target w =
     (if target < wt_at w then []
      else if wt_period w \<le> 0 then [wt_at w]
      else map (\<lambda>k. wt_at w + int k * wt_period w) [0..<Suc (nat ((target - wt_at w) div wt_period w))])"

lemma fires_step:
  assumes "wt_at w \<le> target" "0 < wt_period w"
  shows "fires target w = wt_at w # fires target (w\<lparr>wt_at := wt_at w + wt_period w\<rparr>)"
proof -
  define p where "p = wt_period w"
  define q where "q = (target - wt_at w) div p"
  have p: "0 < p" using assms by (simp add: p_def)
  show ?thesis
  proof (cases "target < wt_at w + p")
    case True
    then have "(target - wt_at w) div p = 0" using assms(1) p by (simp add: div_pos_pos_trivial)
    with True assms show ?thesis by (simp add: fires_def p_def)
  next
    case False
    have d: "(target - (wt_at w + p)) div p = q - 1"
      using p div_mult_self1 [of p "target - wt_at w" "-1"] by (simp add: q_def algebra_simps)
    have "1 \<le> q" unfolding q_def using False p by (simp add: pos_imp_zdiv_pos_iff int_one_le_iff_zero_less)
    then have "nat q = Suc (nat (q - 1))" by simp
    moreover have "map (\<lambda>k. wt_at w + int k * p) [0..<Suc (Suc n)]
        = wt_at w # map (\<lambda>k. wt_at w + p + int k * p) [0..<Suc n]" for n
      by (subst upt_conv_Cons) (simp_all add: map_Suc_upt [symmetric] algebra_simps del: upt_Suc)
    ultimately show ?thesis
      using assms False d by (simp add: fires_def del: upt_Suc flip: p_def q_def)
  qed
qed

definition sends_of :: "nat \<Rightarrow> (nat \<times> gtime) list \<Rightarrow> gtime list" where
  "sends_of i new = map snd (filter (\<lambda>s. fst s = i) new)"

lemma sends_of_Cons: "sends_of i ((j, t) # new) = (if j = i then t # sends_of i new else sends_of i new)"
  by (simp add: sends_of_def)

lemma sends_of_absent: "i \<notin> fst ` set new \<Longrightarrow> sends_of i new = []"
  by (force simp: sends_of_def filter_empty_conv)

text \<open>\<open>new\<close> is what the loop sends on its way from \<open>c\<close> to \<open>c'\<close>.\<close>

definition advances :: "gtime \<Rightarrow> FakeClock \<Rightarrow> (nat \<times> gtime) list \<Rightarrow> FakeClock \<Rightarrow> bool" where
  "advances target c new c' \<longleftrightarrow>
     fc_sends c' = fc_sends c @ new \<and> sorted (map snd new) \<and> list_all (\<lambda>s. snd s \<le> target) new \<and>
     (\<forall>w \<in> set (fc_waiters c). sends_of (wt_id w) new = fires target w) \<and>
     fst ` set new \<subseteq> wt_id ` set (fc_waiters c) \<and>
     (\<forall>b. (\<forall>w \<in> set (fc_waiters c). b \<le> wt_at w) \<longrightarrow> (\<forall>s \<in> set new. b \<le> snd s)) \<and>
     (\<forall>w \<in> set (fc_waiters c'). target < wt_at w)"

lemma distinct_ids_sort: "distinct (map wt_id (sort_key wt_at ws)) = distinct (map wt_id ws)"
  by (rule mset_eq_imp_distinct_iff) simp

lemma fc_sends_fire: "fc_sends (fc_fire w ws c) = fc_sends c @ [(wt_id w, wt_at w)]"
  by (simp add: fc_fire_def fc_remove_def Let_def split: prod.split)

lemma advances_fire:
  assumes W: "fc_waiters d = w # ws" and sorted: "\<forall>x \<in> set ws. wt_at w \<le> wt_at x"
    and ids: "distinct (map wt_id (w # ws))" and due: "wt_at w \<le> target"
    and IH: "advances target (fc_fire w ws d) new c'"
  shows "advances target d ((wt_id w, wt_at w) # new) c'"
proof -
  let ?c = "fc_fire w ws d"
  define w' where "w' = w\<lparr>wt_at := wt_at w + wt_period w\<rparr>"
  have cw: "fc_waiters ?c = (if 0 < wt_period w then w' # ws else ws)" by (simp add: fc_fire_waiters [OF W] w'_def)
  have w': "wt_id w' = wt_id w" "wt_at w' = wt_at w + wt_period w" by (simp_all add: w'_def)
  have low: "\<forall>s \<in> set new. wt_at w \<le> snd s"
  proof -
    have "\<forall>x \<in> set (fc_waiters ?c). wt_at w \<le> wt_at x" using sorted by (simp add: cw w')
    with IH show ?thesis by (simp add: advances_def)
  qed
  have own: "sends_of (wt_id w) ((wt_id w, wt_at w) # new) = fires target w"
  proof (cases "0 < wt_period w")
    case True
    with IH have "sends_of (wt_id w) new = fires target w'" by (simp add: advances_def cw w')
    with True due fires_step [of w target] show ?thesis by (simp add: sends_of_Cons w'_def)
  next
    case False
    then have "wt_id w \<notin> fst ` set new" using IH ids by (auto simp: advances_def cw)
    with False due show ?thesis by (simp add: sends_of_Cons sends_of_absent fires_def)
  qed
  have others: "\<forall>x \<in> set ws. sends_of (wt_id x) ((wt_id w, wt_at w) # new) = fires target x"
  proof
    fix x assume x: "x \<in> set ws"
    then have "wt_id w \<noteq> wt_id x" using ids by auto
    moreover have "sends_of (wt_id x) new = fires target x" using IH x by (simp add: advances_def cw)
    ultimately show "sends_of (wt_id x) ((wt_id w, wt_at w) # new) = fires target x" by (simp add: sends_of_Cons)
  qed
  have sub: "fst ` set new \<subseteq> wt_id ` set (w # ws)"
    using IH by (auto simp: advances_def cw w' split: if_splits)
  have bound: "\<forall>s \<in> set new. b \<le> snd s" if "\<forall>x \<in> set (w # ws). b \<le> wt_at x" for b
    using that low by auto
  show ?thesis
    using IH low own others sub bound due
    by (simp add: advances_def fc_sends_fire W)
qed

lemma advance_loop_advances:
  "distinct (map wt_id (fc_waiters c)) \<Longrightarrow> \<exists>new. advances target c new (advance_loop target c)"
proof (induction target c rule: advance_loop.induct)
  case (1 target c)
  obtain x d where e: "fc_earliest c = (x, d)" by fastforce
  show ?case
  proof (cases x)
    case None
    with e have "fc_waiters c = []" "d = c" by (auto simp: earliest_None)
    with None e show ?thesis
      by (intro exI [of _ "[]"]) (simp add: advances_def advance_loop.simps [of target c])
  next
    case (Some w)
    with e have e: "fc_earliest c = (Some w, d)" by simp
    note E = earliest_Some [OF e]
    have sm: "set (fc_waiters d) = set (fc_waiters c)" "fc_sends d = fc_sends c"
      using E(2) by simp (subst E(3), simp)
    have srt: "sorted (map wt_at (fc_waiters d))" by (simp add: E(2))
    have low: "\<forall>y \<in> set (tl (fc_waiters d)). wt_at w \<le> wt_at y" using srt by (subst (asm) E(1)) simp
    have step: "advances target d new q \<Longrightarrow> advances target c new q" for new q
      by (simp add: advances_def sm)
    show ?thesis
    proof (cases "time_after (wt_at w) target")
      case True
      have "\<forall>y \<in> set (w # tl (fc_waiters d)). target < wt_at y"
        using low True by (auto simp: go_defs)
      then have "\<forall>y \<in> set (fc_waiters d). target < wt_at y" by (simp flip: E(1))
      then have "advances target d [] d" by (auto simp: advances_def sends_of_def fires_def)
      with step e True show ?thesis by (auto simp: advance_loop.simps [of target c])
    next
      case False
      let ?ws = "tl (fc_waiters d)"
      have ids: "distinct (map wt_id (w # ?ws))"
        using 1(2) E(1,2) distinct_ids_sort [of "fc_waiters c"] by metis
      then have "distinct (map wt_id (fc_waiters (fc_fire w ?ws d)))"
        by (simp add: fc_fire_waiters [OF E(1)])
      then obtain new where new: "advances target (fc_fire w ?ws d) new (advance_loop target (fc_fire w ?ws d))"
        using 1(1) [OF e [symmetric] refl False] e by auto
      from advances_fire [OF E(1) low ids _ new] False step e show ?thesis
        by (auto simp: go_defs advance_loop.simps [of target c])
    qed
  qed
qed

section \<open>Well-formed clocks\<close>

definition fc_wf :: "FakeClock \<Rightarrow> bool" where
  "fc_wf c \<longleftrightarrow> distinct (map wt_id (fc_waiters c)) \<and> list_all (\<lambda>w. wt_id w < fc_next c) (fc_waiters c)"

lemma fc_wf_new: "fc_wf (NewFake start)"
  by (simp add: fc_wf_def NewFake_def)

lemma fc_wf_add: "fc_wf c \<Longrightarrow> fc_wf (snd (fc_add d p c))"
  by (force simp: fc_wf_def fc_add_def list_all_iff)

lemma remove_waiter_set: "set (snd (remove_waiter i ws)) \<subseteq> set ws"
  by (induction ws) (auto split: prod.splits)

lemma remove_waiter_distinct: "distinct (map wt_id ws) \<Longrightarrow> distinct (map wt_id (snd (remove_waiter i ws)))"
proof (induction ws)
  case (Cons w ws)
  then show ?case using remove_waiter_set [of i ws] by (auto split: prod.splits)
qed simp

lemma fc_wf_Stop: "fc_wf c \<Longrightarrow> fc_wf (snd (fc_Stop i c))"
  using remove_waiter_distinct [of "fc_waiters c" i] remove_waiter_set [of i "fc_waiters c"]
  by (auto simp: fc_wf_def fc_Stop_def fc_remove_def list_all_iff split: prod.splits)

lemma fc_wf_loop: "fc_wf c \<Longrightarrow> fc_wf (advance_loop target c)"
proof (induction target c rule: advance_loop.induct)
  case (1 target c)
  obtain x d where e: "fc_earliest c = (x, d)" by fastforce
  show ?case
  proof (cases x)
    case None
    with e have "d = c" by (simp add: earliest_None)
    with None e 1(2) show ?thesis by (simp add: advance_loop.simps [of target c])
  next
    case (Some w)
    with e have e: "fc_earliest c = (Some w, d)" by simp
    note E = earliest_Some [OF e]
    have nx: "fc_next d = fc_next c" by (subst E(3)) simp
    have d: "fc_wf d" using 1(2) by (simp add: fc_wf_def E(2) nx distinct_ids_sort list_all_iff)
    have "fc_next (fc_fire w ws u) = fc_next u" for ws u
      by (simp add: fc_fire_def fc_remove_def Let_def split: prod.split)
    moreover have "fc_wf d \<longleftrightarrow> distinct (map wt_id (w # tl (fc_waiters d))) \<and>
        list_all (\<lambda>w. wt_id w < fc_next d) (w # tl (fc_waiters d))"
      unfolding fc_wf_def by (simp flip: E(1))
    ultimately have "fc_wf (fc_fire w (tl (fc_waiters d)) d)"
      using d by (simp add: fc_wf_def fc_fire_waiters [OF E(1)])
    with 1(1) [OF e [symmetric] refl] d e show ?thesis by (simp add: advance_loop.simps [of target c])
  qed
qed

lemma fc_wf_Advance: "fc_wf c \<Longrightarrow> fc_wf (fc_Advance d c)"
  using fc_wf_loop [of c] by (simp add: fc_Advance_def fc_wf_def Let_def)

text \<open>\<open>Advance\<close> terminates, ends at its target with no waiter due, and on its way fires
  in deadline order exactly what is armed: a timer once at its deadline, a ticker at its
  deadline and every period after it, and nothing else.\<close>

theorem Advance_fires_in_order:
  assumes "fc_wf c"
  shows "fc_now (fc_Advance d c) = fc_now c + d \<and> fc_wf (fc_Advance d c) \<and>
    list_all (\<lambda>w. fc_now c + d < wt_at w) (fc_waiters (fc_Advance d c)) \<and>
    (\<exists>new. fc_sends (fc_Advance d c) = fc_sends c @ new \<and> sorted (map snd new) \<and>
       list_all (\<lambda>w. map snd (filter (\<lambda>s. fst s = wt_id w) new) = fires (fc_now c + d) w) (fc_waiters c) \<and>
       fst ` set new \<subseteq> wt_id ` set (fc_waiters c))"
proof -
  have "distinct (map wt_id (fc_waiters c))" using assms by (simp add: fc_wf_def)
  then obtain new where "advances (fc_now c + d) c new (advance_loop (fc_now c + d) c)"
    using advance_loop_advances by blast
  with fc_wf_Advance [OF assms, of d] show ?thesis
    by (auto simp: fc_Advance_def go_defs Let_def advances_def sends_of_def list_all_iff)
qed

definition demo_clock :: FakeClock where
  "demo_clock = snd (the (fc_NewTicker 10 (snd (fc_After 25 (NewFake 100)))))"

lemma Advance_fires_in_order_witness:
  "fc_wf demo_clock \<and> fc_now (fc_Advance 30 demo_clock) = 130 \<and>
   (\<exists>new. fc_sends (fc_Advance 30 demo_clock) = new \<and> sorted (map snd new) \<and>
      map snd (filter (\<lambda>s. fst s = 0) new) = [125] \<and> map snd (filter (\<lambda>s. fst s = 1) new) = [110, 120, 130])"
proof -
  have c: "fc_waiters demo_clock = [\<lparr>wt_id = 0, wt_at = 125, wt_period = 0\<rparr>, \<lparr>wt_id = 1, wt_at = 110, wt_period = 10\<rparr>]"
    "fc_now demo_clock = 100" "fc_next demo_clock = 2" "fc_sends demo_clock = []"
    by (simp_all add: demo_clock_def fc_NewTicker_def fc_After_def fc_add_def NewFake_def go_defs)
  have wf: "fc_wf demo_clock" by (simp add: fc_wf_def c)
  from Advance_fires_in_order [OF wf, of 30] wf show ?thesis
    by (auto simp: c fires_def upt_conv_Cons)
qed

end
