(* ===== verification/Listener.thy ===== *)
theory Listener
  imports HttpApi
begin

text \<open>
  \<open>internal/httpapi/listener.go\<close>: the listen, serve and drain cycle of the two HTTP
  listeners.  Of \<open>net/http\<close> the model has what the code relies on: \<open>Serve\<close> ends only with an
  error, which is \<open>ErrServerClosed\<close> once \<open>Shutdown\<close> was called; \<open>Shutdown\<close> stops the accepts
  at once and returns nil when no request is in flight, or the error of its context.
\<close>

datatype srv_error = ErrServerClosed | SrvError string

datatype lphase = LServing | LShutdown | LWait | LReturned "srv_error option"

text \<open>\<open>errc\<close> has room for the one result of \<open>Serve\<close>; \<open>active\<close> counts the requests in flight.\<close>

record listener =
  ln_cfg :: HTTP
  ln_addr :: string
  ln_log :: "logline list"
  ln_phase :: lphase
  ln_errc :: "srv_error list"
  ln_serving :: bool
  ln_closed :: bool
  ln_active :: nat
  ln_ctx :: bool

definition listener_new :: "HTTP \<Rightarrow> listener" where
  "listener_new cfg = \<lparr>ln_cfg = cfg, ln_addr = [], ln_log = [], ln_phase = LServing, ln_errc = [],
     ln_serving = False, ln_closed = False, ln_active = 0, ln_ctx = False\<rparr>"

text \<open>\<open>serve\<close> up to its \<open>select\<close>; \<open>listen\<close> is \<open>net.Listen\<close>: the bound address or an error.\<close>

definition serve :: "(string \<Rightarrow> string + string) \<Rightarrow> string \<Rightarrow> listener \<Rightarrow> listener" where
  "serve listen addr l =
     (case listen addr of
        Inl e \<Rightarrow> l\<lparr>ln_phase := LReturned (Some (SrvError e))\<rparr>
      | Inr bound \<Rightarrow> l\<lparr>ln_addr := bound, ln_serving := True,
          ln_log := ln_log l @ [(Info, ''http listening'', [(''addr'', AStr bound)])]\<rparr>)"

text \<open>\<open>shutdown\<close>: the call of \<open>srv.Shutdown\<close>, its return, and the last receive.\<close>

definition shutdown_call :: "listener \<Rightarrow> listener" where
  "shutdown_call l = l\<lparr>ln_phase := LShutdown, ln_closed := True\<rparr>"

definition shutdown_return :: "string option \<Rightarrow> listener \<Rightarrow> listener" where
  "shutdown_return r l =
     (case r of
        None \<Rightarrow> l\<lparr>ln_phase := LWait\<rparr>
      | Some e \<Rightarrow> l\<lparr>ln_phase := LWait, ln_log := ln_log l @ [(Warn, ''http shutdown'', [(''err'', AErr e)])]\<rparr>)"

definition shutdown_result :: "srv_error \<Rightarrow> srv_error option" where
  "shutdown_result e = (if e = ErrServerClosed then None else Some e)"

datatype laction =
    LRequest | LResponse | LServeEnds srv_error | LCtx | LSelectErr | LSelectCtx | LShutdownReturns "string option" | LReceive

inductive lstep :: "listener \<Rightarrow> laction \<Rightarrow> listener \<Rightarrow> bool" where
  request: "ln_serving l \<Longrightarrow> \<not> ln_closed l \<Longrightarrow> lstep l LRequest (l\<lparr>ln_active := Suc (ln_active l)\<rparr>)"
| response: "0 < ln_active l \<Longrightarrow> lstep l LResponse (l\<lparr>ln_active := ln_active l - 1\<rparr>)"
| serve_ends: "ln_serving l \<Longrightarrow> (e = ErrServerClosed) = ln_closed l \<Longrightarrow>
    lstep l (LServeEnds e) (l\<lparr>ln_serving := False, ln_errc := ln_errc l @ [e]\<rparr>)"
| ctx: "lstep l LCtx (l\<lparr>ln_ctx := True\<rparr>)"
| select_err: "ln_phase l = LServing \<Longrightarrow> ln_errc l = e # es \<Longrightarrow>
    lstep l LSelectErr (l\<lparr>ln_phase := LReturned (Some e), ln_errc := es\<rparr>)"
| select_ctx: "ln_phase l = LServing \<Longrightarrow> ln_ctx l \<Longrightarrow> lstep l LSelectCtx (shutdown_call l)"
| shutdown_returns: "ln_phase l = LShutdown \<Longrightarrow> r = None \<longrightarrow> ln_active l = 0 \<Longrightarrow>
    lstep l (LShutdownReturns r) (shutdown_return r l)"
| receive: "ln_phase l = LWait \<Longrightarrow> ln_errc l = e # es \<Longrightarrow>
    lstep l LReceive (l\<lparr>ln_phase := LReturned (shutdown_result e), ln_errc := es\<rparr>)"

inductive_cases lstepE: "lstep l a l'"

inductive lsteps :: "listener \<Rightarrow> laction list \<Rightarrow> listener \<Rightarrow> bool" where
  none: "lsteps l [] l"
| more: "lstep l a l' \<Longrightarrow> lsteps l' as l'' \<Longrightarrow> lsteps l (a # as) l''"

section \<open>The standalone metrics listener and the main one\<close>

record MetricsServer =
  ms_listener :: listener
  ms_addr :: string
  ms_path :: string

definition NewMetricsServer :: "HTTP \<Rightarrow> string \<Rightarrow> MetricsServer" where
  "NewMetricsServer cfg addr = \<lparr>ms_listener = listener_new cfg, ms_addr = addr, ms_path = HTTP_MetricsPath cfg\<rparr>"

text \<open>The pattern its mux mounts, and \<open>Run\<close> up to the \<open>select\<close> of \<open>serve\<close>.\<close>

definition metrics_pattern :: "MetricsServer \<Rightarrow> string" where
  "metrics_pattern m = ''GET '' @ ms_path m"

definition MetricsServer_Run :: "(string \<Rightarrow> string + string) \<Rightarrow> MetricsServer \<Rightarrow> listener" where
  "MetricsServer_Run listen m = serve listen (ms_addr m) (ms_listener m)"

definition Server_Run :: "(string \<Rightarrow> string + string) \<Rightarrow> HTTP \<Rightarrow> listener" where
  "Server_Run listen cfg = serve listen (HTTP_Addr cfg) (listener_new cfg)"

section \<open>Returning\<close>

text \<open>The shutdown ran out of time with requests in flight: it was logged.\<close>

definition cut_off :: "listener \<Rightarrow> bool" where
  "cut_off l \<longleftrightarrow> list_ex (\<lambda>(lvl, msg, as). msg = ''http shutdown'') (ln_log l)"

definition serve_inv :: "listener \<Rightarrow> bool" where
  "serve_inv l \<longleftrightarrow>
     (ln_closed l \<longrightarrow> ln_ctx l) \<and>
     (case ln_phase l of
        LServing \<Rightarrow> \<not> ln_closed l \<and> (if ln_serving l then ln_errc l = [] else \<exists>e. ln_errc l = [e] \<and> e \<noteq> ErrServerClosed)
      | LShutdown \<Rightarrow> ln_closed l \<and> (if ln_serving l then ln_errc l = [] else \<exists>e. ln_errc l = [e])
      | LWait \<Rightarrow> ln_closed l \<and> (if ln_serving l then ln_errc l = [] else \<exists>e. ln_errc l = [e]) \<and> (ln_active l = 0 \<or> cut_off l)
      | LReturned None \<Rightarrow> ln_closed l \<and> \<not> ln_serving l \<and> (ln_active l = 0 \<or> cut_off l)
      | LReturned (Some e) \<Rightarrow> e \<noteq> ErrServerClosed \<and> \<not> ln_serving l)"

lemma serve_inv_start: "serve_inv (serve listen addr (listener_new cfg))"
  by (simp add: serve_inv_def serve_def listener_new_def split: sum.split)

lemma serve_inv_step: "lstep l a l' \<Longrightarrow> serve_inv l \<Longrightarrow> serve_inv l'"
  by (induction rule: lstep.induct)
    (auto simp: serve_inv_def shutdown_call_def shutdown_return_def shutdown_result_def cut_off_def
      split: lphase.splits option.splits if_splits)

lemma serve_inv_steps: "lsteps l as l' \<Longrightarrow> serve_inv l \<Longrightarrow> serve_inv l'"
  by (induction rule: lsteps.induct) (auto dest: serve_inv_step)

text \<open>The steps a listener still takes on its own once its context has ended.\<close>

fun own :: "laction \<Rightarrow> bool" where
  "own (LServeEnds e) \<longleftrightarrow> True"
| "own LSelectErr \<longleftrightarrow> True"
| "own LSelectCtx \<longleftrightarrow> True"
| "own (LShutdownReturns r) \<longleftrightarrow> True"
| "own LReceive \<longleftrightarrow> True"
| "own x \<longleftrightarrow> False"

definition left_to_do :: "listener \<Rightarrow> nat" where
  "left_to_do l = (case ln_phase l of LServing \<Rightarrow> 3 | LShutdown \<Rightarrow> 2 | LWait \<Rightarrow> 1 | LReturned r \<Rightarrow> 0) + of_bool (ln_serving l)"

lemma left_to_do_step: "lstep l a l' \<Longrightarrow> left_to_do l' \<le> left_to_do l \<and> (own a \<longrightarrow> left_to_do l' < left_to_do l)"
  by (induction rule: lstep.induct)
    (auto simp: left_to_do_def shutdown_call_def shutdown_return_def split: lphase.splits option.splits)

lemma own_steps_bound: "lsteps l as l' \<Longrightarrow> length (filter own as) + left_to_do l' \<le> left_to_do l"
proof (induction rule: lsteps.induct)
  case (more l a l' as l'')
  with left_to_do_step [OF more(1)] show ?case by auto
qed simp

lemma own_enabled:
  assumes "serve_inv l" "ln_ctx l" "\<forall>r. ln_phase l \<noteq> LReturned r"
  shows "\<exists>a l'. own a \<and> lstep l a l'"
proof (cases "ln_phase l")
  case LServing
  with assms show ?thesis by (intro exI [of _ LSelectCtx]) (auto intro: lstep.select_ctx)
next
  case LShutdown
  then show ?thesis
    by (intro exI [of _ "LShutdownReturns (Some ''context deadline exceeded'')"]) (auto intro: lstep.shutdown_returns)
next
  case LWait
  with assms(1) have c: "ln_closed l" "if ln_serving l then ln_errc l = [] else \<exists>e. ln_errc l = [e]"
    by (simp_all add: serve_inv_def)
  show ?thesis
  proof (cases "ln_serving l")
    case True
    with c show ?thesis by (intro exI [of _ "LServeEnds ErrServerClosed"]) (auto intro: lstep.serve_ends)
  next
    case False
    with c LWait show ?thesis by (intro exI [of _ LReceive]) (auto intro: lstep.receive)
  qed
qed (use assms in simp)

lemma serve_error_from:
  "lsteps l as l' \<Longrightarrow> ln_phase l' = LReturned (Some e) \<Longrightarrow>
   ln_phase l = LReturned (Some e) \<or> e \<in> set (ln_errc l) \<or> LServeEnds e \<in> set as"
proof (induction rule: lsteps.induct)
  case (more l a l' as l'')
  from more(1) have "ln_phase l' = LReturned (Some e) \<Longrightarrow> ln_phase l = LReturned (Some e) \<or> e \<in> set (ln_errc l)"
    by (induction rule: lstep.induct)
      (auto simp: shutdown_call_def shutdown_return_def shutdown_result_def split: option.splits if_splits)
  moreover from more(1) have "e \<in> set (ln_errc l') \<Longrightarrow> e \<in> set (ln_errc l) \<or> a = LServeEnds e"
    by (induction rule: lstep.induct) (auto simp: shutdown_call_def shutdown_return_def split: option.splits)
  ultimately show ?case using more by auto
qed simp

lemma closed_step: "lstep l a l' \<Longrightarrow> ln_closed l \<Longrightarrow> ln_closed l' \<and> ln_active l' \<le> ln_active l"
  by (induction rule: lstep.induct) (auto simp: shutdown_call_def shutdown_return_def split: option.split)

lemma closed_steps: "lsteps l as l' \<Longrightarrow> ln_closed l \<Longrightarrow> ln_active l' \<le> ln_active l"
  by (induction rule: lsteps.induct) (auto dest: closed_step)

lemma serve_start_errc: "ln_errc (serve listen addr (listener_new cfg)) = []"
  by (simp add: serve_def listener_new_def split: sum.split)

text \<open>What \<open>serve\<close> returns.  Nil only after its context has ended, with the server closed
  for good and either no request left in flight or the cut-off logged; an error only when
  the address could not be bound or an accept failed, and never \<open>ErrServerClosed\<close>.\<close>

theorem serve_result:
  assumes "lsteps (serve listen addr (listener_new cfg)) as l" "ln_phase l = LReturned r"
  shows "case r of
      None \<Rightarrow> ln_ctx l \<and> \<not> ln_serving l \<and> (ln_active l = 0 \<or> cut_off l) \<and>
        (\<forall>bs l'. lsteps l bs l' \<longrightarrow> ln_active l' \<le> ln_active l)
    | Some e \<Rightarrow> e \<noteq> ErrServerClosed \<and>
        ((\<exists>msg. listen addr = Inl msg \<and> e = SrvError msg) \<or> LServeEnds e \<in> set as)"
proof -
  have inv: "serve_inv l" using serve_inv_steps [OF assms(1) serve_inv_start] .
  show ?thesis
  proof (cases r)
    case None
    with inv assms(2) have "ln_closed l" "ln_ctx l" "\<not> ln_serving l" "ln_active l = 0 \<or> cut_off l"
      by (auto simp: serve_inv_def)
    with None closed_steps show ?thesis by auto
  next
    case (Some e)
    have "ln_phase (serve listen addr (listener_new cfg)) = LReturned (Some e) \<Longrightarrow> \<exists>msg. listen addr = Inl msg \<and> e = SrvError msg"
      by (auto simp: serve_def listener_new_def split: sum.splits)
    with serve_error_from [OF assms(1)] assms(2) Some serve_start_errc inv show ?thesis
      by (auto simp: serve_inv_def)
  qed
qed

text \<open>A listener stops.  Whatever the requests do, it takes at most four steps of its own,
  and once its context has ended it is never stuck before it has returned.\<close>

theorem serve_stops:
  assumes "lsteps (serve listen addr (listener_new cfg)) as l"
  shows "length (filter own as) \<le> 4 \<and>
    (ln_ctx l \<longrightarrow> (\<forall>a l'. own a \<longrightarrow> \<not> lstep l a l') \<longrightarrow> (\<exists>r. ln_phase l = LReturned r))"
proof -
  have "left_to_do (serve listen addr (listener_new cfg)) \<le> 4"
    by (simp add: left_to_do_def serve_def listener_new_def split: sum.split)
  with own_steps_bound [OF assms] own_enabled [OF serve_inv_steps [OF assms serve_inv_start]]
  show ?thesis by fastforce
qed

text \<open>A clean stop with one request, which ends before the shutdown returns.\<close>

definition stopped :: "HTTP \<Rightarrow> listener" where
  "stopped cfg = (serve Inr '':0'' (listener_new cfg))\<lparr>ln_phase := LReturned None, ln_serving := False,
     ln_closed := True, ln_ctx := True\<rparr>"

lemma stopped_run:
  "lsteps (serve Inr '':0'' (listener_new cfg))
     [LRequest, LCtx, LSelectCtx, LResponse, LShutdownReturns None, LServeEnds ErrServerClosed, LReceive] (stopped cfg)"
proof -
  note d = serve_def listener_new_def shutdown_call_def shutdown_return_def shutdown_result_def stopped_def
  show ?thesis
    by (rule lsteps.more [OF lstep.request], simp add: d, simp add: d,
        rule lsteps.more [OF lstep.ctx], rule lsteps.more [OF lstep.select_ctx], simp add: d, simp,
        rule lsteps.more [OF lstep.response], simp add: d,
        rule lsteps.more [OF lstep.shutdown_returns], simp add: d, simp add: d,
        rule lsteps.more [OF lstep.serve_ends [where e = ErrServerClosed]], simp add: d, simp add: d,
        rule lsteps.more [OF lstep.receive], simp add: d, simp add: d, simp add: d lsteps.none)
qed

lemma serve_result_witness:
  "ln_ctx (stopped (cfg_HTTP (bareConfig []))) \<and> ln_active (stopped (cfg_HTTP (bareConfig []))) = 0"
  using serve_result [OF stopped_run [of "cfg_HTTP (bareConfig [])"], of None] by (auto simp: stopped_def serve_def listener_new_def cut_off_def)

lemma serve_stops_witness:
  "length (filter own [LRequest, LCtx, LSelectCtx, LResponse, LShutdownReturns None, LServeEnds ErrServerClosed, LReceive]) \<le> 4"
  using serve_stops [OF stopped_run [of "cfg_HTTP (bareConfig [])"]] by blast

end
