(* ===== verification/PoolTypes.thy ===== *)
theory PoolTypes
  imports PoolExits
begin

text \<open>
  The integers of a pool stay integers of the machine.  The model computes with unbounded
  integers where the code adds and subtracts \<open>int\<close> and \<open>time.Duration\<close>; here every such
  value the pool stores, logs or reports is shown to lie in the 64-bit range, so that no
  operation of the code wraps where the model does not.
\<close>

fun attr_typed :: "attr \<Rightarrow> bool" where
  "attr_typed (AInt n) \<longleftrightarrow> in_int64 n"
| "attr_typed (ADur d) \<longleftrightarrow> in_int64 d"
| "attr_typed _ \<longleftrightarrow> True"

fun mevent_typed :: "mevent \<Rightarrow> bool" where
  "mevent_typed (MExit p r c d) \<longleftrightarrow> in_int64 d"
| "mevent_typed (MTasks p n) \<longleftrightarrow> in_int64 n"
| "mevent_typed _ \<longleftrightarrow> True"

definition attrs_typed :: "attrs \<Rightarrow> bool" where
  "attrs_typed as \<longleftrightarrow> list_all (\<lambda>(k, v). attr_typed v) as"

definition log_typed :: "logline list \<Rightarrow> bool" where
  "log_typed ls \<longleftrightarrow> list_all (\<lambda>(l, m, as). attrs_typed as) ls"

definition record_typed :: "exitRecord \<Rightarrow> bool" where
  "record_typed r \<longleftrightarrow> in_int64 (er_pid r) \<and> in_int64 (Exit_Code (er_exit r)) \<and> in_int64 (er_running r) \<and>
     in_int64 (er_duration r) \<and> in_int64 (er_tasks r)"

fun phase_typed :: "phase \<Rightarrow> bool" where
  "phase_typed (Ended e r) \<longleftrightarrow> in_int64 (Exit_Code e)"
| "phase_typed (Stamped e r t) \<longleftrightarrow> in_int64 (Exit_Code e)"
| "phase_typed (RecordedExit x) \<longleftrightarrow> record_typed x"
| "phase_typed (ReportedExit x) \<longleftrightarrow> record_typed x"
| "phase_typed _ \<longleftrightarrow> True"

definition worker_typed :: "worker \<Rightarrow> bool" where
  "worker_typed w \<longleftrightarrow> in_int64 (w_pid w) \<and> phase_typed (w_phase w)"

text \<open>The inputs: a decoded config, process ids, and what a step brings in.\<close>

definition cfg_typed :: "PoolConfig \<Rightarrow> bool" where
  "cfg_typed c \<longleftrightarrow> list_all in_int64 [pc_Concurrency c, pc_ExitFailureThreshold c, pc_ExitFailureWindow c,
     pc_ExitCooldown c, pc_ExitCooldownMax c, pc_TTL c, pc_PokeCount c, pc_GraceShutdown c]"

definition env_typed :: "env \<Rightarrow> bool" where
  "env_typed E \<longleftrightarrow> (\<forall>k spec. case env_spawn E k spec of Inl e \<Rightarrow> True | Inr pid \<Rightarrow> in_int64 pid)"

fun action_typed :: "action \<Rightarrow> bool" where
  "action_typed (AHint src n) \<longleftrightarrow> in_int64 n"
| "action_typed (ADone i e) \<longleftrightarrow> in_int64 (Exit_Code e)"
| "action_typed (ATerminated i e) \<longleftrightarrow> in_int64 (Exit_Code e)"
| "action_typed _ \<longleftrightarrow> True"

text \<open>\<open>k\<close> bounds the breaker level, which each step raises by at most one.\<close>

definition typed :: "nat \<Rightarrow> pool_sys \<Rightarrow> bool" where
  "typed k s \<longleftrightarrow> k < 2 ^ 63 \<and> cfg_typed (p_cfg s) \<and> same_settings (newBreaker (p_cfg s)) (p_breaker s) \<and>
     br_level (p_breaker s) \<le> k \<and> log_typed (s_log s) \<and> list_all mevent_typed (s_metrics s) \<and>
     list_all worker_typed (s_workers s) \<and> in_int64 (p_lastExitCode s) \<and> in_int64 (p_lastTasks s)"

lemma typed_mono: "typed k s \<Longrightarrow> k \<le> l \<Longrightarrow> l < 2 ^ 63 \<Longrightarrow> typed l s"
  by (simp add: typed_def)

lemma attrs_typed_simps [simp]:
  "attrs_typed []" "attrs_typed ((k, v) # as) \<longleftrightarrow> attr_typed v \<and> attrs_typed as"
  "attrs_typed (as @ bs) \<longleftrightarrow> attrs_typed as \<and> attrs_typed bs"
  by (simp_all add: attrs_typed_def)

lemma typed_plog: "typed k s \<Longrightarrow> attrs_typed as \<Longrightarrow> typed k (plog l m as s)"
  by (simp add: typed_def plog_def log_typed_def)

lemma typed_pmetric: "typed k s \<Longrightarrow> mevent_typed e \<Longrightarrow> typed k (pmetric e s)"
  by (simp add: typed_def pmetric_def)

lemma typed_update [simp]:
  "typed k (s\<lparr>p_running := r\<rparr>) = typed k s" "typed k (s\<lparr>p_reapers := r\<rparr>) = typed k s"
  "typed k (s\<lparr>s_spawns := n\<rparr>) = typed k s" "typed k (s\<lparr>s_reads := n\<rparr>) = typed k s"
  "typed k (s\<lparr>p_lastHint := t\<rparr>) = typed k s" "typed k (s\<lparr>p_lastExit := t\<rparr>) = typed k s" "typed k (s\<lparr>p_bg := r\<rparr>) = typed k s"
  "typed k (s\<lparr>p_stopping := b\<rparr>) = typed k s" "typed k (s\<lparr>p_stop := b\<rparr>) = typed k s"
  by (simp_all add: typed_def)

lemma typed_breaker:
  "typed k s \<Longrightarrow> same_settings (p_breaker s) b \<Longrightarrow> br_level b \<le> l \<Longrightarrow> k \<le> l \<Longrightarrow> l < 2 ^ 63 \<Longrightarrow> typed l (s\<lparr>p_breaker := b\<rparr>)"
  by (simp add: typed_def)

lemma typed_workers:
  "typed k s \<Longrightarrow> list_all worker_typed ws \<Longrightarrow> typed k (s\<lparr>s_workers := ws\<rparr>)"
  by (simp add: typed_def)

lemma in_int64_0 [simp]: "in_int64 0"
  by (simp add: int64_defs)

lemma f64_to_int64_range: "in_int64 (f64_to_int64 x)"
  by (cases x) (auto simp: int64_defs)

lemma nextCooldown_range: "in_int64 (maxCooldown b) \<Longrightarrow> in_int64 (nextCooldown b)"
  by (simp add: nextCooldown_def Let_def f64_to_int64_range)

lemma parseTasks_range: "in_int64 (fst (parseTasks l))"
  by (auto simp: parseTasks_def atoi_in_int64 split: option.split)

lemma failure_level: "br_level (snd (breaker_failure b t)) \<le> Suc (br_level b)"
  using br_level_decay_le [of b t] by (auto simp: breaker_failure_def Let_def intro: le_SucI)

lemma typed_failureLocked:
  assumes "typed k s" "attr_typed cause" "Suc k < 2 ^ 63"
  shows "typed (Suc k) (failureLocked E key cause s)"
proof -
  define now where "now = env_now E (s_reads s)"
  define t where "t = s\<lparr>s_reads := Suc (s_reads s)\<rparr>"
  obtain d tripped b where f: "breaker_failure (p_breaker s) now = ((d, tripped), b)" by (metis surj_pair)
  have b: "same_settings (p_breaker s) b" "br_level b \<le> Suc k"
    using same_settings_failure [of "p_breaker s" now] failure_level [of "p_breaker s" now] f assms(1)
    by (auto simp: typed_def)
  have u: "typed (Suc k) (t\<lparr>p_breaker := b\<rparr>)"
    using typed_breaker [of k t b "Suc k"] assms(1,3) b by (simp add: t_def)
  have ints: "in_int64 (threshold b)" "in_int64 (window b)" "in_int64 (int (br_level b))"
    using b assms(1,3) by (auto simp: typed_def cfg_typed_def newBreaker_def int64_defs)
  have "in_int64 d"
  proof -
    have "in_int64 (maxCooldown (p_breaker s))" using assms(1) by (simp add: typed_def cfg_typed_def newBreaker_def)
    then show ?thesis using f
      by (auto simp: breaker_failure_def Let_def nextCooldown_range split: if_splits)
  qed
  with u ints assms(2) f have
    "typed (Suc k) (plog Error ''breaker_trip''
       [(''failures'', AInt (threshold b)), (''window'', ADur (window b)), (''cooldown'', ADur d),
        (''breaker_level'', AInt (int (br_level b))), (''open_until'', ATime (openUntil b)), (key, cause)]
       (pmetric (MTrip (pc_Name (p_cfg s))) (t\<lparr>p_breaker := b\<rparr>)))"
    by (intro typed_plog typed_pmetric) simp_all
  with u f show ?thesis
    by (simp add: failureLocked_def clock_now_def Let_def now_def t_def)
qed

lemma typed_spawnLocked:
  assumes "typed k s" "env_typed E" "in_int64 (p_running s + 1)" "Suc k < 2 ^ 63"
  shows "typed (if fst (spawnLocked E src s) then k else Suc k) (snd (spawnLocked E src s))"
proof (cases "env_spawn E (s_spawns s) (pool_spec (p_cfg s))")
  case (Inl err)
  have "typed k (pmetric (MSpawnError (pc_Name (p_cfg s)))
      (plog Error ''spawn_error'' [(''source'', AStr src), (''err'', AErr err)] (s\<lparr>s_spawns := Suc (s_spawns s)\<rparr>)))"
    using assms(1) by (intro typed_plog typed_pmetric) simp_all
  from typed_failureLocked [OF this, of "AErr err" E "''err''"] assms(4) Inl show ?thesis
    by (simp add: spawnLocked_def Let_def)
next
  case (Inr pid)
  have pid: "in_int64 pid" using assms(2) Inr unfolding env_typed_def by (metis sum.case(2))
  let ?t = "plog Info ''spawn'' [(''pid'', AInt pid), (''source'', AStr src), (''running'', AInt (p_running s + 1))]
      (pmetric (MSpawn (pc_Name (p_cfg s))) (s\<lparr>s_spawns := Suc (s_spawns s), p_running := p_running s + 1\<rparr>))"
  have t: "typed k ?t" using assms(1,3) pid by (intro typed_plog typed_pmetric) simp_all
  then have "list_all worker_typed (s_workers ?t @ [\<lparr>w_pid = pid, w_started = now, w_ttl = ttl, w_phase = Waiting\<rparr>])" for now ttl
    using pid by (simp add: typed_def worker_typed_def)
  from typed_workers [OF t this] show ?thesis
    using Inr by (simp add: spawnLocked_def Let_def clock_now_def typed_def)
qed

lemma typed_spawn_loop:
  "typed k s \<Longrightarrow> env_typed E \<Longrightarrow> 0 \<le> p_running s \<Longrightarrow> in_int64 (p_running s + int n) \<Longrightarrow> Suc k < 2 ^ 63 \<Longrightarrow>
   typed (Suc k) (snd (spawn_loop E src n s))"
proof (induction n arbitrary: s)
  case 0
  then show ?case by (simp add: typed_mono)
next
  case (Suc n)
  obtain r t where st: "spawnLocked E src s = (r, t)" by fastforce
  have one: "in_int64 (p_running s + 1)" using Suc.prems(3,4) by (simp add: int64_defs)
  have t: "typed (if r then k else Suc k) t" using typed_spawnLocked [OF Suc.prems(1,2) one Suc.prems(5), of src] st by simp
  show ?case
  proof (cases "answer E s 0")
    case (Inl err)
    with spawnLocked_Inl(1) [OF Inl, of src] st t show ?thesis by simp
  next
    case (Inr pid)
    from spawnLocked_Inr [OF this, of src] st have r: "r" "p_running t = p_running s + 1" by (simp_all add: core_def)
    with Suc.IH [of t] Suc.prems t st show ?thesis by (simp add: add.assoc split_beta)
  qed
qed

lemma typed_Hint:
  assumes "typed k s" "env_typed E" "pool_inv s" "in_int64 n" "Suc k < 2 ^ 63"
  shows "typed (Suc k) (snd (pool_Hint E src n s))"
proof (cases "p_stopping s")
  case True
  have "typed (Suc k) s" using typed_mono assms(1,5) by simp
  then have "typed (Suc k) (pmetric (MDrop src (pc_Name (p_cfg s)) ''shutdown'')
      (plog Debug ''drop'' [(''reason'', AStr ''shutdown''), (''source'', AStr src),
        (''channel'', AStr (pc_Channel (p_cfg s))), (''count'', AInt n)] s))"
    using assms(4) by (intro typed_plog typed_pmetric) simp_all
  with True show ?thesis by (simp add: pool_Hint_def Let_def)
next
  case False
  define now where "now = env_now E (s_reads s)"
  define t where "t = pmetric (MHint src (pc_Name (p_cfg s))) (s\<lparr>s_reads := Suc (s_reads s), p_lastHint := now\<rparr>)"
  obtain op b where o: "breaker_open (p_breaker t) now = (op, b)" by fastforce
  have "typed k t" unfolding t_def using assms(1) by (intro typed_pmetric) simp_all
  moreover have "same_settings (p_breaker t) b" "br_level b \<le> br_level (p_breaker t)"
    using o br_level_decay_le [of "p_breaker t" now] by (auto simp: breaker_open_def Let_def)
  ultimately have u: "typed k (t\<lparr>p_breaker := b\<rparr>)"
    using assms(5) by (intro typed_breaker [of k]) (auto simp: typed_def)
  have eq: "pool_Hint E src n s =
      (if op then (0, pmetric (MDrop src (pc_Name (p_cfg s)) ''exit_cooldown'')
         (plog Debug ''drop'' [(''reason'', AStr ''exit_cooldown''), (''source'', AStr src),
           (''channel'', AStr (pc_Channel (p_cfg s))), (''count'', AInt n), (''open_until'', ATime (openUntil b))]
           (t\<lparr>p_breaker := b\<rparr>)))
       else case spawn_loop E src (nat (min n (pc_Concurrency (p_cfg s) - p_running s))) (t\<lparr>p_breaker := b\<rparr>) of
         (k, s) \<Rightarrow> (int k, s))"
    using False o by (simp add: pool_Hint_def clock_now_def Let_def t_def now_def)
  have run: "0 \<le> p_running s" "in_int64 (p_running s + int (nat (min n (pc_Concurrency (p_cfg s) - p_running s))))"
  proof -
    show "0 \<le> p_running s" using assms(3) by (simp add: pool_inv_def)
    moreover have "p_running s \<le> max 0 (pc_Concurrency (p_cfg s))" using assms(3) by (simp add: pool_inv_def)
    moreover have "in_int64 (pc_Concurrency (p_cfg s))" using assms(1) by (simp add: typed_def cfg_typed_def)
    ultimately show "in_int64 (p_running s + int (nat (min n (pc_Concurrency (p_cfg s) - p_running s))))"
      by (auto simp: int64_defs)
  qed
  have loop: "typed (Suc k) (snd (spawn_loop E src (nat (min n (pc_Concurrency (p_cfg s) - p_running s))) (t\<lparr>p_breaker := b\<rparr>)))"
    using typed_spawn_loop [OF u assms(2) _ _ assms(5)] run by (simp add: t_def)
  have "typed (Suc k) (t\<lparr>p_breaker := b\<rparr>)" using typed_mono [OF u] assms(5) by simp
  then have "typed (Suc k) (pmetric (MDrop src (pc_Name (p_cfg s)) ''exit_cooldown'')
         (plog Debug ''drop'' [(''reason'', AStr ''exit_cooldown''), (''source'', AStr src),
           (''channel'', AStr (pc_Channel (p_cfg s))), (''count'', AInt n), (''open_until'', ATime (openUntil b))]
           (t\<lparr>p_breaker := b\<rparr>)))"
    using assms(4) by (intro typed_plog typed_pmetric) simp_all
  with loop eq show ?thesis by (simp add: split_beta)
qed

text \<open>The steps of a reaper.\<close>

lemma typed_set_phase:
  "typed k s \<Longrightarrow> phase_typed ph \<Longrightarrow> i < length (s_workers s) \<Longrightarrow> typed k (set_phase i ph s)"
  unfolding set_phase_def
  by (rule typed_workers) (auto simp: typed_def worker_typed_def list_all_length nth_list_update)

lemma typed_leave_wait:
  "typed k s \<Longrightarrow> in_int64 (Exit_Code e) \<Longrightarrow> i < length (s_workers s) \<Longrightarrow> typed k (leave_wait i e r s)"
  unfolding leave_wait_def
  by (rule typed_workers) (auto simp: typed_def worker_typed_def list_all_length nth_list_update)

lemma typed_worker: "typed k s \<Longrightarrow> i < length (s_workers s) \<Longrightarrow> worker_typed (s_workers s ! i)"
  by (simp add: typed_def list_all_length)

lemma typed_cfg: "typed k s \<Longrightarrow> cfg_typed (p_cfg s)"
  by (simp add: typed_def)

lemma typed_kill:
  assumes "typed k s" "i < length (s_workers s)"
  shows "typed k (wait_ttl i s)" "typed k (wait_stop i s)"
proof -
  have "in_int64 (w_pid (s_workers s ! i))" using typed_worker [OF assms] by (simp add: worker_typed_def)
  then show "typed k (wait_ttl i s)" "typed k (wait_stop i s)"
    using assms typed_cfg [OF assms(1)]
    by (auto simp: wait_ttl_def wait_stop_def Let_def cfg_typed_def intro!: typed_set_phase typed_pmetric typed_plog)
qed

lemma typed_recordExit:
  assumes "typed k s" "pool_inv s" "record_typed r" "Suc k < 2 ^ 63" "0 < p_running s"
  shows "typed (Suc k) (snd (recordExit E r t s))" "in_int64 (snd (fst (recordExit E r t s)))"
proof -
  let ?a = "s\<lparr>p_running := p_running s - 1, p_lastExit := t, p_lastExitCode := Exit_Code (er_exit r)\<rparr>"
  let ?b = "if er_hasTasks r then ?a\<lparr>p_lastTasks := er_tasks r, p_hasLastTasks := True\<rparr> else ?a"
  have b: "typed k ?b" using assms(1,3) by (auto simp: typed_def record_typed_def)
  have ok: "typed (Suc k) (?b\<lparr>p_breaker := breaker_ok (p_breaker ?b) t\<rparr>)"
  proof -
    have "br_level (breaker_ok (p_breaker ?b) t) \<le> br_level (p_breaker ?b)"
      using br_level_decay_le [of "p_breaker ?b" t] by (auto simp: breaker_ok_def Let_def)
    with b assms(4) same_settings_ok [of "p_breaker ?b" t] show ?thesis
      by (intro typed_breaker [OF b]) (auto simp: typed_def)
  qed
  have fail: "typed (Suc k) (failureLocked E ''code'' (AInt (Exit_Code (er_exit r))) ?b)"
    using typed_failureLocked [OF b _ assms(4)] assms(3) by (simp add: record_typed_def)
  have same: "typed (Suc k) ?b" using typed_mono [OF b] assms(4) by simp
  show "typed (Suc k) (snd (recordExit E r t s))"
    unfolding recordExit_def Let_def using ok fail same by (auto split: if_splits)
  have "p_running (snd (recordExit E r t s)) = p_running s - 1"
    using recordExit_core(1) [of E r t s] core_eqD by blast
  moreover have "snd (fst (recordExit E r t s)) = p_running (snd (recordExit E r t s))"
    by (simp add: recordExit_def Let_def)
  moreover have "p_running s \<le> max 0 (pc_Concurrency (p_cfg s))" "in_int64 (pc_Concurrency (p_cfg s))"
    using assms(1,2) by (auto simp: pool_inv_def typed_def cfg_typed_def)
  ultimately show "in_int64 (snd (fst (recordExit E r t s)))" using assms(5) by (simp add: int64_defs max_def split: if_splits)
qed

lemma typed_reap_record:
  assumes "typed k s" "pool_inv s" "is_at s i (Stamped e r t)" "Suc k < 2 ^ 63"
  shows "typed (Suc k) (reap_record E i e r t s)"
proof -
  define x where "x = exit_record (s_workers s ! i) e r"
  have i: "i < length (s_workers s)" "worker_typed (s_workers s ! i)" "live (s_workers s ! i)"
    using assms(1,3) typed_worker [of k s i] by (auto simp: is_at_def live_def)
  then have x: "record_typed x"
    using assms(3) parseTasks_range [of "Exit_Result e"]
    by (auto simp: x_def exit_record_def record_typed_def worker_typed_def is_at_def split: prod.split)
  have "filter live (s_workers s) \<noteq> []" using i by (auto simp: filter_empty_conv)
  then have run: "0 < p_running s" using assms(2) by (simp add: pool_inv_def)
  obtain q n u where u: "recordExit E x t s = ((q, n), u)" by (metis surj_pair)
  have w: "s_workers u = s_workers s" using recordExit_core(1) [of E x t s] u core_eqD by fastforce
  have "typed (Suc k) u" "in_int64 n" using typed_recordExit [OF assms(1,2) x assms(4) run, of E t] u by simp_all
  then have "typed (Suc k) (set_phase i (RecordedExit (x\<lparr>er_result := q, er_running := n,
      er_duration := time_sub t (w_started (s_workers s ! i))\<rparr>)) u)"
    using x w i(1) by (intro typed_set_phase) (simp_all add: record_typed_def time_sub_range)
  with u show ?thesis by (simp add: reap_record_def Let_def flip: x_def)
qed

lemma typed_report:
  assumes "typed k s" "is_at s i (RecordedExit r)"
  shows "typed k (reap_report i r s)"
proof -
  have i: "i < length (s_workers s)" using assms(2) by (simp add: is_at_def)
  have r: "record_typed r" using typed_worker [OF assms(1) i] assms(2) by (simp add: worker_typed_def is_at_def)
  then have as: "attrs_typed (exit_attrs r)"
    by (auto simp: exit_attrs_def record_typed_def split: option.split)
  let ?a = "pmetric (MExit (pc_Name (p_cfg s)) (er_result r) (exitCode (er_exit r) (er_killReason r)) (er_duration r)) s"
  let ?b = "if er_hasTasks r then pmetric (MTasks (pc_Name (p_cfg s)) (er_tasks r)) ?a else ?a"
  have "typed k ?b" using assms(1) r by (auto simp: record_typed_def intro!: typed_pmetric)
  then have "typed k (logExit r ?b)"
    using as r by (auto simp: logExit_def Let_def record_typed_def intro!: typed_plog)
  then have "typed k (set_phase i (ReportedExit r) (logExit r ?b))"
    using r i by (intro typed_set_phase) (simp_all add: logExit_def Let_def)
  then show ?thesis by (simp add: reap_report_def Let_def)
qed

lemma typed_chain:
  assumes "typed k s" "pool_inv s" "env_typed E" "is_at s i (ReportedExit r)" "Suc k < 2 ^ 63"
  shows "typed (Suc k) (reap_chain E i r s)"
proof -
  have i: "i < length (s_workers s)" using assms(4) by (simp add: is_at_def)
  have "record_typed r" using typed_worker [OF assms(1) i] assms(4) by (simp add: worker_typed_def is_at_def)
  then have "typed (Suc k) (chained E r s)"
    using typed_Hint [OF assms(1,3,2) _ assms(5)] typed_mono [OF assms(1)] assms(5)
    by (auto simp: chained_def record_typed_def)
  moreover obtain l where "started s l (chained E r s)" using chained_started by blast
  then have "i < length (s_workers (chained E r s))" using started_nth i by blast
  ultimately show ?thesis unfolding reap_chain_chained by (intro typed_set_phase) simp_all
qed

lemma typed_Stats:
  assumes "typed k s"
  shows "typed k (snd (pool_Stats E s))"
proof -
  define now where "now = env_now E (s_reads s)"
  obtain op b where o: "breaker_open (p_breaker s) now = (op, b)" by fastforce
  then have "same_settings (p_breaker s) b" "br_level b \<le> k"
    using br_level_decay_le [of "p_breaker s" now] assms by (auto simp: breaker_open_def Let_def typed_def)
  then have "typed k (s\<lparr>s_reads := Suc (s_reads s)\<rparr>\<lparr>p_breaker := b\<rparr>)"
    using assms by (intro typed_breaker [of k]) (auto simp: typed_def)
  with o show ?thesis by (simp add: pool_Stats_def clock_now_def Let_def now_def)
qed

lemma typed_step:
  assumes "pool_step E s a s'" "typed k s" "pool_inv s" "env_typed E" "action_typed a" "Suc k < 2 ^ 63"
  shows "typed (Suc k) s'"
  using assms
proof (induction rule: pool_step.induct)
  case (poke s w c)
  have "in_int64 (pc_PokeCount (p_cfg s))" using typed_cfg [OF poke(4)] by (simp add: cfg_typed_def)
  then have H: "typed (Suc k) (snd (pool_Hint E SourcePoke (pc_PokeCount (p_cfg s)) s))"
    using typed_Hint poke by blast
  obtain n t where h: "pool_Hint E SourcePoke (pc_PokeCount (p_cfg s)) s = (n, t)" by fastforce
  have "n = int (hint_grants E s (pc_PokeCount (p_cfg s)))" using pool_Hint_started [of s E "pc_PokeCount (p_cfg s)" SourcePoke] h by simp
  then have "0 \<le> n" "n \<le> max 0 (pc_PokeCount (p_cfg s))"
    using hint_grants_room [of E s "pc_PokeCount (p_cfg s)"]
    by (cases "hint_grants E s (pc_PokeCount (p_cfg s)) = 0"; auto)+
  then have "in_int64 n" using \<open>in_int64 (pc_PokeCount (p_cfg s))\<close> by (auto simp: int64_defs)
  moreover have "p_cfg t = p_cfg s" using pool_Hint_started [of s E "pc_PokeCount (p_cfg s)" SourcePoke] h
    by (auto simp: started_def dest!: core_eqD)
  ultimately show ?case
    using H h typed_mono [OF poke(4)] poke \<open>in_int64 (pc_PokeCount (p_cfg s))\<close>
    by (auto simp: poke_round_def intro!: typed_plog)
next
  case (shutdown s)
  have "in_int64 (p_running s)"
    using shutdown by (auto simp: pool_inv_def typed_def cfg_typed_def int64_defs)
  then show ?case using typed_mono [OF shutdown(1)] shutdown
    by (auto simp: Shutdown_begin_def intro!: typed_plog)
next
  case (start s)
  then show ?case using typed_mono [OF start(1)] by (simp add: pool_Start_def)
next
  case (stats s)
  then show ?case using typed_mono [OF typed_Stats [OF stats(1)]] by simp
next
  case (worker_done s i e)
  then show ?case using typed_mono [of k s "Suc k"] by (auto simp: wait_done_def is_at_def intro!: typed_leave_wait)
next
  case (worker_ttl s i)
  then show ?case using typed_mono [of k s "Suc k"] by (auto simp: is_at_def intro!: typed_kill)
next
  case (worker_stop s i)
  then show ?case using typed_mono [of k s "Suc k"] by (auto simp: is_at_def intro!: typed_kill)
next
  case (terminated s i r e)
  then show ?case using typed_mono [of k s "Suc k"] by (auto simp: is_at_def intro!: typed_leave_wait)
next
  case (stamp s i e r)
  then have "in_int64 (Exit_Code e)" using typed_worker [OF stamp(2), of i] by (simp add: is_at_def worker_typed_def)
  then show ?case using stamp typed_mono [of k s "Suc k"]
    by (auto simp: reap_stamp_def clock_now_def is_at_def intro!: typed_set_phase)
next
  case (report s i r)
  then show ?case using typed_mono [OF typed_report [OF report(2,1)]] by simp
qed (auto intro: typed_Hint typed_reap_record typed_chain)

lemma typed_steps:
  "pool_steps E s as s' \<Longrightarrow> typed k s \<Longrightarrow> pool_inv s \<Longrightarrow> env_typed E \<Longrightarrow> list_all action_typed as \<Longrightarrow>
   k + length as < 2 ^ 63 \<Longrightarrow> typed (k + length as) s'"
proof (induction arbitrary: k rule: pool_steps.induct)
  case (more s a s' as s'')
  from more.IH [OF typed_step [OF more(1,4,5,6)] pool_inv_step [OF more(1,5)] more(6)] more(7,8)
  show ?case by simp
qed simp

lemma typed_New: "cfg_typed cfg \<Longrightarrow> typed 0 (pool_New cfg)"
  by (simp add: typed_def pool_New_def newBreaker_def log_typed_def)

text \<open>C28: the integers of a pool are integers of the machine.  With a config, process ids,
  hint counts and exit codes in the 64-bit range, after any run of fewer than
  \<open>2 ^ 63\<close> steps every integer and duration the pool has logged or counted, its slots, its
  last exit code and task count, and everything a snapshot shows are in that range: the
  arithmetic of the code never wraps.\<close>

theorem integers_never_wrap:
  assumes "cfg_typed cfg" "env_typed E" "pool_steps E (pool_New cfg) as s" "list_all action_typed as" "length as < 2 ^ 63"
  shows "log_typed (s_log s) \<and> list_all mevent_typed (s_metrics s) \<and> list_all worker_typed (s_workers s) \<and>
    (let st = fst (pool_Stats E s) in list_all in_int64
       [st_Running st, st_Concurrency st, st_LastExitCode st, st_LastTasks st, st_BreakerLevel st])"
proof -
  have t: "typed (length as) s"
    using typed_steps [OF assms(3) typed_New [OF assms(1)] pool_inv_New assms(2,4)] assms(5) by simp
  have inv: "pool_inv s" using pool_inv_steps [OF assms(3) pool_inv_New] .
  have level: "in_int64 (int (br_level (p_breaker s)))" using t by (simp add: typed_def int64_defs)
  have "in_int64 (p_running s)" using inv t
    by (simp add: pool_inv_def typed_def cfg_typed_def int64_defs max_def split: if_splits)
  then show ?thesis
    using t level by (simp add: typed_def cfg_typed_def pool_Stats_def clock_now_def Let_def split_beta)
qed

definition one_pid :: env where
  "one_pid = demo_env\<lparr>env_spawn := \<lambda>_ _. Inr 100\<rparr>"

lemma integers_never_wrap_witness:
  "list_all mevent_typed (s_metrics (snd (pool_Hint one_pid SourceHTTP 5 (pool_New demo_cfg))))"
proof -
  have "cfg_typed demo_cfg"
    by (simp add: cfg_typed_def demo_cfg_def builtinPool_def duration_units int64_defs)
  moreover have "env_typed one_pid" by (simp add: env_typed_def one_pid_def int64_defs)
  moreover have "list_all action_typed [AHint SourceHTTP 5]" by (simp add: int64_defs)
  ultimately show ?thesis using integers_never_wrap [OF _ _ pool_steps_one [OF pool_step.hint]] by simp
qed

end
