(* ===== verification/Registry.thy ===== *)
theory Registry
  imports Metrics App
begin

text \<open>
  \<open>metrics.New\<close>: the families the registry holds, the pool collector of \<open>collector.go\<close>, the
  series that exist from the start, and how the counters account for the workers.  Of the
  prometheus client \<open>BuildFQName\<close> is the argument \<open>fq\<close> and the families of the go and process
  collectors are the argument \<open>lib\<close>.  \<open>MustRegister\<close> is documented to panic when two families
  have the same full name or a name is not valid, a vector when it names a label twice or by an
  invalid name, or is given a label value that is not UTF-8, and a histogram when its
  buckets are not increasing or a label is called \<open>le\<close>.  Which names are valid depends on the
  naming scheme of the client; the classic names, \<open>classic_name\<close>, are valid in all of them.
\<close>

section \<open>The families\<close>

text \<open>\<open>prometheus.CounterOpts\<close>, \<open>GaugeOpts\<close> and \<open>HistogramOpts\<close> with the label names.\<close>

record mopts =
  mo_Namespace :: string
  mo_Name :: string
  mo_Help :: string
  mo_Labels :: "string list"
  mo_Buckets :: "f64 list"

definition family :: "string \<Rightarrow> string \<Rightarrow> string \<Rightarrow> string list \<Rightarrow> mopts" where
  "family ns name help labels =
     \<lparr>mo_Namespace = ns, mo_Name = name, mo_Help = help, mo_Labels = labels, mo_Buckets = []\<rparr>"

definition durationBuckets :: "f64 list" where
  "durationBuckets = map to_f64 [1/10, 1/2, 1, 5/2, 5, 10, 30, 60, 300, 900, 3600]"

fun vec_opts :: "string \<Rightarrow> vec \<Rightarrow> mopts" where
  "vec_opts ns VSpawns = family ns ''spawns_total'' ''Workers started.'' [''pool'']"
| "vec_opts ns VSpawnErrors = family ns ''spawn_errors_total''
     ''Spawn attempts that failed to start a process.'' [''pool'']"
| "vec_opts ns VExits = family ns ''exits_total''
     ''Workers reaped, by result (ok|failure|killed) and code (exit code, signal name, or ttl|shutdown when killed).''
     [''pool'', ''result'', ''code'']"
| "vec_opts ns VKills = family ns ''kills_total''
     ''Workers terminated by doorbell, by reason (ttl|shutdown).'' [''pool'', ''reason'']"
| "vec_opts ns VDuration = (family ns ''process_duration_seconds''
     ''Worker lifetime from spawn to reap.'' [''pool'', ''result''])\<lparr>mo_Buckets := durationBuckets\<rparr>"
| "vec_opts ns VTrips = family ns ''cooldown_trips_total'' ''Times the failure breaker opened.'' [''pool'']"
| "vec_opts ns VHints = family ns ''hints_total''
     ''Hints that reached a pool, by source (redis|http|poke|worker).'' [''source'', ''pool'']"
| "vec_opts ns VDrops = family ns ''dropped_hints_total''
     ''Hints dropped, by reason (exit_cooldown|unknown_pool|disabled|bad_payload|shutdown); pool is empty when unknown.''
     [''source'', ''pool'', ''reason'']"
| "vec_opts ns VTasks = family ns ''tasks_processed_total'' ''Tasks workers reported processing on exit.'' [''pool'']"

definition redisConnected_opts :: "string \<Rightarrow> mopts" where
  "redisConnected_opts ns = family ns ''redis_connected'' ''1 while the redis subscription is confirmed.'' []"

definition redisReconnects_opts :: "string \<Rightarrow> mopts" where
  "redisReconnects_opts ns = family ns ''redis_reconnects_total'' ''Reconnect attempts after a lost redis session.'' []"

definition buildInfo_opts :: "string \<Rightarrow> mopts" where
  "buildInfo_opts ns = family ns ''build_info'' ''Always 1, carries the version label.'' [''version'']"

text \<open>\<open>newPoolCollector\<close>: the descriptors of the pool gauges; \<open>Describe\<close> sends them.\<close>

fun pool_desc :: "(string \<Rightarrow> string \<Rightarrow> string \<Rightarrow> string) \<Rightarrow> string \<Rightarrow> desc \<Rightarrow> string \<times> string \<times> string list" where
  "pool_desc fq ns DRunning = (fq ns '''' ''running'', ''Workers alive right now.'', [''pool''])"
| "pool_desc fq ns DConcurrency = (fq ns '''' ''concurrency'', ''Configured maximum workers.'', [''pool''])"
| "pool_desc fq ns DLastHint = (fq ns '''' ''last_hint_timestamp'', ''Unix time of the last hint, 0 if none yet.'', [''pool''])"
| "pool_desc fq ns DLastExit =
     (fq ns '''' ''last_exit_timestamp'', ''Unix time of the last reaped exit, 0 if none yet.'', [''pool''])"
| "pool_desc fq ns DActive = (fq ns '''' ''cooldown_active'', ''1 while the failure breaker is open.'', [''pool''])"
| "pool_desc fq ns DLevel =
     (fq ns '''' ''cooldown_level'', ''Consecutive breaker trips, resets after a quiet period.'', [''pool''])"
| "pool_desc fq ns DOpenUntil =
     (fq ns '''' ''cooldown_open_until_timestamp'', ''Unix time the breaker closes, 0 when closed.'', [''pool''])"

definition Describe :: "desc list" where
  "Describe = [DRunning, DConcurrency, DLastHint, DLastExit, DActive, DLevel, DOpenUntil]"

section \<open>New\<close>

datatype lib = GoCollector | ProcessCollector

datatype collector = CFamily mopts | CPools string | CLib lib

text \<open>\<open>stats\<close> is the snapshot function of the collector; the one of a nil \<open>stats\<close> reports no
  pool.  \<open>calls\<close> is what has been called on the vectors.\<close>

record metrics =
  mt_registered :: "collector list"
  mt_build_info :: "(string \<times> f64) list"
  mt_calls :: "pcall list"
  mt_stats :: "Stats gmap"

definition metrics_New :: "MetricsCfg \<Rightarrow> string \<Rightarrow> string list \<Rightarrow> Stats gmap option \<Rightarrow> metrics" where
  "metrics_New cfg version pools stats =
     (let ns = Metrics_Namespace cfg
      in \<lparr>mt_registered =
            map CFamily (buildInfo_opts ns #
              map (vec_opts ns) [VSpawns, VSpawnErrors, VExits, VKills, VDuration, VTrips, VHints, VDrops, VTasks] @
              [redisConnected_opts ns, redisReconnects_opts ns]) @
            [CPools ns, CLib GoCollector, CLib ProcessCollector],
          mt_build_info = [(version, Fin 1)],
          mt_calls = concat (map metrics_init pools),
          mt_stats = (case stats of None \<Rightarrow> [] | Some st \<Rightarrow> st)\<rparr>)"

text \<open>What \<open>app.New\<close> builds, with metrics enabled.\<close>

definition app_metrics :: "Config \<Rightarrow> string \<Rightarrow> Stats gmap \<Rightarrow> metrics option" where
  "app_metrics cfg version stats =
     (if Metrics_IsEnabled (cfg_Metrics cfg)
      then Some (metrics_New (cfg_Metrics cfg) version (fst (enabledPools (ResolvedPools cfg))) (Some stats))
      else None)"

text \<open>The full names a collector registers.\<close>

fun full_names :: "(string \<Rightarrow> string \<Rightarrow> string \<Rightarrow> string) \<Rightarrow> (lib \<Rightarrow> string list) \<Rightarrow> collector \<Rightarrow> string list" where
  "full_names fq lib (CFamily o1) = [fq (mo_Namespace o1) '''' (mo_Name o1)]"
| "full_names fq lib (CPools ns) = map (\<lambda>d. fst (pool_desc fq ns d)) Describe"
| "full_names fq lib (CLib l) = lib l"

fun increasing :: "f64 list \<Rightarrow> bool" where
  "increasing (x # y # zs) \<longleftrightarrow> f64_less x y \<and> increasing (y # zs)"
| "increasing _ \<longleftrightarrow> True"

text \<open>Letters, digits, underscores and colons, no digit first; a label has no colon and does not
  begin with two underscores.\<close>

definition name_char :: "char \<Rightarrow> bool" where
  "name_char c \<longleftrightarrow> alnum c \<or> c = CHR ''_'' \<or> c = CHR '':''"

definition classic_name :: "string \<Rightarrow> bool" where
  "classic_name s \<longleftrightarrow> s \<noteq> [] \<and> hd s \<notin> set ''0123456789'' \<and> list_all name_char s"

definition label_name :: "string \<Rightarrow> bool" where
  "label_name s \<longleftrightarrow> classic_name s \<and> CHR '':'' \<notin> set s \<and> take 2 s \<noteq> ''__''"

fun collector_ok :: "collector \<Rightarrow> bool" where
  "collector_ok (CFamily o1) \<longleftrightarrow> distinct (mo_Labels o1) \<and> list_all label_name (mo_Labels o1) \<and>
     increasing (mo_Buckets o1) \<and> (mo_Buckets o1 \<noteq> [] \<longrightarrow> ''le'' \<notin> set (mo_Labels o1))"
| "collector_ok (CPools ns) \<longleftrightarrow> list_all label_name (concat (map (\<lambda>d. snd (snd (pool_desc (\<lambda>a b c. c) ns d))) Describe))"
| "collector_ok (CLib l) \<longleftrightarrow> True"

text \<open>The label values of a call.\<close>

fun call_values :: "pcall \<Rightarrow> string list" where
  "call_values (PWith v ls) = ls"
| "call_values (PInc v ls) = ls"
| "call_values (PAdd v ls x) = ls"
| "call_values (PObserve v ls x) = ls"
| "call_values (PSetConnected n) = []"
| "call_values PIncReconnects = []"

text \<open>The documented naming of the client: \<open>BuildFQName\<close> joins the parts that are not empty,
  the library collectors name their families after themselves.\<close>

definition first_part :: "string \<Rightarrow> string" where
  "first_part name = takeWhile (\<lambda>c. c \<noteq> CHR ''_'') name"

definition fq_law :: "(string \<Rightarrow> string \<Rightarrow> string \<Rightarrow> string) \<Rightarrow> bool" where
  "fq_law fq \<longleftrightarrow> (\<forall>ns name. ns \<noteq> [] \<longrightarrow> name \<noteq> [] \<longrightarrow> fq ns '''' name = ns @ ''_'' @ name)"

definition lib_law :: "(lib \<Rightarrow> string list) \<Rightarrow> bool" where
  "lib_law lib \<longleftrightarrow> distinct (lib GoCollector) \<and> distinct (lib ProcessCollector) \<and>
     list_all (\<lambda>n. first_part n = ''go'') (lib GoCollector) \<and>
     list_all (\<lambda>n. first_part n = ''process'') (lib ProcessCollector)"

lemma first_part_full: "first_part (ns @ CHR ''_'' # x) = first_part ns"
  by (induction ns) (simp_all add: first_part_def)

lemma own_names:
  assumes "fq_law fq" "Metrics_Namespace cfg = ns" "ns \<noteq> []"
  shows "concat (map (full_names fq lib) (mt_registered (metrics_New cfg version pools stats))) =
    map (\<lambda>x. ns @ ''_'' @ x)
      [''build_info'', ''spawns_total'', ''spawn_errors_total'', ''exits_total'', ''kills_total'',
       ''process_duration_seconds'', ''cooldown_trips_total'', ''hints_total'', ''dropped_hints_total'',
       ''tasks_processed_total'', ''redis_connected'', ''redis_reconnects_total'', ''running'', ''concurrency'',
       ''last_hint_timestamp'', ''last_exit_timestamp'', ''cooldown_active'', ''cooldown_level'',
       ''cooldown_open_until_timestamp''] @ lib GoCollector @ lib ProcessCollector"
  using assms by (simp add: metrics_New_def fq_law_def family_def Describe_def buildInfo_opts_def
      redisConnected_opts_def redisReconnects_opts_def)

text \<open>The buckets: all but the first are doubles exactly, the first rounds to at most 1/4.\<close>

lemma to_f64_halves:
  assumes "0 \<le> n" "n \<le> 2 ^ 52"
  shows "to_f64 (of_int n / 2) = Fin (of_int n / 2)"
proof (rule to_f64_exact)
  have half: "of_int n / 2 = of_int n * pow2 (- 1)" by (simp add: pow2_minus pow2_def)
  show "representable (of_int n / 2)" unfolding half by (rule representable_scaled) (use assms in simp_all)
  have "(of_int n :: rat) \<le> of_int (2 ^ 52)" using assms by (simp only: of_int_le_iff)
  then show "(of_int n :: rat) / 2 < 2 ^ 1024" by simp
qed (use assms in simp)

lemma to_f64_tenth: "\<exists>x \<le> 1 / 4. to_f64 (1 / 10) = Fin x"
proof -
  have "representable (1 / 4)" using representable_pow2 [of "- 2"] by (simp add: pow2_minus pow2_def)
  then have "round53 (1 / 10) \<le> 1 / 4" by (intro round53_le) simp_all
  then show ?thesis by (rule_tac to_f64_nonneg_cases [of "1 / 10"]) simp_all
qed

lemma durationBuckets_increasing: "increasing durationBuckets"
proof -
  obtain x where "x \<le> 1 / 4" "to_f64 (1 / 10) = Fin x" using to_f64_tenth by blast
  then show ?thesis
    using to_f64_halves [of 1] to_f64_halves [of 2] to_f64_halves [of 5] to_f64_halves [of 10] to_f64_halves [of 20]
      to_f64_halves [of 60] to_f64_halves [of 120] to_f64_halves [of 600] to_f64_halves [of 1800] to_f64_halves [of 7200]
    by (simp add: durationBuckets_def)
qed

lemma label_names: "list_all label_name [''pool'', ''result'', ''code'', ''reason'', ''source'', ''version'']"
  by (simp add: label_name_def classic_name_def name_char_def alnum_def)

lemma registered_ok: "list_all collector_ok (mt_registered (metrics_New cfg version pools stats))"
  using durationBuckets_increasing label_names
  by (simp add: metrics_New_def family_def buildInfo_opts_def redisConnected_opts_def redisReconnects_opts_def Describe_def Let_def)

text \<open>Names below a classic namespace are classic.\<close>

lemma classic_below: "classic_name ns \<Longrightarrow> list_all name_char x \<Longrightarrow> classic_name (ns @ CHR ''_'' # x)"
  by (auto simp: classic_name_def name_char_def)

lemma own_names_classic:
  assumes "fq_law fq" "classic_name (Metrics_Namespace cfg)"
  shows "list_all classic_name (concat (map (full_names fq (\<lambda>_. [])) (mt_registered (metrics_New cfg version pools stats))))"
proof -
  have ns: "Metrics_Namespace cfg \<noteq> []" using assms(2) by (simp add: classic_name_def)
  have "list_all (\<lambda>x. list_all name_char x)
      [''build_info'', ''spawns_total'', ''spawn_errors_total'', ''exits_total'', ''kills_total'',
       ''process_duration_seconds'', ''cooldown_trips_total'', ''hints_total'', ''dropped_hints_total'',
       ''tasks_processed_total'', ''redis_connected'', ''redis_reconnects_total'', ''running'', ''concurrency'',
       ''last_hint_timestamp'', ''last_exit_timestamp'', ''cooldown_active'', ''cooldown_level'',
       ''cooldown_open_until_timestamp'']"
    by (simp add: name_char_def alnum_def)
  then show ?thesis
    unfolding own_names [OF assms(1) refl ns] using classic_below [OF assms(2)] by (simp add: list_all_iff)
qed

text \<open>Label values: the pool names of a parsed document and the constants of \<open>init\<close> are ASCII.\<close>

lemma ascii_utf8: "list_all (\<lambda>c. byte c < 0x80) s \<Longrightarrow> valid_utf8 s"
  by (induction s) (simp_all add: valid_utf8_def runes_ascii)

lemma poolName_utf8: "poolName s \<Longrightarrow> valid_utf8 s"
proof (rule ascii_utf8)
  show "poolName s \<Longrightarrow> list_all (\<lambda>c. byte c < 0x80) s"
    by (auto simp: poolName_def list_all_iff alnum_def split: list.splits)
qed

lemma Parse_poolNames:
  assumes "Parse yaml src = Inr c"
  shows "list_all poolName (map fst (cfg_Pools c))"
proof -
  have "checkPoolNames x = Inr c \<Longrightarrow> list_all poolName (map fst (cfg_Pools c))" for x
    by (auto simp: checkPoolNames_def find_None_iff list_all_iff split: option.splits)
  with assms show ?thesis by (auto simp: Parse_def splitDefaults_def split: sum.splits option.splits if_splits)
qed

lemma init_values_utf8: "valid_utf8 p \<Longrightarrow> list_all (list_all valid_utf8 \<circ> call_values) (metrics_init p)"
proof -
  have "list_all valid_utf8 [KillTTL, KillShutdown, ''ok'', ''failure'', ''killed'', ''exit_cooldown'', SourceRedis,
      SourceHTTP, SourcePoke, SourceWorker]"
    by (simp add: ascii_utf8 kill_reasons SourceRedis_def SourceHTTP_def SourcePoke_def SourceWorker_def)
  then show "valid_utf8 p \<Longrightarrow> list_all (list_all valid_utf8 \<circ> call_values) (metrics_init p)"
    by (simp add: metrics_init_def)
qed

lemma enabledPools_names: "set (fst (enabledPools cfgs)) \<subseteq> pc_Name ` set cfgs"
  by (auto simp: enabledPools_eq)

text \<open>C29: registering the metrics runs into none of the client's documented panics.  For every
  parsed and finalized document with metrics enabled, whose namespace is a classic metric
  name that does not begin like the names of the two library collectors, and a version that
  is UTF-8, all families have different and valid full names, no vector names a label twice
  or by an invalid name, the histogram's buckets increase and its labels avoid \<open>le\<close>, every
  gauge a scrape sends was described, and the series \<open>init\<close> creates fit their vectors and
  have UTF-8 values.\<close>

theorem registration_never_panics:
  assumes "Parse yaml src = Inr c0" "Finalize c0 = Inr c" "app_metrics c version stats = Some m" "fq_law fq" "lib_law lib"
    and "classic_name (Metrics_Namespace (cfg_Metrics c))" "valid_utf8 version"
    and "first_part (Metrics_Namespace (cfg_Metrics c)) \<notin> {''go'', ''process''}"
  shows "distinct (concat (map (full_names fq lib) (mt_registered m))) \<and>
    list_all classic_name (concat (map (full_names fq (\<lambda>_. [])) (mt_registered m))) \<and>
    list_all collector_ok (mt_registered m) \<and> list_all (\<lambda>(v, x). valid_utf8 v) (mt_build_info m) \<and>
    list_all call_ok (mt_calls m) \<and> list_all (list_all valid_utf8 \<circ> call_values) (mt_calls m) \<and>
    map fst (pool_gauges st) = Describe"
proof -
  let ?ns = "Metrics_Namespace (cfg_Metrics c)"
  from assms(3) have m: "m = metrics_New (cfg_Metrics c) version (fst (enabledPools (ResolvedPools c))) (Some stats)"
    by (auto simp: app_metrics_def split: if_splits)
  have ns: "?ns \<noteq> []" using assms(6) by (simp add: classic_name_def)
  have other: "n \<notin> set (lib l)" if "first_part n = first_part ?ns" for n l
    using that assms(5,8) by (cases l) (auto simp: lib_law_def list_all_iff)
  have apart: "set (lib GoCollector) \<inter> set (lib ProcessCollector) = {}"
    using assms(5) by (auto simp: lib_law_def list_all_iff)
  have dist: "distinct (map (\<lambda>x. ?ns @ ''_'' @ x) xs @ lib GoCollector @ lib ProcessCollector)"
    if "distinct xs" for xs
    using that assms(5) apart other by (auto simp: distinct_map inj_on_def lib_law_def first_part_full)
  have "distinct (concat (map (full_names fq lib) (mt_registered m)))"
    unfolding m own_names [OF assms(4) refl ns] by (rule dist) simp
  moreover have "list_all call_ok (mt_calls m)"
    using metrics_init_ok by (auto simp: m metrics_New_def Let_def list_all_iff)
  moreover have "list_all (list_all valid_utf8 \<circ> call_values) (mt_calls m)"
  proof -
    have "set (map fst (cfg_Pools c)) = set (map fst (cfg_Pools c0))"
      using assms(2) by (auto simp: Finalize_Inr_iff applyDefaults_def)
    moreover have "pc_Name ` set (ResolvedPools c) = set (map fst (cfg_Pools c))"
      using arg_cong [OF ResolvedPools_names [of c], of set] by simp
    moreover have "list_all poolName (map fst (cfg_Pools c0))"
      by (rule Parse_poolNames [OF assms(1)])
    ultimately have "list_all poolName (fst (enabledPools (ResolvedPools c)))"
      using enabledPools_names [of "ResolvedPools c"] by (auto simp: list_all_iff)
    then show ?thesis using init_values_utf8 poolName_utf8 by (auto simp: m metrics_New_def Let_def list_all_iff)
  qed
  moreover have "list_all (\<lambda>(v, x). valid_utf8 v) (mt_build_info m)" using assms(7) by (simp add: m metrics_New_def Let_def)
  ultimately show ?thesis
    using registered_ok own_names_classic [OF assms(4,6)] by (simp add: m pool_gauges_def Describe_def)
qed

lemma registration_never_panics_witness:
  "\<exists>m. app_metrics two_pools ''dev'' [] = Some m \<and>
     distinct (concat (map (full_names (\<lambda>ns sub name. ns @ ''_'' @ name)
       (\<lambda>l. if l = GoCollector then [''go_goroutines''] else [''process_open_fds''])) (mt_registered m)))"
proof -
  let ?fq = "\<lambda>ns sub name. ns @ ''_'' @ name"
  let ?lib = "\<lambda>l. if l = GoCollector then [''go_goroutines''] else [''process_open_fds'']"
  have parsed: "Parse (\<lambda>_. Inr two_pools) src = Inr two_pools" for src
    by (simp add: Parse_def splitDefaults_def checkPoolNames_def two_pools_def applyDefaults_def bareConfig_def
        poolName_def alnum_def DefaultsKey_def)
  have c: "Metrics_IsEnabled (cfg_Metrics two_pools)" "Metrics_Namespace (cfg_Metrics two_pools) = ''doorbell''"
    by (simp_all add: two_pools_def applyDefaults_def bareConfig_def Metrics_IsEnabled_def setStr_def setBool_def DefaultMetricsNamespace_def go_defs Let_def)
  then obtain m where m: "app_metrics two_pools ''dev'' [] = Some m" by (simp add: app_metrics_def)
  have "fq_law ?fq" "lib_law ?lib" "classic_name (Metrics_Namespace (cfg_Metrics two_pools))" "valid_utf8 ''dev''"
    "first_part (Metrics_Namespace (cfg_Metrics two_pools)) \<notin> {''go'', ''process''}"
    using c by (simp_all add: fq_law_def lib_law_def first_part_def classic_name_def name_char_def alnum_def ascii_utf8)
  from registration_never_panics [OF parsed two_pools_finalized m this] m show ?thesis by blast
qed

section \<open>The counters\<close>

text \<open>How often one series of a vector was incremented, and a whole vector for one pool; the
  label \<open>pool\<close> comes first in both.\<close>

definition series :: "vec \<Rightarrow> string list \<Rightarrow> pcall list \<Rightarrow> nat" where
  "series v labels calls = length (filter (\<lambda>c. c = PInc v labels) calls)"

definition total :: "vec \<Rightarrow> string \<Rightarrow> pcall list \<Rightarrow> nat" where
  "total v p calls = length (filter (\<lambda>c. case c of PInc w ls \<Rightarrow> w = v \<and> ls \<noteq> [] \<and> hd ls = p | _ \<Rightarrow> False) calls)"

definition exported :: "pool_sys \<Rightarrow> pcall list" where
  "exported s = concat (map metric_calls (s_metrics s))"

lemma count_events:
  assumes "list_all (event_ok name) es"
  shows "series VSpawns [name] (concat (map metric_calls es)) = length (filter (\<lambda>e. case e of MSpawn _ \<Rightarrow> True | _ \<Rightarrow> False) es)"
    and "total VExits name (concat (map metric_calls es)) = length (filter (\<lambda>e. case e of MExit _ _ _ _ \<Rightarrow> True | _ \<Rightarrow> False) es)"
  using assms
proof (induction es)
  case (Cons e es)
  case 1
  with Cons show ?case by (cases e) (auto simp: series_def)
next
  case (Cons e es)
  case 2
  with Cons show ?case by (cases e) (auto simp: total_def)
qed (simp_all add: series_def total_def)

text \<open>C31: the scraped counters account for the workers.  In every reachable state
  \<open>spawns_total\<close> of the pool minus all its \<open>exits_total\<close> series is its \<open>running\<close> gauge, up to
  the workers whose recorded exit is about to be counted, and every call carries the
  pool's own name.\<close>

theorem counters_account:
  assumes "reachable E cfg s"
  shows "int (series VSpawns [pc_Name cfg] (exported s)) =
      int (total VExits (pc_Name cfg) (exported s)) + st_Running (fst (pool_Stats E s)) +
      int (length (filter (\<lambda>w. \<exists>r. w_phase w = RecordedExit r) (s_workers s))) \<and>
    list_all (\<lambda>e. event_pool e = pc_Name cfg) (s_metrics s)"
proof -
  have ev: "list_all (event_ok (pc_Name cfg)) (s_metrics s)"
    using tasks_inv_reachable [OF assms] cfg_reachable [OF assms] by (simp add: tasks_inv_def)
  then have "list_all (\<lambda>e. event_pool e = pc_Name cfg) (s_metrics s)"
    by (auto simp: list_all_iff event_ok_def)
  moreover have "st_Running (fst (pool_Stats E s)) = p_running s"
    by (simp add: pool_Stats_def clock_now_def Let_def split: prod.split)
  ultimately show ?thesis
    using count_events [OF ev] spawns_account_for_exits [OF assms] by (simp add: exported_def event_defs)
qed

lemma counters_account_witness:
  "int (series VSpawns [pc_Name demo_cfg] (exported demo_pool)) \<ge> st_Running (fst (pool_Stats demo_env demo_pool))"
  using counters_account [OF demo_reachable] by linarith

end
