(* ===== verification/RedisSession.thy ===== *)
theory RedisSession
  imports RedisIn Paths
begin

text \<open>
  \<open>internal/redisin/source.go\<close> as it runs: \<open>Run\<close> with its sessions, the goroutine
  \<open>closeOnCancel\<close> of the current session, and the context, as a step relation.  \<open>RedisIn\<close>
  describes the same loop by what it received; here the order of the steps is the
  scheduler's, and the two are shown to agree.  Of the client the model has that \<open>Receive\<close>
  may deliver anything or fail at any time, and fails once its subscription is closed.
\<close>

section \<open>The client options\<close>

record redis_Options =
  opt_Addr :: string
  opt_Username :: string
  opt_Password :: string
  opt_DB :: gint
  opt_DialTimeout :: duration
  opt_MaxRetries :: gint
  opt_TLSMinVersion :: "gint option"

definition VersionTLS12 :: gint where
  "VersionTLS12 = 0x0303"

definition redis_options :: "Redis \<Rightarrow> redis_Options" where
  "redis_options cfg =
     (let opt = \<lparr>opt_Addr = Redis_Addr cfg, opt_Username = Redis_Username cfg, opt_Password = Redis_Password cfg,
          opt_DB = Redis_DB cfg, opt_DialTimeout = Redis_DialTimeout cfg, opt_MaxRetries = - 1, opt_TLSMinVersion = None\<rparr>
      in if Redis_TLS cfg then opt\<lparr>opt_TLSMinVersion := Some VersionTLS12\<rparr> else opt)"

section \<open>The state\<close>

text \<open>Where \<open>Run\<close> is: in \<open>Receive\<close>, in the \<open>select\<close> of \<open>forward\<close>, in the \<open>select\<close> of the wait
  after a session that ended with an error, or back.\<close>

datatype rphase = PReceive | PForward string string | PWaitRetry string | PReturned

text \<open>\<open>closed\<close> and \<open>closer\<close> belong to the current session: its subscription was closed, its
  \<open>closeOnCancel\<close> is still waiting.  An earlier one can only close an earlier subscription
  again.  \<open>msgs\<close>, \<open>turns\<close> and \<open>waits\<close> record what happened.\<close>

record rsys =
  rs_phase :: rphase
  rs_backoff :: duration
  rs_subscribed :: bool
  rs_out :: redis_out
  rs_ctx :: bool
  rs_closed :: bool
  rs_closer :: bool
  rs_msgs :: "rmsg list"
  rs_turns :: "turn list"
  rs_waits :: "duration list"

definition rsys_start :: "Redis \<Rightarrow> rsys" where
  "rsys_start cfg = \<lparr>rs_phase = PReceive, rs_backoff = Redis_ReconnectMin cfg, rs_subscribed = False, rs_out = ro_empty,
     rs_ctx = False, rs_closed = False, rs_closer = True, rs_msgs = [], rs_turns = [], rs_waits = []\<rparr>"

text \<open>The session handles one message.\<close>

definition handle_msg :: "Redis \<Rightarrow> rmsg \<Rightarrow> rsys \<Rightarrow> rsys" where
  "handle_msg cfg m s =
     (case session_loop cfg [m] (rs_subscribed s) (rs_out s) of (subscribed, o1) \<Rightarrow>
      s\<lparr>rs_phase := PReceive, rs_subscribed := subscribed, rs_out := o1, rs_msgs := rs_msgs s @ [m]\<rparr>)"

text \<open>\<open>Receive\<close> failed: the deferred calls of \<open>session\<close>, then \<open>Run\<close> up to its \<open>select\<close>.\<close>

definition turn_of :: "rsys \<Rightarrow> string \<Rightarrow> bool \<Rightarrow> bool \<Rightarrow> turn" where
  "turn_of s e ended ended_wait =
     \<lparr>tn_msgs = rs_msgs s, tn_err = e, tn_ended = ended, tn_ended_wait = ended_wait\<rparr>"

lemma turn_of_update [simp]:
  "turn_of (s\<lparr>rs_closed := b, rs_closer := c\<rparr>) = turn_of s" "turn_of (s\<lparr>rs_ctx := b\<rparr>) = turn_of s"
  by (simp_all add: turn_of_def fun_eq_iff)

definition session_end :: "Redis \<Rightarrow> string \<Rightarrow> rsys \<Rightarrow> rsys" where
  "session_end cfg e s =
     (let o1 = rmetric_add (RConnected False) (rs_out s)
      in if rs_ctx s
         then s\<lparr>rs_phase := PReturned, rs_out := o1, rs_closed := True, rs_turns := rs_turns s @ [turn_of s e True False]\<rparr>
         else let backoff = (if rs_subscribed s then Redis_ReconnectMin cfg else rs_backoff s)
              in s\<lparr>rs_phase := PWaitRetry e, rs_backoff := backoff, rs_closed := True,
                   rs_out := rlog Warn ''redis connection lost, reconnecting''
                     [(''err'', AErr e), (''retry_in'', ADur backoff)] o1,
                   rs_waits := rs_waits s @ [backoff]\<rparr>)"

text \<open>The timer fired: the next backoff and the next session.\<close>

definition reconnect :: "Redis \<Rightarrow> string \<Rightarrow> rsys \<Rightarrow> rsys" where
  "reconnect cfg e s =
     s\<lparr>rs_phase := PReceive, rs_backoff := min (wrap64 (rs_backoff s * 2)) (Redis_ReconnectMax cfg),
       rs_out := rmetric_add RReconnect (rs_out s), rs_subscribed := False, rs_closed := False, rs_closer := True,
       rs_msgs := [], rs_turns := rs_turns s @ [turn_of s e False False]\<rparr>"

text \<open>What \<open>forward\<close> blocks on: a message it turns into a hint.\<close>

definition forwards :: "Redis \<Rightarrow> string \<Rightarrow> string \<Rightarrow> bool" where
  "forwards cfg chan payload \<longleftrightarrow> snd (cut_prefix chan (Redis_ChannelPrefix cfg)) \<and>
     (case parseCount payload of Inl e \<Rightarrow> False | Inr n \<Rightarrow> True)"

datatype raction =
    RRecv rmsg | RRecvMessage string string | RForwarded bool | RNetErr string | RClosedErr string
  | RWaitCtx | RWaitOver | RCloser | RCtx | RIdle

inductive rstep :: "Redis \<Rightarrow> rsys \<Rightarrow> raction \<Rightarrow> rsys \<Rightarrow> bool" for cfg where
  recv: "rs_phase s = PReceive \<Longrightarrow> \<not> rs_closed s \<Longrightarrow> m = RSubscription pat \<or> m = ROther \<Longrightarrow>
    rstep cfg s (RRecv m) (handle_msg cfg m s)"
| recv_message: "rs_phase s = PReceive \<Longrightarrow> \<not> rs_closed s \<Longrightarrow>
    rstep cfg s (RRecvMessage chan payload) (s\<lparr>rs_phase := PForward chan payload\<rparr>)"
| forwarded: "rs_phase s = PForward chan payload \<Longrightarrow>
    (if forwards cfg chan payload then sent \<or> rs_ctx s else \<not> sent) \<Longrightarrow>
    rstep cfg s (RForwarded sent) (handle_msg cfg (RMessage chan payload sent) s)"
| net_err: "rs_phase s = PReceive \<Longrightarrow> rstep cfg s (RNetErr e) (session_end cfg e s)"
| closed_err: "rs_phase s = PReceive \<Longrightarrow> rs_closed s \<Longrightarrow> rstep cfg s (RClosedErr e) (session_end cfg e s)"
| wait_ctx: "rs_phase s = PWaitRetry e \<Longrightarrow> rs_ctx s \<Longrightarrow>
    rstep cfg s RWaitCtx (s\<lparr>rs_phase := PReturned, rs_turns := rs_turns s @ [turn_of s e False True]\<rparr>)"
| wait_over: "rs_phase s = PWaitRetry e \<Longrightarrow> rstep cfg s RWaitOver (reconnect cfg e s)"
| closer: "rs_closer s \<Longrightarrow> rs_ctx s \<Longrightarrow> rstep cfg s RCloser (s\<lparr>rs_closed := True, rs_closer := False\<rparr>)"
| ctx: "rstep cfg s RCtx (s\<lparr>rs_ctx := True\<rparr>)"
| idle: "rstep cfg s RIdle s"

inductive_cases rstepE: "rstep cfg s x s'"

inductive rsteps :: "Redis \<Rightarrow> rsys \<Rightarrow> raction list \<Rightarrow> rsys \<Rightarrow> bool" for cfg where
  none: "rsteps cfg s [] s"
| more: "rstep cfg s x t \<Longrightarrow> rsteps cfg t xs s' \<Longrightarrow> rsteps cfg s (x # xs) s'"

section \<open>The steps do what the loop does\<close>

lemma session_loop_append:
  "session_loop cfg (ms @ ms') b o1 = (case session_loop cfg ms b o1 of (b', o2) \<Rightarrow> session_loop cfg ms' b' o2)"
  by (induction cfg ms b o1 rule: session_loop.induct) auto

text \<open>The waits, the backoff and the output after turns that all reconnected.\<close>

fun run_cont :: "Redis \<Rightarrow> turn list \<Rightarrow> duration \<Rightarrow> redis_out \<Rightarrow> duration list \<times> duration \<times> redis_out" where
  "run_cont cfg [] backoff o1 = ([], backoff, o1)"
| "run_cont cfg (t # ts) backoff o1 =
     (case session cfg (tn_msgs t) o1 of (subscribed, o1) \<Rightarrow>
      let backoff = (if subscribed then Redis_ReconnectMin cfg else backoff);
          o1 = rlog Warn ''redis connection lost, reconnecting'' [(''err'', AErr (tn_err t)), (''retry_in'', ADur backoff)] o1
      in case run_cont cfg ts (min (wrap64 (backoff * 2)) (Redis_ReconnectMax cfg)) (rmetric_add RReconnect o1) of
           (waits, rest) \<Rightarrow> (backoff # waits, rest))"

definition reconnected :: "turn \<Rightarrow> bool" where
  "reconnected t \<longleftrightarrow> \<not> tn_ended t \<and> \<not> tn_ended_wait t"

lemma run_loop_append:
  "list_all reconnected ts \<Longrightarrow>
   run_loop cfg (ts @ us) backoff o1 =
     (case run_cont cfg ts backoff o1 of (waits, b, o2) \<Rightarrow>
      case run_loop cfg us b o2 of (waits', o3) \<Rightarrow> (waits @ waits', o3))"
  by (induction ts arbitrary: backoff o1) (auto simp: reconnected_def Let_def split: prod.split)

lemma run_cont_append:
  "run_cont cfg (ts @ us) backoff o1 =
     (case run_cont cfg ts backoff o1 of (waits, b, o2) \<Rightarrow>
      case run_cont cfg us b o2 of (waits', rest) \<Rightarrow> (waits @ waits', rest))"
  by (induction ts arbitrary: backoff o1) (auto simp: Let_def split: prod.split)

text \<open>The invariant: what has happened so far is what the loop computes from the turns and
  the messages of the current session.\<close>

definition rinv :: "Redis \<Rightarrow> rsys \<Rightarrow> bool" where
  "rinv cfg s \<longleftrightarrow>
     (rs_phase s \<noteq> PReturned \<longrightarrow> list_all reconnected (rs_turns s)) \<and>
     (\<not> rs_closer s \<longrightarrow> rs_closed s) \<and>
     (case rs_phase s of
        PReturned \<Rightarrow> (rs_waits s, rs_out s) = redis_Run cfg (rs_turns s) \<and> rs_ctx s
      | PWaitRetry e \<Rightarrow>
          (case run_cont cfg (rs_turns s) (Redis_ReconnectMin cfg) ro_empty of (ws, b, o1) \<Rightarrow>
            run_loop cfg [turn_of s e False True] b o1 = ([rs_backoff s], rs_out s) \<and>
            rs_waits s = ws @ [rs_backoff s])
      | _ \<Rightarrow>
          (case run_cont cfg (rs_turns s) (Redis_ReconnectMin cfg) ro_empty of (ws, b, o1) \<Rightarrow>
            rs_waits s = ws \<and> rs_backoff s = b \<and> session_loop cfg (rs_msgs s) False o1 = (rs_subscribed s, rs_out s)))"

lemma rinv_start: "rinv cfg (rsys_start cfg)"
  by (simp add: rinv_def rsys_start_def)

lemma rinv_handle:
  "rinv cfg s \<Longrightarrow> rs_phase s = PReceive \<or> rs_phase s = PForward chan payload \<Longrightarrow> rinv cfg (handle_msg cfg m s)"
  by (auto simp: rinv_def handle_msg_def session_loop_append split: prod.split)

lemma rinv_session_end:
  assumes "rinv cfg s" "rs_phase s = PReceive"
  shows "rinv cfg (session_end cfg e s)"
proof -
  obtain o1 where c: "run_cont cfg (rs_turns s) (Redis_ReconnectMin cfg) ro_empty = (rs_waits s, rs_backoff s, o1)"
    using assms by (auto simp: rinv_def split: prod.splits)
  with assms have l: "session_loop cfg (rs_msgs s) False o1 = (rs_subscribed s, rs_out s)" "list_all reconnected (rs_turns s)"
    by (auto simp: rinv_def)
  then show ?thesis
    using c run_loop_append [OF l(2), of cfg "[turn_of s e True False]" "Redis_ReconnectMin cfg" ro_empty]
    by (auto simp: rinv_def session_end_def session_def turn_of_def redis_Run_def Let_def)
qed

lemma rinv_step: "rstep cfg s x s' \<Longrightarrow> rinv cfg s \<Longrightarrow> rinv cfg s'"
proof (induction rule: rstep.induct)
  case (wait_ctx s e)
  then have "list_all reconnected (rs_turns s)" by (simp add: rinv_def)
  with wait_ctx show ?case
    using run_loop_append [of "rs_turns s" cfg "[turn_of s e False True]" "Redis_ReconnectMin cfg" ro_empty]
    by (auto simp: rinv_def redis_Run_def turn_of_def split: prod.splits)
next
  case (wait_over s e)
  then show ?case
    by (auto simp: rinv_def reconnect_def run_cont_append turn_of_def reconnected_def Let_def split: prod.splits)
qed (auto simp: rinv_handle rinv_session_end, auto simp: rinv_def split: rphase.split)

lemma rinv_steps: "rsteps cfg s xs s' \<Longrightarrow> rinv cfg s \<Longrightarrow> rinv cfg s'"
  by (induction rule: rsteps.induct) (auto dest: rinv_step)

text \<open>A connection that was subscribed, got lost, was retried and then closed.\<close>

definition demo_redis :: Redis where
  "demo_redis = cfg_Redis two_pools"

definition lost_once :: rsys where
  "lost_once = reconnect demo_redis ''eof'' (session_end demo_redis ''eof''
     (handle_msg demo_redis (RSubscription ''jobs:*'') (rsys_start demo_redis)))"

definition closed_source :: rsys where
  "closed_source = session_end demo_redis ''closed'' (lost_once\<lparr>rs_ctx := True, rs_closed := True, rs_closer := False\<rparr>)"

lemma lost_once_facts: "rs_phase lost_once = PReceive" "rs_closer lost_once"
  by (simp_all add: lost_once_def reconnect_def)

lemma closed_source_run:
  "rsteps demo_redis (rsys_start demo_redis)
     [RRecv (RSubscription ''jobs:*''), RNetErr ''eof'', RWaitOver, RCtx, RCloser, RClosedErr ''closed''] closed_source"
proof -
  let ?s1 = "handle_msg demo_redis (RSubscription ''jobs:*'') (rsys_start demo_redis)"
  have 1: "rstep demo_redis (rsys_start demo_redis) (RRecv (RSubscription ''jobs:*'')) ?s1"
    by (rule rstep.recv) (auto simp: rsys_start_def)
  have 2: "rstep demo_redis ?s1 (RNetErr ''eof'') (session_end demo_redis ''eof'' ?s1)"
    by (rule rstep.net_err) (simp add: handle_msg_def split: prod.split)
  have 3: "rstep demo_redis (session_end demo_redis ''eof'' ?s1) RWaitOver lost_once"
    unfolding lost_once_def
    by (rule rstep.wait_over) (simp add: handle_msg_def session_end_def rsys_start_def Let_def)
  have 4: "rstep demo_redis (lost_once\<lparr>rs_ctx := True\<rparr>) RCloser (lost_once\<lparr>rs_ctx := True, rs_closed := True, rs_closer := False\<rparr>)"
    using rstep.closer [of "lost_once\<lparr>rs_ctx := True\<rparr>"] by (simp add: lost_once_facts)
  have 5: "rstep demo_redis (lost_once\<lparr>rs_ctx := True, rs_closed := True, rs_closer := False\<rparr>) (RClosedErr ''closed'') closed_source"
    unfolding closed_source_def by (rule rstep.closed_err) (simp_all add: lost_once_facts)
  show ?thesis using rsteps.more [OF 1] rsteps.more [OF 2] rsteps.more [OF 3] rsteps.more [OF rstep.ctx]
      rsteps.more [OF 4] rsteps.more [OF 5 rsteps.none] by blast
qed

lemma closed_source_facts: "rs_phase closed_source = PReturned" "rs_ctx closed_source" "\<not> rs_closer closed_source"
  by (simp_all add: closed_source_def session_end_def)

text \<open>C23: the running source does what its loop says.  However its goroutines, the client and
  the context interleave, when \<open>Run\<close> returns the context has ended, and the waits, the log
  lines, the metrics and the hints are exactly those \<open>redis_Run\<close> computes from the sessions
  that happened.\<close>

theorem source_refines_loop:
  assumes "rsteps cfg (rsys_start cfg) xs s" "rs_phase s = PReturned"
  shows "rs_ctx s \<and> redis_Run cfg (rs_turns s) = (rs_waits s, rs_out s)"
  using rinv_steps [OF assms(1) rinv_start] assms(2) by (simp add: rinv_def)

lemma source_refines_loop_witness:
  "fst (redis_Run demo_redis (rs_turns closed_source)) = [500000000]"
proof -
  have "rs_waits closed_source = [500000000]"
    by (simp add: closed_source_def lost_once_def session_end_def reconnect_def handle_msg_def rsys_start_def Let_def
        demo_redis_def two_pools_redis(3))
  with source_refines_loop [OF closed_source_run closed_source_facts(1)] show ?thesis by simp
qed

section \<open>The source stops\<close>

text \<open>The steps that end a blocked call: a receive on a closed subscription, a send or a wait
  whose context has ended.\<close>

fun unblocks :: "raction \<Rightarrow> bool" where
  "unblocks (RClosedErr e) \<longleftrightarrow> True"
| "unblocks (RForwarded sent) \<longleftrightarrow> \<not> sent"
| "unblocks RWaitCtx \<longleftrightarrow> True"
| "unblocks x \<longleftrightarrow> False"

definition waiting :: "rsys \<Rightarrow> bool" where
  "waiting s \<longleftrightarrow> (case rs_phase s of PWaitRetry e \<Rightarrow> True | _ \<Rightarrow> False)"

definition way_out :: "rsys \<Rightarrow> nat" where
  "way_out s = (case rs_phase s of PForward chan payload \<Rightarrow> 2 | PReceive \<Rightarrow> 1 | PWaitRetry e \<Rightarrow> 1 | PReturned \<Rightarrow> 0)"

lemma ctx_stable: "rstep cfg s x s' \<Longrightarrow> rs_ctx s \<Longrightarrow> rs_ctx s'"
  by (induction rule: rstep.induct) (auto simp: handle_msg_def session_end_def reconnect_def Let_def split: prod.split)

lemma not_waiting_stable: "rstep cfg s x s' \<Longrightarrow> rs_ctx s \<and> \<not> waiting s \<Longrightarrow> rs_ctx s' \<and> \<not> waiting s'"
  by (induction rule: rstep.induct) (auto simp: waiting_def handle_msg_def session_end_def Let_def split: prod.split)

lemma closed_stable:
  "rstep cfg s x s' \<Longrightarrow> rs_ctx s \<and> \<not> waiting s \<and> rs_closed s \<Longrightarrow> rs_ctx s' \<and> \<not> waiting s' \<and> rs_closed s'"
  by (induction rule: rstep.induct) (auto simp: waiting_def handle_msg_def session_end_def Let_def split: prod.split)

lemma way_out_step:
  "rstep cfg s x s' \<Longrightarrow> rs_ctx s \<and> \<not> waiting s \<and> rs_closed s \<Longrightarrow> rs_phase s \<noteq> PReturned \<Longrightarrow>
   way_out s' \<le> way_out s \<and> (unblocks x \<longrightarrow> way_out s' < way_out s)"
  by (induction rule: rstep.induct)
    (auto simp: way_out_def waiting_def handle_msg_def session_end_def Let_def split: prod.split)

lemma unblocks_enabled:
  assumes "rs_ctx s" "\<not> waiting s" "rs_closed s" "rs_phase s \<noteq> PReturned"
  shows "enabled (rstep cfg) unblocks s"
proof (cases "rs_phase s")
  case PReceive
  with assms(3) show ?thesis by (auto simp: enabled_def intro!: exI [of _ "RClosedErr []"] rstep.closed_err)
next
  case (PForward chan payload)
  with assms(1) have "rstep cfg s (RForwarded False) (handle_msg cfg (RMessage chan payload False) s)"
    by (intro rstep.forwarded) auto
  then show ?thesis by (rule enabledI) simp
qed (use assms in \<open>auto simp: waiting_def\<close>)

lemma context_ends_source:
  assumes "path (rstep cfg) (rsys_start cfg) \<sigma> \<tau>" "fair (rstep cfg) unblocks \<sigma> \<tau>"
    and "fair (rstep cfg) ((=) RCloser) \<sigma> \<tau>" "rs_ctx (\<sigma> n)"
  shows "\<exists>m. rs_phase (\<sigma> m) = PReturned"
proof -
  note stable = path_stable [OF assms(1)]
  have ctx: "rs_ctx (\<sigma> m)" if "n \<le> m" for m using stable [of rs_ctx] ctx_stable assms(4) that by blast
  obtain k where k: "n \<le> k" "\<not> waiting (\<sigma> k)"
  proof (rule path_reaches [OF assms(1,2), where n = n and I = rs_ctx and goal = "\<lambda>s. \<not> waiting s" and \<mu> = way_out])
    show "enabled (rstep cfg) unblocks s" if "rs_ctx s" "\<not> \<not> waiting s" for s
      using that by (auto simp: waiting_def enabled_def split: rphase.splits intro!: exI [of _ RWaitCtx] rstep.wait_ctx)
    show "way_out s' \<le> way_out s \<and> (unblocks x \<longrightarrow> way_out s' < way_out s)"
      if "rstep cfg s x s'" "rs_ctx s" "\<not> \<not> waiting s" for s x s'
      using that by (induction rule: rstep.induct) (auto simp: way_out_def waiting_def reconnect_def)
  qed (use ctx in auto)
  have nw: "rs_ctx (\<sigma> m) \<and> \<not> waiting (\<sigma> m)" if "k \<le> m" for m
    using stable [of "\<lambda>s. rs_ctx s \<and> \<not> waiting s"] not_waiting_stable ctx k that by blast
  have inv: "rinv cfg (\<sigma> m)" for m
    using stable [of "rinv cfg" 0] rinv_step rinv_start path_start [OF assms(1)] by simp
  obtain l where l: "k \<le> l" "rs_closed (\<sigma> l)"
  proof (rule path_reaches [OF assms(1,3), where n = k and I = "\<lambda>s. rs_ctx s \<and> rinv cfg s" and goal = rs_closed
        and \<mu> = "\<lambda>s. of_bool (\<not> rs_closed s)"])
    show "enabled (rstep cfg) ((=) RCloser) s" if "rs_ctx s \<and> rinv cfg s" "\<not> rs_closed s" for s
      using that by (auto simp: enabled_def rinv_def intro: rstep.closer)
  qed (use ctx k inv in \<open>auto elim: rstepE\<close>)
  obtain m where "rs_phase (\<sigma> m) = PReturned"
  proof (rule path_reaches [OF assms(1,2), where n = l and I = "\<lambda>s. rs_ctx s \<and> \<not> waiting s \<and> rs_closed s"
        and goal = "\<lambda>s. rs_phase s = PReturned" and \<mu> = way_out])
    show "rs_ctx (\<sigma> m) \<and> \<not> waiting (\<sigma> m) \<and> rs_closed (\<sigma> m)" if "l \<le> m" for m
      using stable [of "\<lambda>s. rs_ctx s \<and> \<not> waiting s \<and> rs_closed s" l] closed_stable nw [OF l(1)] l(2) that by blast
  qed (use unblocks_enabled way_out_step in auto)
  then show ?thesis by blast
qed

text \<open>The source stops.  When the context has ended and neither \<open>closeOnCancel\<close> nor a call
  that could go on is starved, \<open>Run\<close> returns, also when the connection stays silent, the
  channel stays full or redis keeps sending.\<close>

theorem source_returns:
  assumes "path (rstep cfg) (rsys_start cfg) \<sigma> \<tau>" "fair (rstep cfg) unblocks \<sigma> \<tau>"
    and "fair (rstep cfg) ((=) RCloser) \<sigma> \<tau>" "rs_ctx (\<sigma> n)"
  shows "\<exists>m. rs_phase (\<sigma> m) = PReturned"
  using context_ends_source [OF assms] .

lemma rsteps_runs: "rsteps cfg s xs s' \<Longrightarrow> runs (rstep cfg) s xs s'"
  by (induction rule: rsteps.induct) auto

lemma source_returns_witness:
  "\<exists>\<sigma> \<tau>. path (rstep demo_redis) (rsys_start demo_redis) \<sigma> \<tau> \<and> \<tau> 0 = RRecv (RSubscription ''jobs:*'') \<and>
     (\<exists>m. rs_phase (\<sigma> m) = PReturned)"
proof -
  let ?xs = "[RRecv (RSubscription ''jobs:*''), RNetErr ''eof'', RWaitOver, RCtx, RCloser, RClosedErr ''closed'']"
  obtain \<sigma> \<tau> where p: "path (rstep demo_redis) (rsys_start demo_redis) \<sigma> \<tau>"
      "\<forall>n\<ge>length ?xs. \<sigma> n = closed_source" "map \<tau> [0..<length ?xs] = ?xs"
    using path_of_run [OF rsteps_runs [OF closed_source_run] rstep.idle] by blast
  have rest: "\<not> enabled (rstep demo_redis) unblocks closed_source" "\<not> enabled (rstep demo_redis) ((=) RCloser) closed_source"
    unfolding enabled_def using closed_source_facts by (auto elim!: rstepE)
  have "rs_ctx (\<sigma> (length ?xs))" using p(2) closed_source_facts(2) by simp
  from source_returns [OF p(1) fair_final [OF p(2) rest(1)] fair_final [OF p(2) rest(2)] this] p(1,3)
  show ?thesis by (auto simp: upt_conv_Cons)
qed

end
