(* ===== verification/RedisService.thy ===== *)
theory RedisService
  imports ServiceLive RedisSession
begin

text \<open>
  The redis source inside the running service (\<open>redisin/source.go\<close> with \<open>app/app.go\<close>): its
  sends go into the channel all sources share and wait while that is full, its context is the
  one \<open>Run\<close> cancels, and its goroutine ends with the error it returned.
\<close>

section \<open>The source and the service\<close>

record fed =
  fd_svc :: svc
  fd_src :: rsys

datatype fedact = FSend string string | FSrc raction | FReturn nat | FSvc saction

text \<open>The hint \<open>forward\<close> makes of a message.\<close>

definition redis_hint :: "Redis \<Rightarrow> string \<Rightarrow> string \<Rightarrow> Hint" where
  "redis_hint cfg chan payload =
     \<lparr>Hint_Source = SourceRedis, Hint_Pool = fst (cut_prefix chan (Redis_ChannelPrefix cfg)),
      Hint_Count = (case parseCount payload of Inl e \<Rightarrow> 0 | Inr n \<Rightarrow> n)\<rparr>"

text \<open>What only the source does to the service, and what the source does alone.\<close>

definition by_redis :: "App \<Rightarrow> saction \<Rightarrow> bool" where
  "by_redis a x \<longleftrightarrow> (case x of SSend h \<Rightarrow> Hint_Source h = SourceRedis
     | SEnd i r \<Rightarrow> bg_goroutines a ! i = BSource SourceRedis | _ \<Rightarrow> False)"

definition on_own :: "raction \<Rightarrow> bool" where
  "on_own x \<longleftrightarrow> x \<noteq> RForwarded True \<and> x \<noteq> RCtx"

inductive fed_step :: "(string \<Rightarrow> env) \<Rightarrow> App \<Rightarrow> Redis \<Rightarrow> fed \<Rightarrow> fedact \<Rightarrow> fed \<Rightarrow> bool" for E a cfg where
  fed_send: "rs_phase (fd_src w) = PForward chan payload \<Longrightarrow> forwards cfg chan payload \<Longrightarrow>
    svc_step E a (fd_svc w) (SSend (redis_hint cfg chan payload)) s' \<Longrightarrow>
    fed_step E a cfg w (FSend chan payload)
      (w\<lparr>fd_svc := s', fd_src := handle_msg cfg (RMessage chan payload True) (fd_src w)\<rparr>)"
| fed_src: "rstep cfg (fd_src w) x r' \<Longrightarrow> on_own x \<Longrightarrow> fed_step E a cfg w (FSrc x) (w\<lparr>fd_src := r'\<rparr>)"
| fed_return: "rs_phase (fd_src w) = PReturned \<Longrightarrow> bg_goroutines a ! i = BSource SourceRedis \<Longrightarrow>
    svc_step E a (fd_svc w) (SEnd i None) s' \<Longrightarrow> fed_step E a cfg w (FReturn i) (w\<lparr>fd_svc := s'\<rparr>)"
| fed_svc: "svc_step E a (fd_svc w) x s' \<Longrightarrow> \<not> by_redis a x \<Longrightarrow>
    fed_step E a cfg w (FSvc x) (w\<lparr>fd_svc := s', fd_src := (fd_src w)\<lparr>rs_ctx := sv_cancelled s'\<rparr>\<rparr>)"

inductive_cases fed_stepE: "fed_step E a cfg w x w'"

definition fed_start :: "App \<Rightarrow> Redis \<Rightarrow> fed" where
  "fed_start a cfg = \<lparr>fd_svc = svc_start a, fd_src = rsys_start cfg\<rparr>"

abbreviation fed_run :: "(string \<Rightarrow> env) \<Rightarrow> App \<Rightarrow> Redis \<Rightarrow> fedact list \<Rightarrow> fed \<Rightarrow> bool" where
  "fed_run E a cfg ws w \<equiv> runs (fed_step E a cfg) (fed_start a cfg) ws w"

abbreviation fed_path :: "(string \<Rightarrow> env) \<Rightarrow> App \<Rightarrow> Redis \<Rightarrow> (nat \<Rightarrow> fed) \<Rightarrow> (nat \<Rightarrow> fedact) \<Rightarrow> bool" where
  "fed_path E a cfg \<equiv> path (fed_step E a cfg) (fed_start a cfg)"

text \<open>What a step is for the service and for the source.\<close>

fun fed_svc_act :: "Redis \<Rightarrow> fedact \<Rightarrow> saction" where
  "fed_svc_act cfg (FSend chan payload) = SSend (redis_hint cfg chan payload)"
| "fed_svc_act cfg (FSrc x) = SIdle"
| "fed_svc_act cfg (FReturn i) = SEnd i None"
| "fed_svc_act cfg (FSvc x) = x"

fun fed_src_act :: "fed \<Rightarrow> fedact \<Rightarrow> raction" where
  "fed_src_act w' (FSend chan payload) = RForwarded True"
| "fed_src_act w' (FSrc x) = x"
| "fed_src_act w' (FReturn i) = RIdle"
| "fed_src_act w' (FSvc x) = (if sv_cancelled (fd_svc w') then RCtx else RIdle)"

section \<open>Both sides of a step\<close>

lemma fed_svc_step: "fed_step E a cfg w x w' \<Longrightarrow> svc_step E a (fd_svc w) (fed_svc_act cfg x) (fd_svc w')"
  by (induction rule: fed_step.induct) (auto intro: svc_step.idle)

lemma own_ctx: "rstep cfg s x s' \<Longrightarrow> on_own x \<Longrightarrow> rs_ctx s' = rs_ctx s"
  by (induction rule: rstep.induct)
    (auto simp: on_own_def handle_msg_def session_end_def reconnect_def Let_def split: prod.split)

definition same_ctx :: "fed \<Rightarrow> bool" where
  "same_ctx w \<longleftrightarrow> rs_ctx (fd_src w) = sv_cancelled (fd_svc w)"

lemma same_ctx_step: "fed_step E a cfg w x w' \<Longrightarrow> same_ctx w \<Longrightarrow> same_ctx w'"
proof (induction rule: fed_step.induct)
  case (fed_send w chan payload s')
  from fed_send(3) have "sv_cancelled s' = sv_cancelled (fd_svc w)" by (auto elim: svc_stepE)
  with fed_send(4) show ?case by (simp add: same_ctx_def handle_msg_def split: prod.split)
next
  case (fed_return w i s')
  from fed_return(3) have "sv_cancelled s' = sv_cancelled (fd_svc w)" by (auto elim!: svc_stepE simp: bg_end_def)
  with fed_return(4) show ?case by (simp add: same_ctx_def)
qed (auto simp: same_ctx_def own_ctx)

lemma same_ctx_start: "same_ctx (fed_start a cfg)"
  by (simp add: same_ctx_def fed_start_def svc_start_def rsys_start_def)

lemma fed_src_step:
  "fed_step E a cfg w x w' \<Longrightarrow> same_ctx w \<Longrightarrow> rstep cfg (fd_src w) (fed_src_act w' x) (fd_src w')"
proof (induction rule: fed_step.induct)
  case (fed_svc w x s')
  show ?case
  proof (cases "sv_cancelled s'")
    case True
    then show ?thesis using rstep.ctx [of cfg "fd_src w"] by simp
  next
    case False
    then have "\<not> rs_ctx (fd_src w)" using flags_stable(5) [OF fed_svc(1)] fed_svc(3) by (auto simp: same_ctx_def)
    then have "(fd_src w)\<lparr>rs_ctx := False\<rparr> = fd_src w" by simp
    with False show ?thesis using rstep.idle [of cfg "fd_src w"] by simp
  qed
qed (auto intro: rstep.intros)

text \<open>The hints a step of the source adds to its output.\<close>

lemma handle_hints:
  "ro_hints (rs_out (handle_msg cfg m s)) = ro_hints (rs_out s) @ (case m of
     RMessage chan payload sent \<Rightarrow> if forwards cfg chan payload \<and> sent then [redis_hint cfg chan payload] else [] | _ \<Rightarrow> [])"
  by (auto simp: handle_msg_def redis_forward_def forwards_def redis_hint_def rlog_def rmetric_add_def
      split: rmsg.split prod.split sum.split)

lemma own_hints: "rstep cfg s x s' \<Longrightarrow> on_own x \<Longrightarrow> ro_hints (rs_out s') = ro_hints (rs_out s)"
  by (induction rule: rstep.induct)
    (auto simp: handle_hints on_own_def session_end_def reconnect_def rlog_def rmetric_add_def Let_def)

lemma own_returned: "rstep cfg s x s' \<Longrightarrow> rs_phase s = PReturned \<Longrightarrow> rs_phase s' = PReturned"
  by (induction rule: rstep.induct) auto

section \<open>What a run of both has done\<close>

definition redis_hints :: "Hint list \<Rightarrow> Hint list" where
  "redis_hints = filter (\<lambda>h. Hint_Source h = SourceRedis)"

definition fed_ok :: "App \<Rightarrow> saction list \<Rightarrow> fed \<Rightarrow> bool" where
  "fed_ok a xs w \<longleftrightarrow> same_ctx w \<and> svc_inv a (fd_svc w) \<and> redis_hints (sends xs) = ro_hints (rs_out (fd_src w)) \<and>
     (\<forall>e. SourceFailed SourceRedis e \<notin> set (failures_of a xs)) \<and>
     ((BSource SourceRedis, True) \<in> set (sv_bg (fd_svc w)) \<longrightarrow> rs_phase (fd_src w) = PReturned)"

lemma svc_bg: "svc_step E a s x s' \<Longrightarrow>
    sv_bg s' = (case x of SEnd i r \<Rightarrow> (sv_bg s)[i := (fst (sv_bg s ! i), True)] | _ \<Rightarrow> sv_bg s)"
  by (induction rule: svc_step.induct)
    (auto simp: bg_end_def set_pool_def main_select_def main_awaited_def shutdown_end_def main_drain_def
      split: mainphase.split list.split)

text \<open>The four parts of the invariant, step by step.\<close>

lemma fed_hints_step:
  assumes "fed_step E a cfg w x w'" "redis_hints (sends xs) = ro_hints (rs_out (fd_src w))"
  shows "redis_hints (sends (xs @ [fed_svc_act cfg x])) = ro_hints (rs_out (fd_src w'))"
  using assms
proof (induction rule: fed_step.induct)
  case (fed_svc w x s')
  then show ?case by (cases x) (auto simp: sends_append redis_hints_def by_redis_def)
qed (auto simp: sends_append redis_hints_def handle_hints redis_hint_def own_hints)

lemma fed_failures_step:
  assumes "fed_step E a cfg w x w'" "SourceFailed SourceRedis e \<notin> set (failures_of a xs)"
  shows "SourceFailed SourceRedis e \<notin> set (failures_of a (xs @ [fed_svc_act cfg x]))"
  using assms
proof (induction rule: fed_step.induct)
  case (fed_svc w x s')
  then show ?case
    by (cases x) (auto simp: failures_of_def failure_part_def by_redis_def bg_error_def split: option.splits bgrun.splits)
qed (auto simp: failures_of_def failure_part_def)

lemma fed_bg_step:
  assumes "fed_step E a cfg w x w'" "svc_inv a (fd_svc w)" "(BSource SourceRedis, True) \<in> set (sv_bg (fd_svc w'))"
    and "(BSource SourceRedis, True) \<in> set (sv_bg (fd_svc w)) \<Longrightarrow> rs_phase (fd_src w) = PReturned"
  shows "rs_phase (fd_src w') = PReturned"
  using assms
proof (induction rule: fed_step.induct)
  case (fed_send w chan payload s')
  with svc_bg [OF fed_send(3)] show ?case by auto
next
  case (fed_svc w x s')
  have "(BSource SourceRedis, True) \<in> set (sv_bg (fd_svc w))"
  proof (cases "\<exists>i r. x = SEnd i r")
    case True
    then obtain i r where x: "x = SEnd i r" by blast
    with fed_svc(1) have i: "i < length (sv_bg (fd_svc w))" by (auto elim: svc_stepE)
    with fed_svc(3) have "fst (sv_bg (fd_svc w) ! i) = bg_goroutines a ! i"
      unfolding svc_inv_def bg_ok_def by (metis nth_map)
    with x fed_svc(2,4) svc_bg [OF fed_svc(1)] show ?thesis
      by (auto simp: by_redis_def dest: set_update_subset_insert [THEN subsetD])
  next
    case False
    with fed_svc(4) svc_bg [OF fed_svc(1)] show ?thesis by (cases x) auto
  qed
  with fed_svc(5) show ?case by simp
qed (auto simp: own_returned)

lemma fed_ok_step: "fed_step E a cfg w x w' \<Longrightarrow> fed_ok a xs w \<Longrightarrow> fed_ok a (xs @ [fed_svc_act cfg x]) w'"
  using fed_hints_step [of E a cfg w x w' xs] fed_failures_step [of E a cfg w x w' _ xs] fed_bg_step [of E a cfg w x w']
    same_ctx_step [of E a cfg w x w'] svc_inv_step [OF fed_svc_step]
  by (auto simp: fed_ok_def)

lemma fed_ok_start: "fed_ok (newApp c) [] (fed_start (newApp c) cfg)"
  using same_ctx_start [of "newApp c" cfg] svc_inv_start [of c]
  by (auto simp: fed_ok_def fed_start_def redis_hints_def failures_of_def rsys_start_def ro_empty_def svc_start_def)

lemma fed_run_inv:
  assumes "fed_run E (newApp c) cfg ws w"
  shows "svc_steps E (newApp c) (svc_start (newApp c)) (map (fed_svc_act cfg) ws) (fd_svc w)"
    "\<exists>ys. rsteps cfg (rsys_start cfg) ys (fd_src w)" "fed_ok (newApp c) (map (fed_svc_act cfg) ws) w"
proof -
  have "svc_steps E a (fd_svc v) (map (fed_svc_act cfg) ws) (fd_svc v')" if "runs (fed_step E a cfg) v ws v'" for a v v' ws
    using that by (induction ws arbitrary: v) (auto intro: svc_steps.intros dest: fed_svc_step)
  from this [OF assms] show "svc_steps E (newApp c) (svc_start (newApp c)) (map (fed_svc_act cfg) ws) (fd_svc w)"
    by (simp add: fed_start_def)
  have "\<exists>ys. rsteps cfg (fd_src v) ys (fd_src v')" if "runs (fed_step E a cfg) v ws v'" "same_ctx v" for a v v' ws
    using that by (induction ws arbitrary: v) (auto intro: rsteps.none, blast intro: rsteps.more fed_src_step same_ctx_step)
  from this [OF assms same_ctx_start] show "\<exists>ys. rsteps cfg (rsys_start cfg) ys (fd_src w)" by (simp add: fed_start_def)
  have "fed_ok a (xs @ map (fed_svc_act cfg) ws) v'" if "runs (fed_step E a cfg) v ws v'" "fed_ok a xs v" for a v v' ws xs
    using that by (induction ws arbitrary: v xs) (auto, metis append.assoc append_Cons append_Nil fed_ok_step)
  from this [OF assms fed_ok_start] show "fed_ok (newApp c) (map (fed_svc_act cfg) ws) w" by simp
qed

text \<open>C11: the redis source takes part in a run of the service without disturbing it.  However
  the two interleave, the service does a run of its own and the source a run of its own with
  the context of the service; the redis hints on the channel are exactly those the source has
  forwarded, in order; the source is never the failure \<open>Run\<close> reports, and its goroutine has
  ended only if the source has returned.\<close>

theorem source_in_service:
  assumes "fed_run E (newApp c) cfg ws w"
  shows "svc_run E c (map (fed_svc_act cfg) ws) (fd_svc w) \<and> (\<exists>ys. rsteps cfg (rsys_start cfg) ys (fd_src w)) \<and>
    rs_ctx (fd_src w) = sv_cancelled (fd_svc w) \<and>
    filter (\<lambda>h. Hint_Source h = SourceRedis) (sends (map (fed_svc_act cfg) ws)) = ro_hints (rs_out (fd_src w)) \<and>
    (\<forall>e. SourceFailed SourceRedis e \<notin> set (failures_of (newApp c) (map (fed_svc_act cfg) ws))) \<and>
    ((BSource SourceRedis, True) \<in> set (sv_bg (fd_svc w)) \<longrightarrow> rs_phase (fd_src w) = PReturned)"
  using fed_run_inv [OF assms] by (auto simp: svc_run_def fed_ok_def same_ctx_def redis_hints_def)

section \<open>From a message to a pool\<close>

definition fed_dispatch :: "fedact \<Rightarrow> bool" where
  "fed_dispatch x \<longleftrightarrow> (case x of FSvc y \<Rightarrow> is_dispatch y | _ \<Rightarrow> False)"

definition fed_sends :: "fedact \<Rightarrow> bool" where
  "fed_sends x \<longleftrightarrow> (case x of FSend chan payload \<Rightarrow> True | _ \<Rightarrow> False)"

lemma fed_dispatch_act: "is_dispatch (fed_svc_act cfg x) = fed_dispatch x"
  by (cases x) (auto simp: fed_dispatch_def)

text \<open>A behaviour of both is one of the service and one of the source.\<close>

lemma fed_path_ok:
  assumes "fed_path E (newApp c) cfg \<sigma> \<tau>"
  shows "fed_ok (newApp c) (map (fed_svc_act cfg \<circ> \<tau>) [0..<n]) (\<sigma> n)"
  using fed_run_inv(3) [OF path_runs [OF assms]] by simp

lemma fed_path_svc:
  assumes "fed_path E a cfg \<sigma> \<tau>"
  shows "svc_path E a (fd_svc \<circ> \<sigma>) (fed_svc_act cfg \<circ> \<tau>)"
    "fair (fed_step E a cfg) fed_dispatch \<sigma> \<tau> \<Longrightarrow> fair (svc_step E a) is_dispatch (fd_svc \<circ> \<sigma>) (fed_svc_act cfg \<circ> \<tau>)"
proof -
  show "svc_path E a (fd_svc \<circ> \<sigma>) (fed_svc_act cfg \<circ> \<tau>)"
    using assms fed_svc_step by (fastforce simp: path_def fed_start_def)
  have en: "enabled (fed_step E a cfg) fed_dispatch w" if "enabled (svc_step E a) is_dispatch (fd_svc w)" for w
  proof -
    from that obtain x s' where x: "is_dispatch x" "svc_step E a (fd_svc w) x s'" by (auto simp: enabled_def)
    then have "\<not> by_redis a x" by (cases x) (auto simp: by_redis_def)
    from fed_step.fed_svc [OF x(2) this, of cfg] x(1) show ?thesis by (force simp: enabled_def fed_dispatch_def)
  qed
  show "fair (fed_step E a cfg) fed_dispatch \<sigma> \<tau> \<Longrightarrow> fair (svc_step E a) is_dispatch (fd_svc \<circ> \<sigma>) (fed_svc_act cfg \<circ> \<tau>)"
    by (erule fair_part [where f = fd_svc]) (use en in \<open>auto simp: fed_dispatch_act\<close>)
qed

lemma fed_path_src:
  assumes "fed_path E a cfg \<sigma> \<tau>"
  shows "path (rstep cfg) (rsys_start cfg) (fd_src \<circ> \<sigma>) (\<lambda>n. fed_src_act (\<sigma> (Suc n)) (\<tau> n))"
proof -
  have "same_ctx (\<sigma> n)" for n
    using path_stable [OF assms, of same_ctx 0 n] same_ctx_step same_ctx_start path_start [OF assms] by simp
  then have "rstep cfg (fd_src (\<sigma> n)) (fed_src_act (\<sigma> (Suc n)) (\<tau> n)) (fd_src (\<sigma> (Suc n)))" for n
    using fed_src_step [OF path_step [OF assms]] by blast
  with path_start [OF assms] show ?thesis by (simp add: path_def fed_start_def)
qed

text \<open>A message that makes a hint is kept until the hint is sent or the context ends.\<close>

lemma forward_waits:
  assumes "fed_step E a cfg w x w'" "rs_phase (fd_src w) = PForward chan payload" "forwards cfg chan payload" "\<not> rs_ctx (fd_src w)"
  shows "x = FSend chan payload \<or> (\<not> fed_sends x \<and> rs_phase (fd_src w') = PForward chan payload)"
  using assms by (induction rule: fed_step.induct) (auto simp: fed_sends_def on_own_def elim!: rstepE)

text \<open>The channel is never full for ever: the dispatcher makes room.\<close>

lemma channel_room:
  assumes "svc_path E (newApp c) \<sigma> \<tau>" "fair (svc_step E (newApp c)) is_dispatch \<sigma> \<tau>" "\<forall>m. \<not> sv_cancelled (\<sigma> m)"
  shows "\<exists>k\<ge>m. length (sv_chan (\<sigma> k)) < hintBuffer"
proof (rule ccontr)
  assume no: "\<not> (\<exists>k\<ge>m. length (sv_chan (\<sigma> k)) < hintBuffer)"
  have full: "length (sv_chan (\<sigma> k)) = hintBuffer" if "m \<le> k" for k
    using channel_inv [OF svc_path_steps [OF assms(1)], of k] no that by fastforce
  have "enabled (svc_step E (newApp c)) is_dispatch (\<sigma> k)" if "m \<le> k" for k
  proof -
    have "sv_chan (\<sigma> k) \<noteq> []" using full [OF that] by (auto simp: hintBuffer_def)
    then obtain h hs where h: "sv_chan (\<sigma> k) = h # hs" by (meson neq_Nil_conv)
    have "\<not> sv_dispatched (\<sigma> k)" using svc_path_inv [OF assms(1), of k] assms(3) by (auto simp: svc_inv_def bg_ok_def)
    with h show ?thesis unfolding enabled_def by (intro exI [of _ "SDispatch h"]) (auto intro: svc_step.dispatch)
  qed
  then obtain k where k: "m \<le> k" "is_dispatch (\<tau> k)" using fairD [OF assms(2)] by blast
  have "Suc (length (sv_chan (\<sigma> (Suc k)))) = length (sv_chan (\<sigma> k))"
    using path_step [OF assms(1), of k] k(2) by (auto elim!: svc_stepE)
  with full [of k] full [of "Suc k"] k(1) show False by simp
qed

text \<open>So a waiting message gets its turn.\<close>

lemma message_sent:
  assumes "fed_path E (newApp c) cfg \<sigma> \<tau>" "fair (fed_step E (newApp c) cfg) fed_dispatch \<sigma> \<tau>"
    and "strong_fair (fed_step E (newApp c) cfg) fed_sends \<sigma> \<tau>" "\<forall>m. \<not> sv_cancelled (fd_svc (\<sigma> m))"
    and "rs_phase (fd_src (\<sigma> n)) = PForward chan payload" "forwards cfg chan payload"
  obtains l where "n \<le> l" "\<tau> l = FSend chan payload"
proof -
  note svc = fed_path_svc [OF assms(1)]
  have ctx: "\<not> rs_ctx (fd_src (\<sigma> m))" for m
    using fed_path_ok [OF assms(1), of m] assms(4) by (simp add: fed_ok_def same_ctx_def)
  have "\<exists>l\<ge>n. \<tau> l = FSend chan payload"
  proof (rule ccontr)
    assume no: "\<not> (\<exists>l\<ge>n. \<tau> l = FSend chan payload)"
    have wait: "rs_phase (fd_src (\<sigma> m)) = PForward chan payload" if "n \<le> m" for m
      using that
    proof (induction m rule: dec_induct)
      case (step m)
      with forward_waits [OF path_step [OF assms(1)] _ assms(6) ctx, of m] no show ?case by blast
    qed (rule assms(5))
    have "\<exists>k\<ge>m. enabled (fed_step E (newApp c) cfg) fed_sends (\<sigma> k)" if "n \<le> m" for m
    proof -
      obtain k where k: "m \<le> k" "length (sv_chan (fd_svc (\<sigma> k))) < hintBuffer"
        using channel_room [OF svc(1) svc(2) [OF assms(2)], of m] assms(4) by auto
      with wait [of k] that have "fed_step E (newApp c) cfg (\<sigma> k) (FSend chan payload)
        ((\<sigma> k)\<lparr>fd_svc := (fd_svc (\<sigma> k))\<lparr>sv_chan := sv_chan (fd_svc (\<sigma> k)) @ [redis_hint cfg chan payload]\<rparr>,
           fd_src := handle_msg cfg (RMessage chan payload True) (fd_src (\<sigma> k))\<rparr>)"
        by (intro fed_step.fed_send [OF _ assms(6)] svc_step.send) auto
      with k(1) show ?thesis by (auto simp: fed_sends_def intro!: exI [of _ k] enabledI)
    qed
    then obtain l where l: "n \<le> l" "fed_sends (\<tau> l)" using strong_fairD [OF assms(3)] by blast
    with forward_waits [OF path_step [OF assms(1)] wait assms(6) ctx, of l] no show False by blast
  qed
  with that show thesis by blast
qed

lemma message_hint:
  assumes "Finalize c0 = Inr c" "gmap_ok (cfg_Pools c)" "p \<in> set (ResolvedPools c)" "pc_Enabled p"
    and "0 \<le> k" "in_int64 k" "trim_space payload = itoa k"
  defines "cfg \<equiv> cfg_Redis c"
  shows "forwards cfg (Redis_ChannelPrefix cfg @ pc_Channel p) payload"
    "Hint_Count (redis_hint cfg (Redis_ChannelPrefix cfg @ pc_Channel p) payload) = k"
    "routed (newApp c) (redis_hint cfg (Redis_ChannelPrefix cfg @ pc_Channel p) payload) = Some (pc_Name p)"
  using assms(5-7) enabled_pool_route(2) [OF assms(1-4)]
  by (simp_all add: forwards_def redis_hint_def parseCount_def atoi_itoa routed_def)

text \<open>C10: a redis message is served, if the service is never asked to stop.  With a finalized
  config, in every behaviour in which the context is never cancelled, the dispatcher is not
  starved and a sender that waits for the channel gets its turn, every message on the
  prefixed channel of an enabled pool, with a decimal count as its payload, becomes a hint
  call on that pool with that count, in the order of the sends.  A message that waits, or a
  hint that is buffered, when the service is stopped is lost.\<close>

theorem redis_message_served:
  assumes "Finalize c0 = Inr c" "gmap_ok (cfg_Pools c)" "p \<in> set (ResolvedPools c)" "pc_Enabled p"
    and "0 \<le> k" "in_int64 k" "trim_space payload = itoa k"
    and "fed_path E (newApp c) (cfg_Redis c) \<sigma> \<tau>" "fair (fed_step E (newApp c) (cfg_Redis c)) fed_dispatch \<sigma> \<tau>"
    and "strong_fair (fed_step E (newApp c) (cfg_Redis c)) fed_sends \<sigma> \<tau>" "\<And>m. \<not> sv_cancelled (fd_svc (\<sigma> m))"
    and "rs_phase (fd_src (\<sigma> n)) = PForward (Redis_ChannelPrefix (cfg_Redis c) @ pc_Channel p) payload"
  shows "\<exists>l\<ge>n. \<exists>m>l. \<exists>rest. \<tau> l = FSend (Redis_ChannelPrefix (cfg_Redis c) @ pc_Channel p) payload \<and>
    routed_hints (pool_trace (newApp c) (pc_Name p) (map (fed_svc_act (cfg_Redis c) \<circ> \<tau>) [0..<m])) =
      hints_for (newApp c) (pc_Name p) (sends (map (fed_svc_act (cfg_Redis c) \<circ> \<tau>) [0..<l])) @ (SourceRedis, k) # rest"
proof -
  let ?a = "newApp c" and ?xs = "\<lambda>m. map (fed_svc_act (cfg_Redis c) \<circ> \<tau>) [0..<m]"
  let ?chan = "Redis_ChannelPrefix (cfg_Redis c) @ pc_Channel p"
  note hint = message_hint [OF assms(1-7)] and svc = fed_path_svc [OF assms(8)]
  have nc: "\<forall>m. \<not> sv_cancelled (fd_svc (\<sigma> m))" using assms(11) by blast
  obtain l where l: "n \<le> l" "\<tau> l = FSend ?chan payload"
    using message_sent [OF assms(8-10) nc assms(12) hint(1)] by blast
  obtain m rest where m: "Suc l \<le> m" "dispatches (?xs m) = sends (?xs (Suc l)) @ rest"
    using sent_dispatched [OF svc(1) svc(2) [OF assms(9)], of "Suc l"] assms(11) by auto
  have "sends (?xs (Suc l)) = sends (?xs l) @ [redis_hint (cfg_Redis c) ?chan payload]"
    using l(2) by (simp add: sends_append)
  moreover have "Hint_Source (redis_hint (cfg_Redis c) ?chan payload) = SourceRedis" by (simp add: redis_hint_def)
  ultimately have "routed_hints (pool_trace ?a (pc_Name p) (?xs m)) =
      hints_for ?a (pc_Name p) (sends (?xs l)) @ (SourceRedis, k) # hints_for ?a (pc_Name p) rest"
    using routed_hints_trace [OF svc_path_steps [OF svc(1)], of "pc_Name p" m] m(2) hint(2,3)
    by (simp add: hints_for_def)
  with l m(1) show ?thesis by (blast intro: Suc_le_lessD)
qed

section \<open>The end of the source\<close>

definition fed_unblocks :: "fedact \<Rightarrow> bool" where
  "fed_unblocks x \<longleftrightarrow> (case x of FSrc y \<Rightarrow> unblocks y | _ \<Rightarrow> False)"

definition fed_returns :: "fedact \<Rightarrow> bool" where
  "fed_returns x \<longleftrightarrow> (case x of FReturn i \<Rightarrow> True | _ \<Rightarrow> False)"

lemma fed_path_src_fair:
  assumes "fed_path E a cfg \<sigma> \<tau>" "fair (fed_step E a cfg) P \<sigma> \<tau>"
    and "\<And>y. Q y \<Longrightarrow> on_own y \<and> P (FSrc y)" "\<And>x w. P x \<Longrightarrow> Q (fed_src_act w x)"
  shows "fair (rstep cfg) Q (fd_src \<circ> \<sigma>) (\<lambda>n. fed_src_act (\<sigma> (Suc n)) (\<tau> n))"
proof (rule fair_part [OF assms(2)])
  show "enabled (fed_step E a cfg) P (\<sigma> n)" if "enabled (rstep cfg) Q (fd_src (\<sigma> n))" for n
    using that assms(3) unfolding enabled_def by (blast intro: fed_step.fed_src)
qed (rule assms(4))

text \<open>The goroutines of \<open>startSources\<close> that have not ended.\<close>

definition unended :: "svc \<Rightarrow> nat" where
  "unended s = length (filter (\<lambda>g. \<not> snd g) (sv_bg s))"

lemma unended_step:
  assumes "svc_step E a s x s'"
  shows "unended s' \<le> unended s" "x = SEnd i r \<Longrightarrow> unended s' < unended s"
proof -
  have *: "unended s' < unended s" if x: "x = SEnd i r" for i r
  proof -
    have "i < length (sv_bg s)" "\<not> snd (sv_bg s ! i)" using assms x by (auto elim: svc_stepE)
    with length_filter_update [of i "sv_bg s" "\<lambda>g. \<not> snd g" "(fst (sv_bg s ! i), True)"] svc_bg [OF assms] x
    show ?thesis by (simp add: unended_def)
  qed
  then show "x = SEnd i r \<Longrightarrow> unended s' < unended s" .
  show "unended s' \<le> unended s"
    using * svc_bg [OF assms] by (cases x) (auto simp: unended_def intro: less_imp_le)
qed

lemma return_enabled:
  assumes "SourceRedis \<in> set (a_sources a)" "svc_inv a (fd_svc w)" "rs_phase (fd_src w) = PReturned"
    and "(BSource SourceRedis, True) \<notin> set (sv_bg (fd_svc w))"
  shows "enabled (fed_step E a cfg) fed_returns w"
proof -
  have bg: "map fst (sv_bg (fd_svc w)) = bg_goroutines a" using assms(2) by (simp add: svc_inv_def bg_ok_def)
  have "BSource SourceRedis \<in> set (bg_goroutines a)" using assms(1) by (simp add: bg_goroutines_def)
  then obtain i where i: "i < length (sv_bg (fd_svc w))" "bg_goroutines a ! i = BSource SourceRedis"
    unfolding in_set_conv_nth bg [symmetric] by auto
  then have "fst (sv_bg (fd_svc w) ! i) = BSource SourceRedis" unfolding bg [symmetric] by simp
  with assms(4) i(1) have "\<not> snd (sv_bg (fd_svc w) ! i)" by (metis (full_types) nth_mem prod.collapse)
  with i fed_step.fed_return [of w a i E "bg_end i None (fd_svc w)" cfg] assms(3)
  show ?thesis unfolding enabled_def
    by (intro exI [of _ "FReturn i"]) (auto simp: fed_returns_def intro: svc_step.bg_end)
qed

text \<open>C24: the source goes down with the service.  Once \<open>Run\<close> has cancelled the run context,
  and neither \<open>closeOnCancel\<close> nor a call of the source that could go on is starved, the
  goroutine of the redis source ends, also from a silent connection, a full channel or the
  wait before a reconnect; so it is not what the stop of the sources waits for.\<close>

theorem source_ends_with_service:
  assumes "fed_path E (newApp c) cfg \<sigma> \<tau>" "SourceRedis \<in> set (a_sources (newApp c))"
    and "fair (fed_step E (newApp c) cfg) fed_unblocks \<sigma> \<tau>" "fair (fed_step E (newApp c) cfg) ((=) (FSrc RCloser)) \<sigma> \<tau>"
    and "fair (fed_step E (newApp c) cfg) fed_returns \<sigma> \<tau>" "sv_cancelled (fd_svc (\<sigma> n))"
  shows "\<exists>m. (BSource SourceRedis, True) \<in> set (sv_bg (fd_svc (\<sigma> m)))"
proof -
  let ?a = "newApp c" and ?g = "BSource SourceRedis"
  note ok = fed_path_ok [OF assms(1)] and src = fed_path_src [OF assms(1)]
  have f1: "fair (rstep cfg) unblocks (fd_src \<circ> \<sigma>) (\<lambda>n. fed_src_act (\<sigma> (Suc n)) (\<tau> n))"
    by (rule fed_path_src_fair [OF assms(1,3)]) (auto simp: fed_unblocks_def on_own_def split: fedact.splits)
  have f2: "fair (rstep cfg) ((=) RCloser) (fd_src \<circ> \<sigma>) (\<lambda>n. fed_src_act (\<sigma> (Suc n)) (\<tau> n))"
    by (rule fed_path_src_fair [OF assms(1,4)]) (auto simp: on_own_def)
  have "rs_ctx (fd_src (\<sigma> n))" using ok [of n] assms(6) by (simp add: fed_ok_def same_ctx_def)
  then obtain k where k: "rs_phase (fd_src (\<sigma> k)) = PReturned" using context_ends_source [OF src f1 f2, of n] by auto
  have ret: "rs_phase (fd_src (\<sigma> m)) = PReturned" if "k \<le> m" for m
    using path_stable [OF src, of "\<lambda>s. rs_phase s = PReturned" k m] own_returned k that by auto
  obtain m where "(?g, True) \<in> set (sv_bg (fd_svc (\<sigma> m)))"
  proof (rule path_reaches [OF assms(1,5), where n = k and goal = "\<lambda>w. (?g, True) \<in> set (sv_bg (fd_svc w))"
        and I = "\<lambda>w. svc_inv ?a (fd_svc w) \<and> rs_phase (fd_src w) = PReturned"
        and \<mu> = "\<lambda>w. unended (fd_svc w)"])
    show "svc_inv ?a (fd_svc (\<sigma> m)) \<and> rs_phase (fd_src (\<sigma> m)) = PReturned" if "k \<le> m" for m
      using ok [of m] ret [OF that] by (simp add: fed_ok_def)
    show "enabled (fed_step E ?a cfg) fed_returns w"
      if "svc_inv ?a (fd_svc w) \<and> rs_phase (fd_src w) = PReturned" "(?g, True) \<notin> set (sv_bg (fd_svc w))" for w
      using return_enabled [OF assms(2)] that by blast
    show "unended (fd_svc w') \<le> unended (fd_svc w) \<and> (fed_returns x \<longrightarrow> unended (fd_svc w') < unended (fd_svc w))"
      if "fed_step E ?a cfg w x w'" for w x w'
      using unended_step [OF fed_svc_step [OF that]] by (cases x) (auto simp: fed_returns_def)
  qed
  then show ?thesis by blast
qed

section \<open>Concrete behaviours\<close>

text \<open>A message for the enabled pool is received, sent and dispatched.\<close>

definition redis_bell :: Hint where
  "redis_bell = \<lparr>Hint_Source = SourceRedis, Hint_Pool = ''a'', Hint_Count = 2\<rparr>"

definition one_message :: "fedact list" where
  "one_message = [FSrc (RRecvMessage ''jobs:a'' ''2''), FSend ''jobs:a'' ''2'', FSvc (SDispatch redis_bell)]"

definition served :: "(string \<Rightarrow> env) \<Rightarrow> fed" where
  "served E = (let s = svc_start (newApp two_pools); r = rsys_start demo_redis in
     \<lparr>fd_svc = s\<lparr>sv_d := snd (Dispatch (pools_hint E) (a_routes (newApp two_pools)) redis_bell (sv_d s))\<rparr>,
      fd_src = (handle_msg demo_redis (RMessage ''jobs:a'' ''2'' True) r)\<lparr>rs_ctx := False\<rparr>\<rparr>)"

lemma demo_prefix: "Redis_ChannelPrefix demo_redis = ''jobs:''"
  by (simp add: demo_redis_def two_pools_def applyDefaults_def bareConfig_def default_defs setStr_def)

lemma demo_message: "forwards demo_redis ''jobs:a'' ''2''" "redis_hint demo_redis ''jobs:a'' ''2'' = redis_bell"
proof -
  have "parseCount ''2'' = Inr 2" by code_simp
  moreover have "cut_prefix ''jobs:a'' ''jobs:'' = (''a'', True)" by code_simp
  ultimately show "forwards demo_redis ''jobs:a'' ''2''" "redis_hint demo_redis ''jobs:a'' ''2'' = redis_bell"
    by (simp_all add: forwards_def redis_hint_def demo_prefix redis_bell_def)
qed

lemma fed_idle: "fed_step E a cfg w (FSrc RIdle) w"
  using fed_step.fed_src [of cfg w RIdle "fd_src w" E a] by (simp add: on_own_def rstep.idle)

lemma one_message_run: "fed_run E (newApp two_pools) demo_redis one_message (served E)"
proof -
  let ?a = "newApp two_pools" and ?s = "svc_start (newApp two_pools)" and ?r = "rsys_start demo_redis"
  let ?m = "RMessage ''jobs:a'' ''2'' True"
  have h: "handle_msg demo_redis ?m (?r\<lparr>rs_phase := PForward ''jobs:a'' ''2''\<rparr>) = handle_msg demo_redis ?m ?r"
    by (simp add: handle_msg_def rsys_start_def split: prod.split)
  have 1: "fed_step E ?a demo_redis (fed_start ?a demo_redis) (FSrc (RRecvMessage ''jobs:a'' ''2''))
      \<lparr>fd_svc = ?s, fd_src = ?r\<lparr>rs_phase := PForward ''jobs:a'' ''2''\<rparr>\<rparr>"
    using fed_step.fed_src [OF rstep.recv_message, of "fed_start ?a demo_redis"]
    by (simp add: fed_start_def on_own_def rsys_start_def)
  have 2: "fed_step E ?a demo_redis \<lparr>fd_svc = ?s, fd_src = ?r\<lparr>rs_phase := PForward ''jobs:a'' ''2''\<rparr>\<rparr> (FSend ''jobs:a'' ''2'')
      \<lparr>fd_svc = ?s\<lparr>sv_chan := [redis_bell]\<rparr>, fd_src = handle_msg demo_redis ?m ?r\<rparr>"
    using fed_step.fed_send [OF _ demo_message(1), of "\<lparr>fd_svc = ?s, fd_src = ?r\<lparr>rs_phase := PForward ''jobs:a'' ''2''\<rparr>\<rparr>" E ?a
        "?s\<lparr>sv_chan := [redis_bell]\<rparr>"] svc_step.send [of ?s E ?a redis_bell]
    by (simp add: demo_message(2) h) (simp add: svc_start_def hintBuffer_def)
  have "svc_step E ?a (?s\<lparr>sv_chan := [redis_bell]\<rparr>) (SDispatch redis_bell) (fd_svc (served E))"
    using svc_step.dispatch [of "?s\<lparr>sv_chan := [redis_bell]\<rparr>" redis_bell "[]" E ?a] by (simp add: served_def svc_start_def Let_def)
  moreover have "\<not> by_redis ?a (SDispatch redis_bell)" by (simp add: by_redis_def)
  ultimately have 3: "fed_step E ?a demo_redis \<lparr>fd_svc = ?s\<lparr>sv_chan := [redis_bell]\<rparr>, fd_src = handle_msg demo_redis ?m ?r\<rparr>
      (FSvc (SDispatch redis_bell)) (served E)"
    using fed_step.fed_svc [where w = "\<lparr>fd_svc = ?s\<lparr>sv_chan := [redis_bell]\<rparr>, fd_src = handle_msg demo_redis ?m ?r\<rparr>"
        and s' = "fd_svc (served E)" and E = E and a = ?a and cfg = demo_redis and x = "SDispatch redis_bell"]
    by (simp add: served_def svc_start_def Let_def)
  show ?thesis unfolding one_message_def using 1 2 3 by auto
qed

lemma source_in_service_witness:
  "\<exists>ws w. fed_run (\<lambda>_. demo_env) (newApp two_pools) demo_redis ws w \<and> ro_hints (rs_out (fd_src w)) = [redis_bell]"
  using source_in_service [OF one_message_run, of "\<lambda>_. demo_env"] one_message_run [of "\<lambda>_. demo_env"]
  by (intro exI [of _ one_message] exI [of _ "served (\<lambda>_. demo_env)"])
    (simp add: one_message_def demo_message(2), simp add: redis_bell_def)

lemma served_rests:
  "\<not> enabled (fed_step E (newApp two_pools) demo_redis) fed_dispatch (served E)"
  "\<not> enabled (fed_step E (newApp two_pools) demo_redis) fed_sends (served E)"
  "\<not> sv_cancelled (fd_svc (served E))"
proof -
  have chan: "sv_chan (fd_svc (served E)) = []" by (simp add: served_def svc_start_def Let_def)
  then show "\<not> enabled (fed_step E (newApp two_pools) demo_redis) fed_dispatch (served E)"
    unfolding enabled_def by (auto elim!: fed_stepE svc_stepE simp: fed_dispatch_def)
  have "rs_phase (fd_src (served E)) = PReceive" by (simp add: served_def handle_msg_def Let_def split: prod.split)
  then show "\<not> enabled (fed_step E (newApp two_pools) demo_redis) fed_sends (served E)"
    unfolding enabled_def by (auto elim!: fed_stepE simp: fed_sends_def)
  show "\<not> sv_cancelled (fd_svc (served E))" by (simp add: served_def svc_start_def Let_def)
qed

lemma redis_message_served_witness:
  "\<exists>\<sigma> \<tau> m rest pre. fed_path (\<lambda>_. demo_env) (newApp two_pools) demo_redis \<sigma> \<tau> \<and>
     routed_hints (pool_trace (newApp two_pools) ''a'' (map (fed_svc_act demo_redis \<circ> \<tau>) [0..<m])) = pre @ (SourceRedis, 2) # rest"
proof -
  let ?E = "\<lambda>_. demo_env" and ?a = "newApp two_pools" and ?p = "resolvePool emptySettings ''a'' (plainPool [''w''])"
  obtain \<sigma> \<tau> where p: "fed_path ?E ?a demo_redis \<sigma> \<tau>" "\<forall>n\<ge>length one_message. \<sigma> n = served ?E"
      "map \<tau> [0..<length one_message] = one_message"
    using path_of_run [OF one_message_run [of ?E], of "FSrc RIdle"] fed_idle by blast
  have "\<tau> 0 = FSrc (RRecvMessage ''jobs:a'' ''2'')"
    using p(3) [THEN arg_cong, of hd] by (simp add: one_message_def upt_conv_Cons)
  then have ph: "rs_phase (fd_src (\<sigma> 1)) = PForward ''jobs:a'' ''2''"
    using path_step [OF p(1), of 0] by (auto elim!: fed_stepE rstepE)
  have nc: "\<not> sv_cancelled (fd_svc (\<sigma> m))" for m
  proof
    assume "sv_cancelled (fd_svc (\<sigma> m))"
    then have "sv_cancelled ((fd_svc \<circ> \<sigma>) (max m 3))"
      using path_stable [OF fed_path_svc(1) [OF p(1)], of sv_cancelled m "max m 3"] flags_stable(5) by fastforce
    with p(2) served_rests(3) show False by (simp add: one_message_def)
  qed
  have pl: "trim_space ''2'' = itoa 2" "in_int64 2" "0 \<le> (2::int)" by code_simp+
  have "pc_Channel ?p = ''a''" by (simp add: resolve_layers plain_defs layer3_def)
  then have "rs_phase (fd_src (\<sigma> 1)) = PForward (Redis_ChannelPrefix (cfg_Redis two_pools) @ pc_Channel ?p) ''2''"
    using ph demo_prefix by (simp add: demo_redis_def)
  from redis_message_served [OF two_pools_finalized two_pools_a(4,1,2) pl(3,2,1) p(1) [unfolded demo_redis_def]
      fair_final [OF p(2) served_rests(1), unfolded demo_redis_def]
      strong_fair_final [OF p(2) served_rests(2), unfolded demo_redis_def] nc this]
  show ?thesis using p(1) unfolding demo_redis_def two_pools_a(3) by blast
qed

text \<open>The process is asked to stop while the connection is silent.\<close>

definition silent_stop :: "fedact list" where
  "silent_stop = [FSvc SCtx, FSvc SShutdown, FSrc RCloser, FSrc (RClosedErr ''closed''), FReturn 1]"

definition stopping :: svc where
  "stopping = main_select (newApp two_pools) True ((svc_start (newApp two_pools))\<lparr>sv_ctx := True\<rparr>)"

definition silenced :: fed where
  "silenced = \<lparr>fd_svc = bg_end 1 None stopping,
     fd_src = session_end demo_redis ''closed'' ((rsys_start demo_redis)\<lparr>rs_ctx := True, rs_closed := True, rs_closer := False\<rparr>)\<rparr>"

lemma two_pools_bg: "bg_goroutines (newApp two_pools) = [BSource SourceHTTP, BSource SourceRedis]"
  "SourceRedis \<in> set (a_sources (newApp two_pools))"
proof -
  have "map fst (sv_bg (rung (\<lambda>_. demo_env))) = bg_goroutines (newApp two_pools)"
    by (simp add: rung_def svc_start_def Let_def comp_def)
  then show bg: "bg_goroutines (newApp two_pools) = [BSource SourceHTTP, BSource SourceRedis]" by (simp add: rung_facts)
  have "BSource SourceRedis \<in> set (bg_goroutines (newApp two_pools))" by (simp add: bg)
  then show "SourceRedis \<in> set (a_sources (newApp two_pools))"
    by (auto simp: bg_goroutines_def split: option.splits)
qed

lemma silent_stop_run: "fed_run E (newApp two_pools) demo_redis silent_stop silenced"
proof -
  let ?a = "newApp two_pools" and ?s = "svc_start (newApp two_pools)" and ?r = "rsys_start demo_redis"
  note own = on_own_def and start = svc_start_def rsys_start_def
  have 1: "fed_step E ?a demo_redis (fed_start ?a demo_redis) (FSvc SCtx) \<lparr>fd_svc = ?s\<lparr>sv_ctx := True\<rparr>, fd_src = ?r\<rparr>"
    using fed_step.fed_svc [OF svc_step.ctx_done, where w = "fed_start ?a demo_redis" and a = ?a and cfg = demo_redis and E = E]
    by (simp add: fed_start_def by_redis_def start)
  have "svc_step E ?a (?s\<lparr>sv_ctx := True\<rparr>) SShutdown stopping"
    unfolding stopping_def by (rule svc_step.select_ctx) (simp_all add: start)
  then have 2: "fed_step E ?a demo_redis \<lparr>fd_svc = ?s\<lparr>sv_ctx := True\<rparr>, fd_src = ?r\<rparr> (FSvc SShutdown)
      \<lparr>fd_svc = stopping, fd_src = ?r\<lparr>rs_ctx := True\<rparr>\<rparr>"
    using fed_step.fed_svc [where w = "\<lparr>fd_svc = ?s\<lparr>sv_ctx := True\<rparr>, fd_src = ?r\<rparr>" and s' = stopping and x = SShutdown
        and E = E and a = ?a and cfg = demo_redis]
    by (simp add: by_redis_def) (simp add: stopping_def main_select_def)
  have 3: "fed_step E ?a demo_redis \<lparr>fd_svc = stopping, fd_src = ?r\<lparr>rs_ctx := True\<rparr>\<rparr> (FSrc RCloser)
      \<lparr>fd_svc = stopping, fd_src = ?r\<lparr>rs_ctx := True, rs_closed := True, rs_closer := False\<rparr>\<rparr>"
    using fed_step.fed_src [OF rstep.closer, where w = "\<lparr>fd_svc = stopping, fd_src = ?r\<lparr>rs_ctx := True\<rparr>\<rparr>" and cfg = demo_redis
        and E = E and a = ?a]
    by (simp add: own start)
  have 4: "fed_step E ?a demo_redis \<lparr>fd_svc = stopping, fd_src = ?r\<lparr>rs_ctx := True, rs_closed := True, rs_closer := False\<rparr>\<rparr>
      (FSrc (RClosedErr ''closed'')) \<lparr>fd_svc = stopping, fd_src = fd_src silenced\<rparr>"
    using fed_step.fed_src [OF rstep.closed_err, where w = "\<lparr>fd_svc = stopping,
        fd_src = ?r\<lparr>rs_ctx := True, rs_closed := True, rs_closer := False\<rparr>\<rparr>" and cfg = demo_redis and E = E and a = ?a]
    by (simp add: own start silenced_def)
  have "svc_step E ?a stopping (SEnd 1 None) (bg_end 1 None stopping)"
    by (rule svc_step.bg_end) (simp_all add: stopping_def main_select_def start two_pools_bg(1))
  moreover have "rs_phase (fd_src silenced) = PReturned" by (simp add: silenced_def session_end_def)
  ultimately have 5: "fed_step E ?a demo_redis \<lparr>fd_svc = stopping, fd_src = fd_src silenced\<rparr> (FReturn 1) silenced"
    using fed_step.fed_return [where w = "\<lparr>fd_svc = stopping, fd_src = fd_src silenced\<rparr>" and a = ?a and i = 1 and E = E
        and s' = "bg_end 1 None stopping" and cfg = demo_redis]
    by (simp add: two_pools_bg(1)) (simp add: silenced_def)
  show ?thesis unfolding silent_stop_def using 1 2 3 4 5 by auto
qed

lemma silenced_rests:
  "\<not> enabled (fed_step E (newApp two_pools) demo_redis) fed_unblocks silenced"
  "\<not> enabled (fed_step E (newApp two_pools) demo_redis) ((=) (FSrc RCloser)) silenced"
  "\<not> enabled (fed_step E (newApp two_pools) demo_redis) fed_returns silenced"
  "sv_cancelled (fd_svc silenced)"
proof -
  have src: "rs_phase (fd_src silenced) = PReturned" "\<not> rs_closer (fd_src silenced)"
    by (simp_all add: silenced_def session_end_def)
  show "\<not> enabled (fed_step E (newApp two_pools) demo_redis) fed_unblocks silenced"
    unfolding enabled_def using src by (auto elim!: fed_stepE rstepE simp: fed_unblocks_def)
  show "\<not> enabled (fed_step E (newApp two_pools) demo_redis) ((=) (FSrc RCloser)) silenced"
    unfolding enabled_def using src by (auto elim!: fed_stepE rstepE)
  have "sv_bg (fd_svc silenced) = [(BSource SourceHTTP, False), (BSource SourceRedis, True)]"
    by (simp add: silenced_def bg_end_def stopping_def main_select_def svc_start_def two_pools_bg(1))
  then show "\<not> enabled (fed_step E (newApp two_pools) demo_redis) fed_returns silenced"
    unfolding enabled_def
    by (auto elim!: fed_stepE svc_stepE simp: fed_returns_def two_pools_bg(1) less_Suc_eq nth_Cons SourceHTTP_def SourceRedis_def split: nat.splits)
  show "sv_cancelled (fd_svc silenced)" by (simp add: silenced_def bg_end_def stopping_def main_select_def)
qed

lemma source_ends_with_service_witness:
  "\<exists>\<sigma> \<tau>. fed_path (\<lambda>_. demo_env) (newApp two_pools) demo_redis \<sigma> \<tau> \<and> \<tau> 0 = FSvc SCtx \<and>
     (\<exists>m. (BSource SourceRedis, True) \<in> set (sv_bg (fd_svc (\<sigma> m))))"
proof -
  obtain \<sigma> \<tau> where p: "fed_path (\<lambda>_. demo_env) (newApp two_pools) demo_redis \<sigma> \<tau>" "\<forall>n\<ge>length silent_stop. \<sigma> n = silenced"
      "map \<tau> [0..<length silent_stop] = silent_stop"
    using path_of_run [OF silent_stop_run [of "\<lambda>_. demo_env"], of "FSrc RIdle"] fed_idle by blast
  have "\<tau> 0 = FSvc SCtx" using p(3) [THEN arg_cong, of hd] by (simp add: silent_stop_def upt_conv_Cons)
  moreover have "sv_cancelled (fd_svc (\<sigma> (length silent_stop)))" using p(2) silenced_rests(4) by simp
  note source_ends_with_service [OF p(1) two_pools_bg(2) fair_final [OF p(2) silenced_rests(1)]
      fair_final [OF p(2) silenced_rests(2)] fair_final [OF p(2) silenced_rests(3)] this]
  ultimately show ?thesis using p(1) by blast
qed

end
