(* ===== verification/Clock.thy ===== *)
theory Clock
  imports ClockFake
begin

text \<open>
  \<open>internal/clock/clock.go\<close>: the interface \<open>Clock\<close> with its timers and tickers, the wall
  clock \<open>Real\<close> over package \<open>time\<close>, and \<open>FakeClock\<close> as the other implementation.  A value of
  the interface is a record of its methods; what a channel holds is read by \<open>Timer_C\<close>.
  \<open>clock_laws\<close> states what the pool relies on, with the passing of time as an operation of
  its own; \<open>Real\<close> keeps it over every package \<open>time\<close> that does, \<open>FakeClock\<close> keeps it outright.
\<close>

section \<open>The interface and its implementations\<close>

record ('t, 'c) Timers =
  Timer_C :: "'t \<Rightarrow> 'c \<Rightarrow> gtime option"
  Timer_Stop :: "'t \<Rightarrow> 'c \<Rightarrow> bool \<times> 'c"
  Ticker_C :: "'t \<Rightarrow> 'c \<Rightarrow> gtime option"
  Ticker_Stop :: "'t \<Rightarrow> 'c \<Rightarrow> 'c"

record ('t, 'c) Clock = "('t, 'c) Timers" +
  Clock_Now :: "'c \<Rightarrow> gtime"
  Clock_After :: "duration \<Rightarrow> 'c \<Rightarrow> 't \<times> 'c"
  Clock_NewTimer :: "duration \<Rightarrow> 'c \<Rightarrow> 't \<times> 'c"
  Clock_NewTicker :: "duration \<Rightarrow> 'c \<Rightarrow> ('t \<times> 'c) option"

text \<open>The functions of package \<open>time\<close> the wall clock calls; \<open>time_C\<close> is the field \<open>C\<close>.\<close>

record ('t, 'c) time_package =
  time_Now :: "'c \<Rightarrow> gtime"
  time_After :: "duration \<Rightarrow> 'c \<Rightarrow> 't \<times> 'c"
  time_NewTimer :: "duration \<Rightarrow> 'c \<Rightarrow> 't \<times> 'c"
  time_NewTicker :: "duration \<Rightarrow> 'c \<Rightarrow> ('t \<times> 'c) option"
  time_C :: "'t \<Rightarrow> 'c \<Rightarrow> gtime option"
  time_Stop :: "'t \<Rightarrow> 'c \<Rightarrow> bool \<times> 'c"
  time_TickerStop :: "'t \<Rightarrow> 'c \<Rightarrow> 'c"

text \<open>\<open>realTimer\<close> and \<open>realTicker\<close> wrap the timer of the package.\<close>

datatype 't real_timer = RealTimer (unwrap: 't)

definition Real :: "('t, 'c) time_package \<Rightarrow> ('t real_timer, 'c) Clock" where
  "Real T = \<lparr>
     Timer_C = (\<lambda>t. time_C T (unwrap t)),
     Timer_Stop = (\<lambda>t. time_Stop T (unwrap t)),
     Ticker_C = (\<lambda>t. time_C T (unwrap t)),
     Ticker_Stop = (\<lambda>t. time_TickerStop T (unwrap t)),
     Clock_Now = time_Now T,
     Clock_After = (\<lambda>d c. map_prod RealTimer id (time_After T d c)),
     Clock_NewTimer = (\<lambda>d c. map_prod RealTimer id (time_NewTimer T d c)),
     Clock_NewTicker = (\<lambda>d c. map_option (map_prod RealTimer id) (time_NewTicker T d c))\<rparr>"

definition fc_C :: "nat \<Rightarrow> FakeClock \<Rightarrow> gtime option" where
  "fc_C t c = fc_chan c t"

definition Fake :: "(nat, FakeClock) Clock" where
  "Fake = \<lparr>Timer_C = fc_C, Timer_Stop = fc_Stop, Ticker_C = fc_C, Ticker_Stop = (\<lambda>t c. snd (fc_Stop t c)),
     Clock_Now = fc_now, Clock_After = fc_After, Clock_NewTimer = fc_NewTimer, Clock_NewTicker = fc_NewTicker\<rparr>"

section \<open>What a clock promises\<close>

text \<open>\<open>pass d\<close> is the passing of time; \<open>armed t dl\<close>: the timer will fire at \<open>dl\<close>; \<open>off t\<close>: it was
  stopped before it fired.\<close>

locale clock_laws =
  fixes clk :: "('t, 'c) Clock" and pass :: "duration \<Rightarrow> 'c \<Rightarrow> 'c" and ok :: "'c \<Rightarrow> bool"
    and armed :: "'t \<Rightarrow> gtime \<Rightarrow> 'c \<Rightarrow> bool" and off :: "'t \<Rightarrow> 'c \<Rightarrow> bool"
  assumes timer_new: "ok c \<Longrightarrow> ok (snd (Clock_NewTimer clk d c))"
      "ok c \<Longrightarrow> armed (fst (Clock_NewTimer clk d c)) (Clock_Now clk c + d) (snd (Clock_NewTimer clk d c))"
      "ok c \<Longrightarrow> Clock_Now clk (snd (Clock_NewTimer clk d c)) = Clock_Now clk c"
    and timer_frame: "ok c \<Longrightarrow> armed t dl c \<Longrightarrow> armed t dl (snd (Clock_NewTimer clk d c))"
      "ok c \<Longrightarrow> off t c \<Longrightarrow> off t (snd (Clock_NewTimer clk d c))"
      "ok c \<Longrightarrow> Timer_C clk t c = Some v \<Longrightarrow> Timer_C clk t (snd (Clock_NewTimer clk d c)) = Some v"
    and stop_armed: "ok c \<Longrightarrow> armed t dl c \<Longrightarrow> fst (Timer_Stop clk t c)"
      "ok c \<Longrightarrow> armed t dl c \<Longrightarrow> off t (snd (Timer_Stop clk t c))"
    and stop_frame: "ok c \<Longrightarrow> ok (snd (Timer_Stop clk u c))"
      "ok c \<Longrightarrow> Clock_Now clk (snd (Timer_Stop clk u c)) = Clock_Now clk c"
      "ok c \<Longrightarrow> armed t dl c \<Longrightarrow> u \<noteq> t \<Longrightarrow> armed t dl (snd (Timer_Stop clk u c))"
      "ok c \<Longrightarrow> off t c \<Longrightarrow> off t (snd (Timer_Stop clk u c))"
      "ok c \<Longrightarrow> Timer_C clk t c = Some v \<Longrightarrow> Timer_C clk t (snd (Timer_Stop clk u c)) = Some v"
    and silent: "armed t dl c \<Longrightarrow> Timer_C clk t c = None" "off t c \<Longrightarrow> Timer_C clk t c = None"
    and pass_ok: "ok c \<Longrightarrow> ok (pass d c)" "ok c \<Longrightarrow> Clock_Now clk (pass d c) = Clock_Now clk c + d"
    and pass_early: "ok c \<Longrightarrow> armed t dl c \<Longrightarrow> Clock_Now clk c + d < dl \<Longrightarrow> armed t dl (pass d c)"
    and pass_due: "ok c \<Longrightarrow> armed t dl c \<Longrightarrow> dl \<le> Clock_Now clk c + d \<Longrightarrow> Timer_C clk t (pass d c) = Some dl"
    and pass_off: "ok c \<Longrightarrow> off t c \<Longrightarrow> off t (pass d c)"
    and pass_fired: "ok c \<Longrightarrow> Timer_C clk t c = Some v \<Longrightarrow> Timer_C clk t (pass d c) = Some v"

text \<open>What else happens to a clock while one timer runs.\<close>

datatype 't clock_event = Passes duration | Arms duration | Stops 't

fun happens :: "('t, 'c) Clock \<Rightarrow> (duration \<Rightarrow> 'c \<Rightarrow> 'c) \<Rightarrow> 't clock_event \<Rightarrow> 'c \<Rightarrow> 'c" where
  "happens clk pass (Passes d) c = pass d c"
| "happens clk pass (Arms d) c = snd (Clock_NewTimer clk d c)"
| "happens clk pass (Stops t) c = snd (Timer_Stop clk t c)"

definition happen :: "('t, 'c) Clock \<Rightarrow> (duration \<Rightarrow> 'c \<Rightarrow> 'c) \<Rightarrow> 't clock_event list \<Rightarrow> 'c \<Rightarrow> 'c" where
  "happen clk pass es c = fold (happens clk pass) es c"

lemma happen_simps [simp]:
  "happen clk pass [] c = c" "happen clk pass (e # es) c = happen clk pass es (happens clk pass e c)"
  by (simp_all add: happen_def)

text \<open>No time runs backwards, and nobody else stops the timer.\<close>

fun leaves :: "'t \<Rightarrow> 't clock_event \<Rightarrow> bool" where
  "leaves t (Passes d) \<longleftrightarrow> 0 \<le> d"
| "leaves t (Arms d) \<longleftrightarrow> True"
| "leaves t (Stops u) \<longleftrightarrow> u \<noteq> t"

context clock_laws begin

lemma happens_ok: "ok c \<Longrightarrow> ok (happens clk pass e c)"
  by (cases e) (simp_all add: pass_ok timer_new stop_frame)

lemma happens_now: "ok c \<Longrightarrow> Clock_Now clk (happens clk pass e c) =
    Clock_Now clk c + (case e of Passes d \<Rightarrow> d | _ \<Rightarrow> 0)"
  by (cases e) (simp_all add: pass_ok timer_new stop_frame)

lemma happens_fired: "ok c \<Longrightarrow> Timer_C clk t c = Some v \<Longrightarrow> Timer_C clk t (happens clk pass e c) = Some v"
  by (cases e) (simp_all add: pass_fired timer_frame stop_frame)

lemma happens_off: "ok c \<Longrightarrow> off t c \<Longrightarrow> off t (happens clk pass e c)"
  by (cases e) (simp_all add: pass_off timer_frame stop_frame)

lemma happens_armed:
  assumes "ok c" "armed t dl c" "leaves t e" "Clock_Now clk c < dl"
  shows "if dl \<le> Clock_Now clk (happens clk pass e c) then Timer_C clk t (happens clk pass e c) = Some dl
    else armed t dl (happens clk pass e c)"
  using assms by (cases e) (simp_all add: pass_ok pass_early pass_due timer_new timer_frame stop_frame)

lemma happen_ok: "ok c \<Longrightarrow> ok (happen clk pass es c)"
  by (induction es arbitrary: c) (auto simp: happens_ok)

lemma happen_fired: "ok c \<Longrightarrow> Timer_C clk t c = Some v \<Longrightarrow> Timer_C clk t (happen clk pass es c) = Some v"
  by (induction es arbitrary: c) (auto simp: happens_ok happens_fired)

text \<open>A timer that was stopped in time never fires.\<close>

lemma happen_off: "ok c \<Longrightarrow> off t c \<Longrightarrow> Timer_C clk t (happen clk pass es c) = None"
  by (induction es arbitrary: c) (auto simp: happens_ok happens_off silent)

lemma now_grows:
  "ok c \<Longrightarrow> list_all (leaves t) es \<Longrightarrow> Clock_Now clk c \<le> Clock_Now clk (happen clk pass es c)"
proof (induction es arbitrary: c)
  case (Cons e es)
  from Cons.prems have "Clock_Now clk c \<le> Clock_Now clk (happens clk pass e c)"
    using happens_now [of c e] by (cases e) auto
  with Cons.IH [of "happens clk pass e c"] happens_ok [of c e] Cons.prems show ?case by simp
qed simp

text \<open>A timer nobody stops stays armed before its deadline, and has fired exactly when its deadline has been reached.\<close>

lemma stays_armed:
  "ok c \<Longrightarrow> armed t dl c \<Longrightarrow> list_all (leaves t) es \<Longrightarrow> Clock_Now clk (happen clk pass es c) < dl \<Longrightarrow>
   armed t dl (happen clk pass es c)"
proof (induction es arbitrary: c)
  case (Cons e es)
  let ?c = "happens clk pass e c"
  have ok: "ok ?c" using Cons.prems(1) by (rule happens_ok)
  have "Clock_Now clk c \<le> Clock_Now clk ?c" using now_grows [OF Cons.prems(1), of t "[e]"] Cons.prems(3) by simp
  moreover have "Clock_Now clk ?c \<le> Clock_Now clk (happen clk pass es ?c)"
    using now_grows [OF ok, of t es] Cons.prems(3) by simp
  ultimately have "armed t dl ?c" using happens_armed [OF Cons.prems(1,2), of e] Cons.prems(3,4) by simp
  with Cons ok show ?case by simp
qed simp

lemma fires_when_due:
  assumes "ok c" "armed t dl c" "Clock_Now clk c < dl" "list_all (leaves t) es"
  shows "Timer_C clk t (happen clk pass es c) =
    (if dl \<le> Clock_Now clk (happen clk pass es c) then Some dl else None)"
  using assms
proof (induction es arbitrary: c)
  case Nil
  then show ?case by (simp add: silent(1) [of t dl])
next
  case (Cons e es)
  let ?c = "happens clk pass e c"
  have ok: "ok ?c" using Cons.prems(1) by (rule happens_ok)
  show ?case
  proof (cases "dl \<le> Clock_Now clk ?c")
    case True
    with happens_armed [OF Cons.prems(1,2) _ Cons.prems(3), of e] Cons.prems(4) have "Timer_C clk t ?c = Some dl" by simp
    with happen_fired [OF ok] now_grows [OF ok, of t es] Cons.prems(4) True show ?thesis by simp
  next
    case False
    with happens_armed [OF Cons.prems(1,2) _ Cons.prems(3), of e] Cons.prems(4) have "armed t dl ?c" by simp
    with Cons.IH [OF ok] False Cons.prems(4) show ?thesis by simp
  qed
qed

end

section \<open>The wall clock\<close>

text \<open>Package \<open>time\<close> read as a clock of its own; \<open>Real\<close> keeps what the package keeps.\<close>

definition package_clock :: "('t, 'c) time_package \<Rightarrow> ('t, 'c) Clock" where
  "package_clock T = \<lparr>Timer_C = time_C T, Timer_Stop = time_Stop T, Ticker_C = time_C T, Ticker_Stop = time_TickerStop T,
     Clock_Now = time_Now T, Clock_After = time_After T, Clock_NewTimer = time_NewTimer T, Clock_NewTicker = time_NewTicker T\<rparr>"

lemmas clock_promises = clock_laws.timer_new clock_laws.timer_frame clock_laws.stop_armed clock_laws.stop_frame
  clock_laws.silent clock_laws.pass_ok clock_laws.pass_early clock_laws.pass_due clock_laws.pass_off clock_laws.pass_fired

lemma unwrap_inject: "unwrap t = unwrap u \<longleftrightarrow> t = u"
  by (metis real_timer.expand)

lemma Real_laws:
  assumes "clock_laws (package_clock T) pass ok armed off"
  shows "clock_laws (Real T) pass ok (\<lambda>t. armed (unwrap t)) (\<lambda>t. off (unwrap t))"
proof -
  have unwrapped: "Clock_Now (Real T) = Clock_Now (package_clock T)"
    "Timer_C (Real T) t = Timer_C (package_clock T) (unwrap t)"
    "Timer_Stop (Real T) t = Timer_Stop (package_clock T) (unwrap t)"
    "snd (Clock_NewTimer (Real T) d c) = snd (Clock_NewTimer (package_clock T) d c)"
    "unwrap (fst (Clock_NewTimer (Real T) d c)) = fst (Clock_NewTimer (package_clock T) d c)" for t d c
    by (simp_all add: Real_def package_clock_def map_prod_def split: prod.split)
  show ?thesis
    by unfold_locales
      (simp_all add: unwrapped unwrap_inject clock_promises [OF assms])
qed

section \<open>The fake clock keeps the promise\<close>

definition fc_armed :: "nat \<Rightarrow> gtime \<Rightarrow> FakeClock \<Rightarrow> bool" where
  "fc_armed t dl c \<longleftrightarrow> \<lparr>wt_id = t, wt_at = dl, wt_period = 0\<rparr> \<in> set (fc_waiters c) \<and> fc_chan c t = None"

definition fc_off :: "nat \<Rightarrow> FakeClock \<Rightarrow> bool" where
  "fc_off t c \<longleftrightarrow> t \<notin> wt_id ` set (fc_waiters c) \<and> t < fc_next c \<and> fc_chan c t = None"

text \<open>A well-formed clock whose channels belong to waiters it has handed out.\<close>

definition fc_ok :: "FakeClock \<Rightarrow> bool" where
  "fc_ok c \<longleftrightarrow> fc_wf c \<and> (\<forall>t\<ge>fc_next c. fc_chan c t = None)"

text \<open>The channels after an advance hold the first value sent to each.\<close>

definition first_sent :: "(nat \<times> gtime) list \<Rightarrow> (nat \<Rightarrow> gtime option) \<Rightarrow> nat \<Rightarrow> gtime option" where
  "first_sent new ch i = (case ch i of Some v \<Rightarrow> Some v | None \<Rightarrow> map_of new i)"

lemma fire_frame:
  "fc_next (fc_fire w ws c) = fc_next c"
  "fc_chan (fc_fire w ws c) = first_sent [(wt_id w, wt_at w)] (fc_chan c)"
  by (auto simp: fc_fire_def fc_remove_def first_sent_def Let_def fun_eq_iff split: prod.split option.split)

lemma first_sent_twice: "first_sent new (first_sent [(i, v)] ch) = first_sent ((i, v) # new) ch"
  by (auto simp: first_sent_def fun_eq_iff split: option.splits)

lemma loop_channels:
  "\<exists>new. fc_sends (advance_loop target c) = fc_sends c @ new \<and>
     fc_chan (advance_loop target c) = first_sent new (fc_chan c) \<and> fc_next (advance_loop target c) = fc_next c"
proof (induction target c rule: advance_loop.induct)
  case (1 target c)
  obtain x d where e: "fc_earliest c = (x, d)" by fastforce
  then have d: "fc_sends d = fc_sends c" "fc_chan d = fc_chan c" "fc_next d = fc_next c"
    by (auto simp: fc_earliest_def Let_def)
  have none: "first_sent [] ch = ch" for ch by (auto simp: first_sent_def fun_eq_iff split: option.split)
  show ?case
  proof (cases "\<exists>w. x = Some w \<and> \<not> time_after (wt_at w) target")
    case True
    then obtain w where w: "x = Some w" "\<not> time_after (wt_at w) target" by blast
    let ?f = "fc_fire w (tl (fc_waiters d)) d"
    from 1 e w obtain new where "fc_sends (advance_loop target ?f) = fc_sends ?f @ new"
      "fc_chan (advance_loop target ?f) = first_sent new (fc_chan ?f)" "fc_next (advance_loop target ?f) = fc_next ?f"
      by force
    with d e w show ?thesis
      by (intro exI [of _ "(wt_id w, wt_at w) # new"])
        (simp add: advance_loop.simps [of target c] fc_sends_fire fire_frame first_sent_twice)
  next
    case False
    with d e none show ?thesis
      by (intro exI [of _ "[]"]) (auto simp: advance_loop.simps [of target c] split: option.split)
  qed
qed

lemma loop_keeps: "w \<in> set (fc_waiters c) \<Longrightarrow> target < wt_at w \<Longrightarrow> w \<in> set (fc_waiters (advance_loop target c))"
proof (induction target c rule: advance_loop.induct)
  case (1 target c)
  obtain x d where e: "fc_earliest c = (x, d)" by fastforce
  then have in_d: "w \<in> set (fc_waiters d)" using 1(2) by (auto simp: fc_earliest_def Let_def)
  show ?case
  proof (cases x)
    case None
    with e in_d show ?thesis by (simp add: advance_loop.simps [of target c])
  next
    case (Some v)
    with e have "fc_waiters d = v # tl (fc_waiters d)" using earliest_Some(1) by auto
    then have "w = v \<or> w \<in> set (tl (fc_waiters d))" using in_d by (metis set_ConsD)
    moreover have "v \<noteq> w" if "\<not> time_after (wt_at v) target" using that 1(3) by (auto simp: go_defs)
    ultimately have "w \<in> set (fc_waiters (fc_fire v (tl (fc_waiters d)) d))" if "\<not> time_after (wt_at v) target"
      using that fc_fire_waiters [OF \<open>fc_waiters d = v # tl (fc_waiters d)\<close>] by auto
    with 1 e Some in_d show ?thesis by (auto simp: advance_loop.simps [of target c])
  qed
qed

lemma loop_ids: "wt_id ` set (fc_waiters (advance_loop target c)) \<subseteq> wt_id ` set (fc_waiters c)"
proof (induction target c rule: advance_loop.induct)
  case (1 target c)
  obtain x d where e: "fc_earliest c = (x, d)" by fastforce
  then have d: "set (fc_waiters d) = set (fc_waiters c)" by (auto simp: fc_earliest_def Let_def)
  show ?case
  proof (cases "\<exists>w. x = Some w \<and> \<not> time_after (wt_at w) target")
    case True
    then obtain w where w: "x = Some w" "\<not> time_after (wt_at w) target" by blast
    have D: "fc_waiters d = w # tl (fc_waiters d)" using e w(1) earliest_Some(1) by auto
    have "wt_id ` set (fc_waiters (fc_fire w (tl (fc_waiters d)) d)) \<subseteq> wt_id ` set (w # tl (fc_waiters d))"
      using fc_fire_waiters [OF D] by auto
    also have "\<dots> = wt_id ` set (fc_waiters c)" using d by (simp flip: D)
    finally show ?thesis
      using 1 [OF e [symmetric] w(1)] w e by (auto simp: advance_loop.simps [of target c])
  next
    case False
    with d e show ?thesis by (auto simp: advance_loop.simps [of target c] split: option.split)
  qed
qed

lemma fc_ok_new: "fc_ok (NewFake start)"
  by (simp add: fc_ok_def fc_wf_new) (simp add: NewFake_def)

lemma fc_wf_keys: "fc_wf c \<Longrightarrow> w \<in> set (fc_waiters c) \<Longrightarrow> v \<in> set (fc_waiters c) \<Longrightarrow> wt_id w = wt_id v \<Longrightarrow> w = v"
  by (auto simp: fc_wf_def distinct_map inj_on_def)

lemma fc_fresh: "fc_wf c \<Longrightarrow> w \<in> set (fc_waiters c) \<Longrightarrow> wt_id w < fc_next c"
  by (auto simp: fc_wf_def list_all_iff)

lemma fc_ok_add: "fc_ok c \<Longrightarrow> fc_ok (snd (fc_add d p c))"
  using fc_wf_add [of c d p] by (auto simp: fc_ok_def fc_add_def)

lemma remove_waiter_found: "fst (remove_waiter i ws) \<longleftrightarrow> i \<in> wt_id ` set ws"
  by (induction ws) (auto split: prod.splits)

lemma remove_waiter_mem:
  "distinct (map wt_id ws) \<Longrightarrow> set (snd (remove_waiter i ws)) = {w \<in> set ws. wt_id w \<noteq> i}"
proof (induction ws)
  case (Cons w ws)
  show ?case
  proof (cases "wt_id w = i")
    case True
    then have "\<forall>v \<in> set ws. wt_id v \<noteq> i" using Cons.prems by (auto simp: image_iff)
    with True show ?thesis by auto
  qed (use Cons in \<open>auto simp: split_beta\<close>)
qed simp

lemma stop_facts:
  "fc_chan (snd (fc_Stop i c)) = fc_chan c" "fc_next (snd (fc_Stop i c)) = fc_next c" "fc_now (snd (fc_Stop i c)) = fc_now c"
  "fst (fc_Stop i c) \<longleftrightarrow> i \<in> wt_id ` set (fc_waiters c)"
  by (simp_all add: fc_Stop_def fc_remove_def remove_waiter_found [symmetric] split: prod.split)

lemma stop_waiters: "fc_wf c \<Longrightarrow> set (fc_waiters (snd (fc_Stop i c))) = {w \<in> set (fc_waiters c). wt_id w \<noteq> i}"
  using remove_waiter_mem [of "fc_waiters c" i] by (simp add: fc_Stop_def fc_remove_def fc_wf_def split_beta)

text \<open>One advance, for a timer and for the channels.\<close>

lemma advance_facts:
  assumes "fc_ok c"
  shows "fc_ok (fc_Advance d c)" "fc_now (fc_Advance d c) = fc_now c + d" "fc_next (fc_Advance d c) = fc_next c"
    and "\<exists>new. fc_chan (fc_Advance d c) = first_sent new (fc_chan c) \<and> advances (fc_now c + d) c new (fc_Advance d c)"
proof -
  let ?l = "advance_loop (fc_now c + d) c"
  have "distinct (map wt_id (fc_waiters c))" using assms by (simp add: fc_ok_def fc_wf_def)
  then obtain new where new: "advances (fc_now c + d) c new ?l" using advance_loop_advances by blast
  obtain new' where new': "fc_sends ?l = fc_sends c @ new'" "fc_chan ?l = first_sent new' (fc_chan c)" "fc_next ?l = fc_next c"
    using loop_channels by blast
  with new have "new' = new" by (simp add: advances_def)
  with new new' show "\<exists>new. fc_chan (fc_Advance d c) = first_sent new (fc_chan c) \<and> advances (fc_now c + d) c new (fc_Advance d c)"
    by (auto simp: fc_Advance_def go_defs Let_def advances_def)
  show "fc_now (fc_Advance d c) = fc_now c + d" "fc_next (fc_Advance d c) = fc_next c"
    using new' by (simp_all add: fc_Advance_def go_defs Let_def)
  have "fst ` set new \<subseteq> wt_id ` set (fc_waiters c)" using new by (simp add: advances_def)
  then have "map_of new t = None" if "fc_next c \<le> t" for t
    using that assms fc_fresh [of c] by (force simp: map_of_eq_None_iff fc_ok_def)
  with new' \<open>new' = new\<close> assms fc_wf_Advance [of c d] show "fc_ok (fc_Advance d c)"
    by (simp add: fc_ok_def fc_Advance_def first_sent_def go_defs Let_def)
qed

lemma advance_keeps_waiter:
  "w \<in> set (fc_waiters c) \<Longrightarrow> fc_now c + d < wt_at w \<Longrightarrow> w \<in> set (fc_waiters (fc_Advance d c))"
  using loop_keeps by (simp add: fc_Advance_def go_defs Let_def)

lemma advance_timer:
  assumes "fc_ok c" "fc_armed t dl c"
  shows "fc_chan (fc_Advance d c) t = (if dl \<le> fc_now c + d then Some dl else None)"
proof -
  obtain new where new: "fc_chan (fc_Advance d c) = first_sent new (fc_chan c)"
    and a: "advances (fc_now c + d) c new (fc_Advance d c)" using advance_facts(4) [OF assms(1)] by blast
  have "sends_of t new = fires (fc_now c + d) \<lparr>wt_id = t, wt_at = dl, wt_period = 0\<rparr>"
    using a assms(2) by (force simp: advances_def fc_armed_def)
  moreover have "map_of xs t = (case sends_of t xs of [] \<Rightarrow> None | v # _ \<Rightarrow> Some v)" for xs
    by (induction xs) (auto simp: sends_of_def)
  ultimately show ?thesis
    using new assms(2) by (simp add: first_sent_def fc_armed_def fires_def)
qed

text \<open>The promises about arming, stopping and the passing of time.\<close>

lemma fake_arm:
  assumes "fc_ok c"
  shows "fc_armed (fst (fc_NewTimer d c)) (fc_now c + d) (snd (fc_NewTimer d c))" "fc_ok (snd (fc_NewTimer d c))"
    "fc_now (snd (fc_NewTimer d c)) = fc_now c"
    "fc_armed t dl c \<Longrightarrow> fc_armed t dl (snd (fc_NewTimer d c))" "fc_off t c \<Longrightarrow> fc_off t (snd (fc_NewTimer d c))"
    "fc_chan c t = Some v \<Longrightarrow> fc_chan (snd (fc_NewTimer d c)) t = Some v"
proof -
  show "fc_armed t dl c \<Longrightarrow> fc_armed t dl (snd (fc_NewTimer d c))"
    using fc_fresh [of c] assms by (force simp: fc_NewTimer_def fc_add_def fc_armed_def fc_ok_def)
  have "fc_chan c (fc_next c) = None" using assms by (simp add: fc_ok_def)
  then show "fc_chan c t = Some v \<Longrightarrow> fc_chan (snd (fc_NewTimer d c)) t = Some v"
    by (auto simp: fc_NewTimer_def fc_add_def)
qed (use fc_ok_add [OF assms] in \<open>auto simp: fc_NewTimer_def fc_add_def fc_armed_def fc_off_def go_defs\<close>)

lemma fake_stop:
  assumes "fc_ok c"
  shows "fc_ok (snd (fc_Stop u c))" "fc_armed t dl c \<Longrightarrow> fst (fc_Stop t c)" "fc_armed t dl c \<Longrightarrow> fc_off t (snd (fc_Stop t c))"
    "fc_armed t dl c \<Longrightarrow> u \<noteq> t \<Longrightarrow> fc_armed t dl (snd (fc_Stop u c))" "fc_off t c \<Longrightarrow> fc_off t (snd (fc_Stop u c))"
proof -
  have wf: "fc_wf c" using assms by (simp add: fc_ok_def)
  show "fc_ok (snd (fc_Stop u c))" using assms fc_wf_Stop [OF wf, of u] by (simp add: fc_ok_def stop_facts)
  show "fc_armed t dl c \<Longrightarrow> fst (fc_Stop t c)" by (force simp: fc_armed_def stop_facts)
  show "fc_armed t dl c \<Longrightarrow> fc_off t (snd (fc_Stop t c))"
    using fc_fresh [OF wf] by (force simp: fc_armed_def fc_off_def stop_facts stop_waiters [OF wf])
qed (use assms in \<open>auto simp: fc_armed_def fc_off_def fc_ok_def stop_facts stop_waiters\<close>)

lemma fake_pass:
  assumes "fc_ok c"
  shows "fc_armed t dl c \<Longrightarrow> fc_now c + d < dl \<Longrightarrow> fc_armed t dl (fc_Advance d c)"
    "fc_off t c \<Longrightarrow> fc_off t (fc_Advance d c)" "fc_chan c t = Some v \<Longrightarrow> fc_chan (fc_Advance d c) t = Some v"
proof -
  show "fc_armed t dl (fc_Advance d c)" if "fc_armed t dl c" "fc_now c + d < dl"
    using that advance_keeps_waiter [of "\<lparr>wt_id = t, wt_at = dl, wt_period = 0\<rparr>" c d] advance_timer [OF assms that(1), of d]
    by (simp add: fc_armed_def)
  obtain new where new: "fc_chan (fc_Advance d c) = first_sent new (fc_chan c)"
    "advances (fc_now c + d) c new (fc_Advance d c)" using advance_facts(4) [OF assms] by blast
  then show "fc_chan c t = Some v \<Longrightarrow> fc_chan (fc_Advance d c) t = Some v" by (simp add: first_sent_def)
  have "wt_id ` set (fc_waiters (fc_Advance d c)) \<subseteq> wt_id ` set (fc_waiters c)"
    using loop_ids by (simp add: fc_Advance_def go_defs Let_def)
  moreover have "fc_off t c \<Longrightarrow> map_of new t = None"
    using new(2) by (auto simp: advances_def fc_off_def map_of_eq_None_iff)
  ultimately show "fc_off t c \<Longrightarrow> fc_off t (fc_Advance d c)"
    using new(1) advance_facts(3) [OF assms, of d] by (auto simp: fc_off_def first_sent_def)
qed

interpretation fake_clock: clock_laws Fake fc_Advance fc_ok fc_armed fc_off
  by unfold_locales
    (simp_all add: Fake_def fc_C_def fake_arm fake_stop fake_stop(2) [unfolded stop_facts] fake_pass stop_facts
        advance_facts advance_timer, simp_all add: fc_armed_def fc_off_def)

end
