(* ===== verification/Deadline.thy ===== *)
theory Deadline
  imports Clock PoolOps
begin

text \<open>
  The lifetime of a worker on the pool's clock: \<open>spawnLocked\<close> arms the \<open>ttl\<close> timer, \<open>wait\<close>
  listens to its channel and stops it when it returns.  \<open>PoolRun\<close> lets the timer of a
  worker fire at any moment; here is when it does.
\<close>

text \<open>\<open>ttlTimer\<close> on a clock; nil is \<open>None\<close>.\<close>

definition arm_ttl :: "('t, 'c) Clock \<Rightarrow> PoolConfig \<Rightarrow> 'c \<Rightarrow> 't option \<times> 'c" where
  "arm_ttl clk cfg c = (case ttlTimer cfg of
     None \<Rightarrow> (None, c)
   | Some d \<Rightarrow> map_prod Some id (Clock_NewTimer clk d c))"

text \<open>The branch of the \<open>select\<close> in \<open>wait\<close> that kills for \<open>ttl\<close> can be taken; a nil channel never
  delivers.\<close>

definition ttl_ready :: "('t, 'c) Clock \<Rightarrow> 't option \<Rightarrow> 'c \<Rightarrow> bool" where
  "ttl_ready clk ttl c = (case ttl of None \<Rightarrow> False | Some t \<Rightarrow> Timer_C clk t c \<noteq> None)"

text \<open>The deferred \<open>ttl.Stop()\<close>.\<close>

definition stop_ttl :: "('t, 'c) Clock \<Rightarrow> 't option \<Rightarrow> 'c \<Rightarrow> 'c" where
  "stop_ttl clk ttl c = (case ttl of None \<Rightarrow> c | Some t \<Rightarrow> snd (Timer_Stop clk t c))"

definition others :: "'t option \<Rightarrow> 't clock_event \<Rightarrow> bool" where
  "others ttl e = (case ttl of None \<Rightarrow> (case e of Passes d \<Rightarrow> 0 \<le> d | _ \<Rightarrow> True) | Some t \<Rightarrow> leaves t e)"

lemma others_Some [simp]: "others (Some t) = leaves t"
  by (simp add: others_def fun_eq_iff)

context clock_laws begin

lemma ttl_ready_iff:
  assumes "ok c" "arm_ttl clk cfg c = (ttl, c1)" "list_all (others ttl) es"
  shows "ttl_ready clk ttl (happen clk pass es c1) \<longleftrightarrow>
    0 < pc_TTL cfg \<and> Clock_Now clk c + pc_TTL cfg \<le> Clock_Now clk (happen clk pass es c1)"
proof (cases "pc_TTL cfg \<le> 0")
  case False
  obtain t where T: "Clock_NewTimer clk (pc_TTL cfg) c = (t, c1)" "ttl = Some t"
    using assms(2) False by (auto simp: arm_ttl_def ttlTimer_def map_prod_def split: prod.splits)
  note new = timer_new [OF assms(1), of "pc_TTL cfg", unfolded T, simplified]
  have "list_all (leaves t) es" using assms(3) T(2) by simp
  with fires_when_due [OF new(1,2)] new(3) False T(2) show ?thesis by (simp add: ttl_ready_def)
qed (use assms(2) in \<open>auto simp: arm_ttl_def ttlTimer_def ttl_ready_def\<close>)

lemma ttl_stopped:
  assumes "ok c" "arm_ttl clk cfg c = (ttl, c1)" "list_all (others ttl) es"
    and "\<not> ttl_ready clk ttl (happen clk pass es c1)"
  shows "\<not> ttl_ready clk ttl (happen clk pass fs (stop_ttl clk ttl (happen clk pass es c1)))"
proof (cases "pc_TTL cfg \<le> 0")
  case False
  let ?c = "happen clk pass es c1"
  obtain t where T: "Clock_NewTimer clk (pc_TTL cfg) c = (t, c1)" "ttl = Some t"
    using assms(2) False by (auto simp: arm_ttl_def ttlTimer_def map_prod_def split: prod.splits)
  note new = timer_new [OF assms(1), of "pc_TTL cfg", unfolded T, simplified]
  have "Clock_Now clk ?c < Clock_Now clk c + pc_TTL cfg"
    using ttl_ready_iff [OF assms(1-3)] assms(4) False by simp
  then have "armed t (Clock_Now clk c + pc_TTL cfg) ?c"
    using stays_armed [OF new(1,2)] assms(3) T(2) by (simp add: others_def)
  then have "off t (snd (Timer_Stop clk t ?c))" using stop_armed(2) [OF happen_ok [OF new(1)]] by blast
  with happen_off [OF stop_frame(1) [OF happen_ok [OF new(1)]]] T(2)
  show ?thesis by (simp add: ttl_ready_def stop_ttl_def)
qed (use assms(2) in \<open>auto simp: arm_ttl_def ttlTimer_def ttl_ready_def\<close>)

end

text \<open>C6: a worker is killed for \<open>ttl\<close> on time, on every clock that keeps \<open>clock_laws\<close>, as the fake
  clock does and the real one over a lawful package \<open>time\<close>.  Whatever other timers are armed
  and stopped while the clock moves, the deadline branch can be taken exactly when \<open>ttl\<close> is
  positive and that much time has passed since the worker started; with \<open>ttl: 0\<close> never; and
  if it had not fired when \<open>wait\<close> returned, the stopped timer never fires.\<close>

theorem ttl_kills_on_time:
  assumes "clock_laws clk pass ok armed off" "ok c" "arm_ttl clk cfg c = (ttl, c1)" "list_all (others ttl) es"
  shows "(ttl_ready clk ttl (happen clk pass es c1) \<longleftrightarrow>
      0 < pc_TTL cfg \<and> Clock_Now clk c + pc_TTL cfg \<le> Clock_Now clk (happen clk pass es c1)) \<and>
    (\<not> ttl_ready clk ttl (happen clk pass es c1) \<longrightarrow>
      \<not> ttl_ready clk ttl (happen clk pass fs (stop_ttl clk ttl (happen clk pass es c1))))"
  using clock_laws.ttl_ready_iff [OF assms] clock_laws.ttl_stopped [OF assms] by blast

text \<open>A worker with a \<open>ttl\<close> of 10 on a clock where another timer runs.\<close>

definition ttl_cfg :: PoolConfig where
  "ttl_cfg = builtinPool\<lparr>pc_TTL := 10\<rparr>"

lemma ttl_kills_on_time_witness:
  "ttl_ready Fake (fst (arm_ttl Fake ttl_cfg (NewFake 100)))
     (happen Fake fc_Advance [Arms 3, Passes 4, Passes 6] (snd (arm_ttl Fake ttl_cfg (NewFake 100)))) \<and>
   \<not> ttl_ready Fake (fst (arm_ttl Fake ttl_cfg (NewFake 100)))
     (happen Fake fc_Advance [Arms 3, Passes 4] (snd (arm_ttl Fake ttl_cfg (NewFake 100))))"
proof -
  let ?a = "arm_ttl Fake ttl_cfg (NewFake 100)"
  have a: "arm_ttl Fake ttl_cfg (NewFake 100) = (fst ?a, snd ?a)" by simp
  have f: "fst ?a = Some 0" "pc_TTL ttl_cfg = 10"
    by (simp_all add: arm_ttl_def ttlTimer_def ttl_cfg_def Fake_def fc_NewTimer_def fc_add_def NewFake_def)
  have ev: "list_all (others (fst ?a)) [Arms 3, Passes 4, Passes 6]" "list_all (others (fst ?a)) [Arms 3, Passes 4]"
    by (simp_all add: f others_def)
  have now: "fc_now (fc_Advance d c) = fc_now c + d" for d c by (simp add: fc_Advance_def go_defs Let_def)
  have arm: "fc_now (snd (Clock_NewTimer Fake d c)) = fc_now c" for d c
    by (simp add: Fake_def fc_NewTimer_def fc_add_def)
  have reads: "Clock_Now Fake = fc_now" "fc_now (NewFake t) = t" for t by (simp_all add: Fake_def NewFake_def)
  have start: "fc_now (snd ?a) = 100"
    by (simp add: arm_ttl_def ttlTimer_def ttl_cfg_def Fake_def fc_NewTimer_def fc_add_def NewFake_def)
  show ?thesis
    using ttl_kills_on_time [OF fake_clock.clock_laws_axioms fc_ok_new a ev(1)]
      ttl_kills_on_time [OF fake_clock.clock_laws_axioms fc_ok_new a ev(2)]
    by (simp add: f now arm start reads)
qed

end
