(* ===== verification/CrapTool.thy ===== *)
theory CrapTool
  imports Float64
begin

text \<open>
  \<open>tools/crap/main.go\<close>, the gate of the test suite: cyclomatic complexity, the score of a
  function, and the verdict.  \<open>go/parser\<close> is the argument \<open>parse\<close>; a node of \<open>go/ast\<close> is its
  kind with its children in the order \<open>ast.Inspect\<close> visits them.  Arguments are also the order
  \<open>sort.Slice\<close> gives to functions of equal score and the order in which Go visits a map.  How the
  functions are read from the coverage profile is in \<open>CrapProfile\<close>.
\<close>

section \<open>Cyclomatic complexity\<close>

datatype btoken = LAND | LOR | OtherToken

text \<open>\<open>CaseClause b\<close>: whether its list is not nil; \<open>CommClause b\<close>: whether it has a statement.\<close>

datatype nkind = IfStmt | ForStmt | RangeStmt | CaseClause bool | CommClause bool | BinaryExpr btoken | OtherNode

datatype node = Node nkind "node list"

text \<open>\<open>ast.Inspect\<close> with a visitor that always goes on.\<close>

fun inspect :: "(nkind \<Rightarrow> 's \<Rightarrow> 's) \<Rightarrow> node \<Rightarrow> 's \<Rightarrow> 's" where
  "inspect f (Node k ns) c = fold (inspect f) ns (f k c)"

fun visit :: "nkind \<Rightarrow> gint \<Rightarrow> gint" where
  "visit IfStmt c = c + 1"
| "visit ForStmt c = c + 1"
| "visit RangeStmt c = c + 1"
| "visit (CaseClause l) c = (if l then c + 1 else c)"
| "visit (CommClause s) c = (if s then c + 1 else c)"
| "visit (BinaryExpr oper) c = (if oper = LAND \<or> oper = LOR then c + 1 else c)"
| "visit OtherNode c = c"

definition cyclomatic :: "node \<Rightarrow> gint" where
  "cyclomatic fd = inspect visit fd 1"

text \<open>The textbook count: one more than the decision points.\<close>

fun nodes :: "node \<Rightarrow> nkind list" where
  "nodes (Node k ns) = k # concat (map nodes ns)"

definition decision :: "nkind \<Rightarrow> bool" where
  "decision k \<longleftrightarrow> k \<in> {IfStmt, ForStmt, RangeStmt, CaseClause True, CommClause True, BinaryExpr LAND, BinaryExpr LOR}"

lemma visit_decision: "visit k c = c + of_bool (decision k)"
  by (cases k) (auto simp: decision_def intro: btoken.exhaust)

lemma inspect_fold: "inspect f n c = fold f (nodes n) c"
proof (induction f n c rule: inspect.induct)
  case (1 f k ns c)
  have "fold (inspect f) ms c' = fold f (concat (map nodes ms)) c'" if "set ms \<subseteq> set ns" for ms c'
    using that 1 by (induction ms arbitrary: c') auto
  then show ?case by simp
qed

lemma cyclomatic_decisions: "cyclomatic fd = 1 + int (length (filter decision (nodes fd)))"
proof -
  have "fold visit ks c = c + int (length (filter decision ks))" for ks c
    by (induction ks arbitrary: c) (auto simp: visit_decision)
  then show ?thesis by (simp add: cyclomatic_def inspect_fold)
qed

section \<open>The functions of a profile\<close>

record crap_fn =
  fn_file :: string
  fn_line :: gint
  fn_name :: string
  fn_coverage :: f64
  fn_complexity :: gint

text \<open>A declaration of a file: a function with its line, whether it has a body, and its tree.\<close>

datatype decl = FuncDecl gint bool node | OtherDecl

datatype crap_error = ParseFailed string | NoDeclaration string gint string

text \<open>The errors of \<open>module\<close> and \<open>coverFunc\<close>, unrendered.\<close>

datatype cover_error = GoListFailed string | GoListOutput string | GoCoverFailed string
  | BadPercent string | BadLocation string | BadLine string | NoTotal

text \<open>\<open>byFile\<close>: the functions of a file, as indices into the slice.\<close>

definition group_fns :: "crap_fn list \<Rightarrow> nat list gmap" where
  "group_fns fns = fold (\<lambda>i m. gmap_put (fn_file (fns ! i))
      ((case map_of m (fn_file (fns ! i)) of None \<Rightarrow> [] | Some l \<Rightarrow> l) @ [i]) m) [0..<length fns] []"

definition by_line :: "decl list \<Rightarrow> (gint \<times> gint) list" where
  "by_line ds = fold (\<lambda>d m. case d of
      FuncDecl line body fd \<Rightarrow> if \<not> body then m else gmap_put line (cyclomatic fd) m
    | OtherDecl \<Rightarrow> m) ds []"

fun fill_fns :: "(gint \<times> gint) list \<Rightarrow> nat list \<Rightarrow> crap_fn list \<Rightarrow> crap_error + crap_fn list" where
  "fill_fns lines [] fns = Inr fns"
| "fill_fns lines (i # is) fns =
     (case map_of lines (fn_line (fns ! i)) of
        None \<Rightarrow> Inl (NoDeclaration (fn_file (fns ! i)) (fn_line (fns ! i)) (fn_name (fns ! i)))
      | Some c \<Rightarrow> fill_fns lines is (fns[i := (fns ! i)\<lparr>fn_complexity := c\<rparr>]))"

fun fill_files :: "(string \<Rightarrow> string + decl list) \<Rightarrow> nat list gmap \<Rightarrow> crap_fn list \<Rightarrow> crap_error + crap_fn list" where
  "fill_files parse [] fns = Inr fns"
| "fill_files parse ((file, is) # rest) fns =
     (case parse file of
        Inl e \<Rightarrow> Inl (ParseFailed e)
      | Inr ds \<Rightarrow> (case fill_fns (by_line ds) is fns of
            Inl e \<Rightarrow> Inl e
          | Inr fns' \<Rightarrow> fill_files parse rest fns'))"

text \<open>\<open>visits\<close> is the order in which the range over the map goes through it.\<close>

definition complexity ::
  "(nat list gmap \<Rightarrow> nat list gmap) \<Rightarrow> (string \<Rightarrow> string + decl list) \<Rightarrow> crap_fn list \<Rightarrow> crap_error + crap_fn list" where
  "complexity visits parse fns = fill_files parse (visits (group_fns fns)) fns"

section \<open>The score and the verdict\<close>

definition crap :: "crap_fn \<Rightarrow> f64" where
  "crap f =
     (let c = f64_of_int (fn_complexity f);
          u = f64_add (Fin 1) (f64_neg (fn_coverage f))
      in f64_add (f64_mul (f64_mul (f64_mul (f64_mul c c) u) u) u) c)"

definition countOver :: "crap_fn list \<Rightarrow> f64 \<Rightarrow> gint" where
  "countOver fns bound = fold (\<lambda>f n. if f64_less bound (crap f) then n + 1 else n) fns 0"

record crap_flags =
  fl_max :: f64
  fl_min_cov :: f64
  fl_all :: bool

definition flag_defaults :: crap_flags where
  "flag_defaults = \<lparr>fl_max = Fin 6, fl_min_cov = Fin 85, fl_all = False\<rparr>"

datatype crap_line = FnLine crap_fn f64 | TotalLine f64 f64 gint f64 gint | FatalLine crap_error | FatalCover cover_error

definition report_fns :: "crap_flags \<Rightarrow> crap_fn list \<Rightarrow> bool \<times> crap_line list" where
  "report_fns flags fns = fold (\<lambda>f (failed, out).
     let over = f64_less (fl_max flags) (crap f)
     in (failed \<or> over, if over \<or> fl_all flags then out @ [FnLine f (crap f)] else out)) fns (False, [])"

definition fatal :: "crap_line \<Rightarrow> int \<times> crap_line list" where
  "fatal e = (2, [e])"

text \<open>\<open>main\<close> after the flags: the exit code and the lines.  \<open>covered\<close> is the result of \<open>module\<close>
  and \<open>coverFunc\<close>, \<open>slice_sort\<close> what \<open>sort.Slice\<close> makes of the slice.\<close>

definition crap_main ::
  "crap_flags \<Rightarrow> (crap_fn list \<Rightarrow> crap_fn list) \<Rightarrow> (nat list gmap \<Rightarrow> nat list gmap) \<Rightarrow>
   (string \<Rightarrow> string + decl list) \<Rightarrow> cover_error + (crap_fn list \<times> f64) \<Rightarrow> int \<times> crap_line list"
where
  "crap_main flags slice_sort visits parse covered =
     (case covered of
        Inl e \<Rightarrow> fatal (FatalCover e)
      | Inr (fns, tot) \<Rightarrow> (case complexity visits parse fns of
            Inl e \<Rightarrow> fatal (FatalLine e)
          | Inr fns \<Rightarrow>
              let fns = slice_sort fns;
                  (failed, out) = report_fns flags fns;
                  out = out @ [TotalLine tot (fl_min_cov flags) (int (length fns)) (fl_max flags) (countOver fns (fl_max flags))];
                  failed = (failed \<or> f64_less tot (fl_min_cov flags))
              in (if failed then 1 else 0, out)))"

section \<open>What the gate decides\<close>

text \<open>The line table of a file: the last function with a body that is declared there.\<close>

lemma by_line_last:
  "map_of (by_line ds) line = Some c \<Longrightarrow>
   \<exists>fd. FuncDecl line True fd \<in> set ds \<and> c = 1 + int (length (filter decision (nodes fd)))"
  unfolding by_line_def
proof (induction ds rule: rev_induct)
  case (snoc d ds)
  then show ?case by (cases d) (auto simp: cyclomatic_decisions split: if_splits)
qed simp

text \<open>A function with the complexity of its declaration, if its file parses and has one.\<close>

definition scored :: "(string \<Rightarrow> string + decl list) \<Rightarrow> crap_fn \<Rightarrow> crap_fn option" where
  "scored parse f =
     (case parse (fn_file f) of
        Inl e \<Rightarrow> None
      | Inr ds \<Rightarrow> map_option (\<lambda>c. f\<lparr>fn_complexity := c\<rparr>) (map_of (by_line ds) (fn_line f)))"

lemma scored_update [simp]: "scored parse (f\<lparr>fn_complexity := c\<rparr>) = scored parse f"
  by (simp add: scored_def split: sum.split)

text \<open>The functions with an index in \<open>I\<close> were scored, or one of them could not be.\<close>

definition filled ::
  "(string \<Rightarrow> string + decl list) \<Rightarrow> nat set \<Rightarrow> crap_fn list \<Rightarrow> crap_error + crap_fn list \<Rightarrow> bool" where
  "filled parse I fns r \<longleftrightarrow> (case r of
      Inl e \<Rightarrow> \<exists>i \<in> I. scored parse (fns ! i) = None
    | Inr fns' \<Rightarrow> length fns' = length fns \<and>
        (\<forall>i. if i \<in> I then scored parse (fns ! i) = Some (fns' ! i) else fns' ! i = fns ! i))"

lemma filled_simps:
  "filled parse I fns (Inl e) \<longleftrightarrow> (\<exists>i \<in> I. scored parse (fns ! i) = None)"
  "filled parse I fns (Inr fns') \<longleftrightarrow> length fns' = length fns \<and>
     (\<forall>i. if i \<in> I then scored parse (fns ! i) = Some (fns' ! i) else fns' ! i = fns ! i)"
  by (simp_all add: filled_def)

lemma filled_trans:
  assumes "filled parse I fns (Inr fns')" "filled parse J fns' r" "I \<inter> J = {}"
  shows "filled parse (I \<union> J) fns r"
proof (cases r)
  case (Inl e)
  with assms(2) obtain i where i: "i \<in> J" "scored parse (fns' ! i) = None" by (auto simp: filled_simps)
  with assms(1,3) have "fns' ! i = fns ! i" by (auto simp: filled_simps split: if_splits)
  with i Inl show ?thesis by (auto simp: filled_simps)
next
  case (Inr fns'')
  have "if i \<in> I \<union> J then scored parse (fns ! i) = Some (fns'' ! i) else fns'' ! i = fns ! i" for i
  proof -
    have "if i \<in> I then scored parse (fns ! i) = Some (fns' ! i) else fns' ! i = fns ! i"
      "if i \<in> J then scored parse (fns' ! i) = Some (fns'' ! i) else fns'' ! i = fns' ! i"
      using assms(1,2) unfolding Inr filled_simps by blast+
    with assms(3) show ?thesis by (auto split: if_splits)
  qed
  with assms Inr show ?thesis by (simp add: filled_simps)
qed

lemma fill_fns_result:
  assumes "distinct ix" "\<forall>i \<in> set ix. i < length fns \<and> fn_file (fns ! i) = file" "parse file = Inr ds"
  shows "filled parse (set ix) fns (fill_fns (by_line ds) ix fns)"
  using assms
proof (induction ix arbitrary: fns)
  case (Cons i ix)
  show ?case
  proof (cases "map_of (by_line ds) (fn_line (fns ! i))")
    case None
    with Cons.prems show ?thesis by (auto simp: scored_def filled_simps)
  next
    case (Some c)
    let ?fns = "fns[i := (fns ! i)\<lparr>fn_complexity := c\<rparr>]"
    have i: "i < length fns" "i \<notin> set ix" "fn_file (fns ! i) = file" using Cons.prems by auto
    have "filled parse {i} fns (Inr ?fns)"
      using i(1,3) Some Cons.prems(3) by (auto simp: filled_simps scored_def)
    moreover have "\<forall>j \<in> set ix. j < length ?fns \<and> fn_file (?fns ! j) = file"
      using Cons.prems(2) i(2) by (auto simp: nth_list_update)
    then have "filled parse (set ix) ?fns (fill_fns (by_line ds) ix ?fns)"
      using Cons by simp
    ultimately show ?thesis using filled_trans [of parse "{i}" fns ?fns "set ix"] i(2) Some by simp
  qed
qed (simp add: filled_simps)

text \<open>The groups of a profile: every function in exactly one, under its file.\<close>

definition groups_ok :: "crap_fn list \<Rightarrow> nat set \<Rightarrow> nat list gmap \<Rightarrow> bool" where
  "groups_ok fns I g \<longleftrightarrow> distinct (concat (map snd g)) \<and> set (concat (map snd g)) = I \<and>
     (\<forall>(file, ix) \<in> set g. ix \<noteq> [] \<and> (\<forall>i \<in> set ix. fn_file (fns ! i) = file))"

lemma fill_files_result:
  assumes "groups_ok fns I g" "\<forall>i \<in> I. i < length fns"
  shows "filled parse I fns (fill_files parse g fns)"
  using assms
proof (induction g arbitrary: fns I)
  case (Cons x g)
  obtain fl ix where x: "x = (fl, ix)" by fastforce
  let ?J = "set (concat (map snd g))"
  have I: "I = set ix \<union> ?J" "set ix \<inter> ?J = {}" "distinct ix" "ix \<noteq> []"
      "\<forall>i \<in> set ix. i < length fns \<and> fn_file (fns ! i) = fl"
    using Cons.prems by (auto simp: groups_ok_def x)
  show ?case
  proof (cases "parse fl")
    case (Inl e)
    have "hd ix \<in> I" "fn_file (fns ! hd ix) = fl" using I by simp_all
    with Inl x show ?thesis by (auto simp: scored_def filled_simps intro!: bexI [of _ "hd ix"])
  next
    case (Inr ds)
    note F = fill_fns_result [where parse = parse and ix = ix and fns = fns and ds = ds, OF I(3,5) Inr]
    show ?thesis
    proof (cases "fill_fns (by_line ds) ix fns")
      case (Inl e)
      with F \<open>parse fl = Inr ds\<close> x I show ?thesis by (auto simp: filled_simps)
    next
      case R: (Inr fns')
      with F have "\<forall>i \<in> ?J. fns' ! i = fns ! i" "length fns' = length fns"
        using I(2) by (auto simp: filled_simps split: if_splits)
      then have "groups_ok fns' ?J g" "\<forall>i \<in> ?J. i < length fns'"
        using Cons.prems I(1) by (fastforce simp: groups_ok_def x)+
      then have "filled parse ?J fns' (fill_files parse g fns')" by (rule Cons.IH)
      with filled_trans [OF F [unfolded R] _ I(2)] R \<open>parse fl = Inr ds\<close> x I(1) show ?thesis by simp
    qed
  qed
qed (simp add: groups_ok_def filled_simps)

lemma group_snoc:
  assumes "groups_ok fns I g" "gmap_ok g" "i \<notin> I"
  shows "groups_ok fns (insert i I)
    (gmap_put (fn_file (fns ! i)) ((case map_of g (fn_file (fns ! i)) of None \<Rightarrow> [] | Some l \<Rightarrow> l) @ [i]) g)"
  using assms
proof (induction g arbitrary: I)
  case (Cons x g)
  obtain fl ix where x: "x = (fl, ix)" by fastforce
  let ?J = "set (concat (map snd g))"
  have I: "I = set ix \<union> ?J" "set ix \<inter> ?J = {}" "groups_ok fns ?J g" "distinct ix" "ix \<noteq> []" "\<forall>j \<in> set ix. fn_file (fns ! j) = fl"
    using Cons.prems(1) by (auto simp: groups_ok_def x)
  show ?case
  proof (cases "fn_file (fns ! i) = fl")
    case True
    with I Cons.prems x show ?thesis by (auto simp: groups_ok_def)
  next
    case False
    have "i \<notin> ?J" "gmap_ok g" using Cons.prems(2,3) I(1) x by auto
    from Cons.IH [OF I(3) this(2,1)] False I Cons.prems(3) x show ?thesis
      by (fastforce simp: groups_ok_def)
  qed
qed (simp add: groups_ok_def)

lemma group_fns_ok: "groups_ok fns {..<length fns} (group_fns fns)" "gmap_ok (group_fns fns)"
proof -
  let ?f = "\<lambda>i m. gmap_put (fn_file (fns ! i)) ((case map_of m (fn_file (fns ! i)) of None \<Rightarrow> [] | Some l \<Rightarrow> l) @ [i]) m"
  have "groups_ok fns {..<n} (fold ?f [0..<n] []) \<and> gmap_ok (fold ?f [0..<n] [])" for n
  proof (induction n)
    case (Suc n)
    then show ?case using group_snoc [of fns "{..<n}" "fold ?f [0..<n] []" n]
      by (simp add: lessThan_Suc gmap_ok_put)
  qed (simp add: groups_ok_def)
  then show "groups_ok fns {..<length fns} (group_fns fns)" "gmap_ok (group_fns fns)" by (auto simp: group_fns_def)
qed

lemma groups_ok_perm: "groups_ok fns I g \<Longrightarrow> mset g' = mset g \<Longrightarrow> groups_ok fns I g'"
proof -
  assume g: "groups_ok fns I g" and m: "mset g' = mset g"
  have "mset (concat (map snd g')) = mset (concat (map snd g))"
    by (simp add: mset_concat comp_def m flip: sum_mset_sum_list)
  from mset_eq_imp_distinct_iff [OF this] mset_eq_setD [OF this] mset_eq_setD [OF m] g
  show "groups_ok fns I g'" by (simp add: groups_ok_def)
qed

text \<open>Every function gets the complexity of its own declaration, or the tool gives up.\<close>

lemma complexity_result:
  assumes "mset (visits (group_fns fns)) = mset (group_fns fns)"
  shows "case complexity visits parse fns of
      Inl e \<Rightarrow> None \<in> set (map (scored parse) fns)
    | Inr fns' \<Rightarrow> map (scored parse) fns = map Some fns'"
proof -
  have "filled parse {..<length fns} fns (complexity visits parse fns)"
    unfolding complexity_def by (rule fill_files_result [OF groups_ok_perm [OF group_fns_ok(1) assms]]) simp
  then show ?thesis
  proof (cases "complexity visits parse fns")
    case (Inl e)
    with \<open>filled _ _ _ _\<close> obtain i where "i < length fns" "scored parse (fns ! i) = None" by (auto simp: filled_simps)
    with Inl show ?thesis by (force simp: in_set_conv_nth)
  next
    case (Inr fns')
    with \<open>filled _ _ _ _\<close> have "length fns' = length fns" "\<And>i. i < length fns \<Longrightarrow> scored parse (fns ! i) = Some (fns' ! i)"
      by (auto simp: filled_simps split: if_splits)
    with Inr show ?thesis by (auto intro: nth_equalityI)
  qed
qed

lemma report_verdict: "fst (report_fns flags fns) \<longleftrightarrow> (\<exists>f \<in> set fns. f64_less (fl_max flags) (crap f))"
proof -
  let ?step = "\<lambda>f (failed, out). let over = f64_less (fl_max flags) (crap f)
     in (failed \<or> over, if over \<or> fl_all flags then out @ [FnLine f (crap f)] else out)"
  have "fst (fold ?step fns (b, out)) \<longleftrightarrow> b \<or> (\<exists>f \<in> set fns. f64_less (fl_max flags) (crap f))" for b out
    by (induction fns arbitrary: b out) (auto simp: Let_def)
  then show ?thesis by (simp add: report_fns_def)
qed

text \<open>C39: what the gate decides.  It exits with 2 when some function of the profile has no
  parsable declaration, otherwise with 1 when some function, scored with one plus the
  decision points of its declaration, is above the bound or the total below the minimum,
  and with 0 otherwise, whatever order maps are visited in and ties are sorted in, and
  whether or not all functions are printed.\<close>

theorem gate_decides:
  assumes "mset (visits (group_fns fns)) = mset (group_fns fns)" "\<And>xs. mset (slice_sort xs) = mset xs"
  shows "fst (crap_main flags slice_sort visits parse (Inr (fns, tot))) =
      (if None \<in> set (map (scored parse) fns) then 2
       else if list_ex (\<lambda>f. f64_less (fl_max flags) (crap (the (scored parse f)))) fns \<or> f64_less tot (fl_min_cov flags) then 1
       else 0) \<and>
    list_all (\<lambda>f. case scored parse f of None \<Rightarrow> True | Some f' \<Rightarrow>
      (\<exists>ds fd. parse (fn_file f) = Inr ds \<and> FuncDecl (fn_line f) True fd \<in> set ds \<and>
         f' = f\<lparr>fn_complexity := 1 + int (length (filter decision (nodes fd)))\<rparr>)) fns"
proof -
  have decl: "\<exists>ds fd. parse (fn_file f) = Inr ds \<and> FuncDecl (fn_line f) True fd \<in> set ds \<and>
      f' = f\<lparr>fn_complexity := 1 + int (length (filter decision (nodes fd)))\<rparr>" if "scored parse f = Some f'" for f f'
    using that by_line_last by (fastforce simp: scored_def split: sum.splits)
  have "fst (crap_main flags slice_sort visits parse (Inr (fns, tot))) =
      (if None \<in> set (map (scored parse) fns) then 2
       else if list_ex (\<lambda>f. f64_less (fl_max flags) (crap (the (scored parse f)))) fns \<or> f64_less tot (fl_min_cov flags) then 1
       else 0)"
  proof (cases "complexity visits parse fns")
    case (Inl e)
    with complexity_result [where visits = visits, OF assms(1), of parse] show ?thesis by (simp add: crap_main_def fatal_def)
  next
    case (Inr fns')
    with complexity_result [where visits = visits, OF assms(1), of parse] have R: "map (scored parse) fns = map Some fns'" by simp
    have "None \<notin> set (map (scored parse) fns)" unfolding R by simp
    moreover have "map (the \<circ> scored parse) fns = fns'" using arg_cong [OF R, of "map the"] by (simp add: comp_def)
    then have "list_ex (\<lambda>f. f64_less (fl_max flags) (crap (the (scored parse f)))) fns \<longleftrightarrow>
        (\<exists>f \<in> set fns'. f64_less (fl_max flags) (crap f))" by (auto simp: list_ex_iff)
    moreover have "set (slice_sort fns') = set fns'" using assms(2) by (rule mset_eq_setD)
    ultimately show ?thesis
      using Inr report_verdict [of flags "slice_sort fns'"] by (simp add: crap_main_def Let_def split_beta)
  qed
  with decl show ?thesis by (auto simp: list_all_iff split: option.split)
qed

text \<open>A function with every statement covered scores its complexity, one with none the square
  of it more.\<close>

lemma f64_of_nat_exact: "0 \<le> n \<Longrightarrow> n \<le> 2 ^ 53 \<Longrightarrow> f64_of_int n = Fin (of_int n)"
proof -
  assume n: "0 \<le> n" "n \<le> 2 ^ 53"
  then have "(of_int n :: rat) \<le> of_int (2 ^ 53)" by (simp only: of_int_le_iff)
  then have "(of_int n :: rat) < 2 ^ 1024" by simp
  with n show "f64_of_int n = Fin (of_int n)"
    unfolding f64_of_int_def by (intro to_f64_exact representable_int) auto
qed

lemma crap_of_covered:
  assumes "0 \<le> fn_complexity f" "fn_complexity f \<le> 2 ^ 26" "fn_coverage f = Fin 1"
  shows "crap f = Fin (of_int (fn_complexity f))"
proof -
  let ?c = "fn_complexity f"
  have "?c * ?c \<le> 2 ^ 26 * 2 ^ 26" using assms(1,2) by (intro mult_mono) auto
  then have "f64_of_int (?c * ?c) = Fin (of_int (?c * ?c))" using assms(1) by (intro f64_of_nat_exact) auto
  moreover have "f64_of_int ?c = Fin (of_int ?c)" using assms(1,2) by (intro f64_of_nat_exact) auto
  moreover have "to_f64 0 = Fin 0" by (simp add: to_f64_def round53_def round_pos_def)
  ultimately show ?thesis
    using assms(3) by (simp add: crap_def f64_add_def f64_of_int_def Let_def)
qed

definition demo_profile :: "crap_fn list" where
  "demo_profile = [\<lparr>fn_file = ''a.go'', fn_line = 3, fn_name = ''f'', fn_coverage = Fin 1, fn_complexity = 0\<rparr>]"

definition demo_parse :: "string \<Rightarrow> string + decl list" where
  "demo_parse file = Inr [OtherDecl, FuncDecl 3 True (Node OtherNode [Node IfStmt [Node (BinaryExpr LAND) []], Node (CaseClause False) []])]"

lemma gate_decides_witness:
  "fst (crap_main flag_defaults id id demo_parse (Inr (demo_profile, Fin 90))) = 0 \<and>
   fst (crap_main \<lparr>fl_max = Fin 2, fl_min_cov = Fin 85, fl_all = True\<rparr> rev rev demo_parse (Inr (demo_profile, Fin 90))) = 1"
proof -
  let ?f = "\<lparr>fn_file = ''a.go'', fn_line = 3, fn_name = ''f'', fn_coverage = Fin 1, fn_complexity = 3\<rparr>"
  have f: "map (scored demo_parse) demo_profile = [Some ?f]"
    by (simp add: demo_profile_def demo_parse_def scored_def by_line_def cyclomatic_def)
  have "crap ?f = Fin 3" by (subst crap_of_covered) simp_all
  with f show ?thesis
    using gate_decides [of id demo_profile id flag_defaults demo_parse "Fin 90"]
      gate_decides [of rev demo_profile rev "\<lparr>fl_max = Fin 2, fl_min_cov = Fin 85, fl_all = True\<rparr>" demo_parse "Fin 90"]
    by (simp add: demo_profile_def flag_defaults_def)
qed

end
