(* ===== verification/CrapProfile.thy ===== *)
theory CrapProfile
  imports CrapTool Durations
begin

text \<open>
  The other half of \<open>tools/crap/main.go\<close>: reading what \<open>go list\<close> and \<open>go tool cover -func\<close>
  print (\<open>module\<close>, \<open>coverFunc\<close>, \<open>rel\<close>), with what it uses of \<open>bufio\<close>, \<open>strings\<close>, \<open>strconv\<close> and
  \<open>path/filepath\<close> (on unix).  The output of the two commands is an argument.
\<close>

section \<open>\<open>strconv.ParseFloat\<close>\<close>

definition lower :: "char \<Rightarrow> char" where
  "lower c = (if 65 \<le> byte c \<and> byte c \<le> 90 then char_of (byte c + 32) else c)"

definition hex_val :: "char \<Rightarrow> nat option" where
  "hex_val c = (case digit_val c of Some d \<Rightarrow> Some d
     | None \<Rightarrow> if 97 \<le> byte (lower c) \<and> byte (lower c) \<le> 102 then Some (byte (lower c) - 87) else None)"

text \<open>The digits of the mantissa: its value, how many digits follow the point, whether there
  was one, and the rest.\<close>

fun read_mantissa :: "bool \<Rightarrow> string \<Rightarrow> bool \<Rightarrow> nat \<Rightarrow> nat \<Rightarrow> bool \<Rightarrow> nat \<times> nat \<times> bool \<times> string" where
  "read_mantissa hex [] dot m k d = (m, k, d, [])"
| "read_mantissa hex (c # s) dot m k d =
     (if c = CHR ''_'' then read_mantissa hex s dot m k d
      else if c = CHR ''.'' then (if dot then (m, k, d, c # s) else read_mantissa hex s True m k d)
      else case (if hex then hex_val c else digit_val c) of
        None \<Rightarrow> (m, k, d, c # s)
      | Some v \<Rightarrow> read_mantissa hex s dot (m * (if hex then 16 else 10) + v) (if dot then k + 1 else k) True)"

text \<open>The digits of the exponent, which stops growing at 10000.\<close>

fun read_exponent :: "string \<Rightarrow> nat \<Rightarrow> nat \<times> string" where
  "read_exponent [] e = (e, [])"
| "read_exponent (c # s) e =
     (if c = CHR ''_'' then read_exponent s e
      else case digit_val c of
        None \<Rightarrow> (e, c # s)
      | Some v \<Rightarrow> read_exponent s (if e < 10000 then e * 10 + v else e))"

text \<open>\<open>underscoreOK\<close>: an underscore only between digits, or after a base prefix; \<open>saw\<close> is what
  came before, as in the source: start, digit, underscore or something else.\<close>

fun underscore_loop :: "bool \<Rightarrow> char \<Rightarrow> string \<Rightarrow> bool" where
  "underscore_loop hex saw [] \<longleftrightarrow> saw \<noteq> CHR ''_''"
| "underscore_loop hex saw (c # s) \<longleftrightarrow>
     (if digit_val c \<noteq> None \<or> (hex \<and> hex_val c \<noteq> None) then underscore_loop hex (CHR ''0'') s
      else if c = CHR ''_'' then saw = CHR ''0'' \<and> underscore_loop hex (CHR ''_'') s
      else saw \<noteq> CHR ''_'' \<and> underscore_loop hex (CHR ''!'') s)"

definition drop_sign :: "string \<Rightarrow> bool \<times> string" where
  "drop_sign s = (case s of [] \<Rightarrow> (False, [])
     | c # t \<Rightarrow> if c = CHR ''-'' then (True, t) else if c = CHR ''+'' then (False, t) else (False, s))"

definition underscoreOK :: "string \<Rightarrow> bool" where
  "underscoreOK s =
     (let s = snd (drop_sign s) in
      case s of
        a # b # t \<Rightarrow>
          if a = CHR ''0'' \<and> lower b \<in> {CHR ''b'', CHR ''o'', CHR ''x''}
          then underscore_loop (lower b = CHR ''x'') (CHR ''0'') t
          else underscore_loop False (CHR ''^'') s
      | _ \<Rightarrow> underscore_loop False (CHR ''^'') s)"

text \<open>\<open>special\<close>, for the whole string.\<close>

definition special :: "string \<Rightarrow> f64 option" where
  "special s =
     (let (neg, t) = drop_sign s; u = map lower t in
      if u = ''inf'' \<or> u = ''infinity'' then Some (if neg then NegInf else PosInf)
      else if map lower s = ''nan'' then Some NaN else None)"

text \<open>\<open>readFloat\<close>, for the whole string: the number the text denotes.\<close>

definition read_float :: "string \<Rightarrow> rat option" where
  "read_float s =
     (let (neg, t) = drop_sign s;
          hex = (case t of a # b # c # u \<Rightarrow> a = CHR ''0'' \<and> lower b = CHR ''x'' | _ \<Rightarrow> False);
          (m, k, digits, r) = read_mantissa hex (if hex then drop 2 t else t) False 0 0 False;
          expo = (case r of
              c # u \<Rightarrow>
                if lower c = (if hex then CHR ''p'' else CHR ''e'') then
                  (let (eneg, v) = drop_sign u in
                   case v of
                     [] \<Rightarrow> None
                   | d # w \<Rightarrow> if digit_val d = None then None
                       else (case read_exponent v 0 of (e, rest) \<Rightarrow> Some (if eneg then - int e else int e, rest)))
                else if hex then None else Some (0, r)
            | [] \<Rightarrow> if hex then None else Some (0, []))
      in if \<not> digits then None
         else case expo of
           None \<Rightarrow> None
         | Some (e, rest) \<Rightarrow>
             if rest \<noteq> [] \<or> (CHR ''_'' \<in> set s \<and> \<not> underscoreOK s) then None
             else let x = (if hex then of_nat m * 2 powi (e - 4 * int k) else of_nat m * 10 powi (e - int k))
                  in Some (if neg then - x else x))"

text \<open>\<open>None\<close> is a syntax or a range error.\<close>

definition ParseFloat :: "string \<Rightarrow> f64 option" where
  "ParseFloat s =
     (case special s of
        Some x \<Rightarrow> Some x
      | None \<Rightarrow> (case read_float s of
            None \<Rightarrow> None
          | Some x \<Rightarrow> (case to_f64 x of Fin y \<Rightarrow> Some (Fin y) | _ \<Rightarrow> None)))"

section \<open>Lines, fields and paths\<close>

text \<open>\<open>bufio.Scanner\<close> with \<open>ScanLines\<close>: it stops at a line that does not fit its buffer.\<close>

definition MaxScanTokenSize :: nat where "MaxScanTokenSize = 65536"

definition drop_cr :: "string \<Rightarrow> string" where
  "drop_cr l = (if l \<noteq> [] \<and> last l = CHR 0x0D then butlast l else l)"

function scan_lines :: "string \<Rightarrow> string list" where
  "scan_lines s =
     (if s = [] then []
      else let l = takeWhile (\<lambda>c. c \<noteq> CHR 0x0A) s
           in if MaxScanTokenSize \<le> length l then []
              else drop_cr l # scan_lines (drop (length l + 1) s))"
  by pat_completeness auto
termination
  by (relation "measure length") auto

declare scan_lines.simps [simp del]

text \<open>\<open>strings.Fields\<close>; \<open>cur\<close> is the field being read.\<close>

function fields_loop :: "string \<Rightarrow> string \<Rightarrow> string list" where
  "fields_loop cur s =
     (let flush = (if cur = [] then [] else [cur]) in
      if s = [] then flush
      else if lead_space s \<noteq> 0 then flush @ fields_loop [] (drop (lead_space s) s)
      else fields_loop (cur @ [hd s]) (tl s))"
  by pat_completeness auto
termination
proof (relation "measure (\<lambda>(cur, s). length s)")
  fix cur s x
  assume "s \<noteq> []" "lead_space s \<noteq> 0"
  with lead_space_le [of s] show "(([], drop (lead_space s) s), (cur, s)) \<in> measure (\<lambda>(cur, s). length s)" by auto
qed auto

declare fields_loop.simps [simp del]

definition Fields :: "string \<Rightarrow> string list" where
  "Fields s = fields_loop [] s"

text \<open>\<open>filepath.Clean\<close> on the elements of a path: \<open>..\<close> takes back the element before it, if
  there is one.\<close>

definition clean_elem :: "bool \<Rightarrow> string \<Rightarrow> string list \<Rightarrow> string list" where
  "clean_elem rooted e out =
     (if e = [] \<or> e = ''.'' then out
      else if e = ''..'' then
        (if out \<noteq> [] \<and> last out \<noteq> ''..'' then butlast out else if rooted then out else out @ [e])
      else out @ [e])"

definition clean_elems :: "string \<Rightarrow> string list" where
  "clean_elems p = fold (clean_elem (has_prefix p ''/'')) (go_split (CHR ''/'') p) []"

definition filepath_Clean :: "string \<Rightarrow> string" where
  "filepath_Clean p =
     (let out = (if has_prefix p ''/'' then ''/'' else []) @ go_join ''/'' (clean_elems p)
      in if out = [] then ''.'' else out)"

definition filepath_Join :: "string list \<Rightarrow> string" where
  "filepath_Join es =
     (case dropWhile (\<lambda>e. e = []) es of [] \<Rightarrow> [] | e # r \<Rightarrow> filepath_Clean (go_join ''/'' (e # r)))"

text \<open>\<open>filepath.Rel\<close>: the way from one path to another; \<open>None\<close> where it cannot be told.\<close>

fun common_prefix :: "string list \<Rightarrow> string list \<Rightarrow> string list \<times> string list" where
  "common_prefix (a # as) (b # bs) = (if a = b then common_prefix as bs else (a # as, b # bs))"
| "common_prefix as bs = (as, bs)"

definition filepath_Rel :: "string \<Rightarrow> string \<Rightarrow> string option" where
  "filepath_Rel base targ =
     (if filepath_Clean targ = filepath_Clean base then Some ''.''
      else if has_prefix base ''/'' \<noteq> has_prefix targ ''/'' then None
      else case common_prefix (clean_elems base) (clean_elems targ) of
        (ups, rest) \<Rightarrow>
          if ups \<noteq> [] \<and> hd ups = ''..'' then None
          else Some (go_join ''/'' (replicate (length ups) ''..'' @ rest)))"

section \<open>The tool\<close>

definition rel :: "string \<Rightarrow> string \<Rightarrow> string" where
  "rel file dir = (case filepath_Rel dir file of Some r \<Rightarrow> r | None \<Rightarrow> file)"

text \<open>\<open>module\<close>: the path and the directory of the module.\<close>

definition module :: "string + string \<Rightarrow> cover_error + string \<times> string" where
  "module out =
     (case out of
        Inl e \<Rightarrow> Inl (GoListFailed e)
      | Inr out \<Rightarrow>
          (let t = trim_space out; a = takeWhile (\<lambda>c. c \<noteq> CHR 0x09) t
           in if length a = length t then Inl (GoListOutput out) else Inr (a, drop (length a + 1) t)))"

text \<open>One line of the listing; \<open>st\<close> is the list of functions and the total so far.\<close>

definition cover_line :: "string \<Rightarrow> string \<Rightarrow> string \<Rightarrow> crap_fn list \<times> f64 \<Rightarrow> cover_error + crap_fn list \<times> f64" where
  "cover_line modPath modDir text st =
     (case st of (fns, tot) \<Rightarrow>
        let fields = Fields text in
        if length fields < 3 then Inr (fns, tot)
        else case ParseFloat (trim_suffix (last fields) ''%'') of
          None \<Rightarrow> Inl (BadPercent text)
        | Some pct \<Rightarrow>
            if hd fields = ''total:'' then Inr (fns, pct)
            else let loc = go_split (CHR '':'') (hd fields) in
              if length loc < 2 then Inl (BadLocation (hd fields))
              else case atoi (loc ! 1) of
                None \<Rightarrow> Inl (BadLine (hd fields))
              | Some line \<Rightarrow>
                  Inr (fns @ [\<lparr>fn_file = filepath_Join [modDir, trim_prefix (hd loc) (modPath @ ''/'')],
                     fn_line = line, fn_name = fields ! 1, fn_coverage = f64_div pct (Fin 100), fn_complexity = 0\<rparr>], tot))"

fun cover_lines :: "string \<Rightarrow> string \<Rightarrow> string list \<Rightarrow> crap_fn list \<times> f64 \<Rightarrow> cover_error + crap_fn list \<times> f64" where
  "cover_lines modPath modDir [] st = Inr st"
| "cover_lines modPath modDir (l # ls) st =
     (case cover_line modPath modDir l st of Inl e \<Rightarrow> Inl e | Inr st' \<Rightarrow> cover_lines modPath modDir ls st')"

definition coverFunc :: "string + string \<Rightarrow> string \<Rightarrow> string \<Rightarrow> cover_error + crap_fn list \<times> f64" where
  "coverFunc out modPath modDir =
     (case out of
        Inl e \<Rightarrow> Inl (GoCoverFailed e)
      | Inr text \<Rightarrow>
          (case cover_lines modPath modDir (scan_lines text) ([], Fin (-1)) of
             Inl e \<Rightarrow> Inl e
           | Inr (fns, tot) \<Rightarrow> if f64_less tot (Fin 0) then Inl NoTotal else Inr (fns, tot)))"

text \<open>What \<open>main\<close> hands to the gate.\<close>

definition covered :: "string + string \<Rightarrow> string + string \<Rightarrow> cover_error + crap_fn list \<times> f64" where
  "covered list_out cover_out =
     (case module list_out of Inl e \<Rightarrow> Inl e | Inr (modPath, modDir) \<Rightarrow> coverFunc cover_out modPath modDir)"

section \<open>Reading a listing back\<close>

subsection \<open>Paths\<close>

text \<open>An element of a clean path.\<close>

definition plain_elem :: "string \<Rightarrow> bool" where
  "plain_elem e \<longleftrightarrow> e \<noteq> [] \<and> e \<noteq> ''.'' \<and> e \<noteq> ''..'' \<and> CHR ''/'' \<notin> set e"

lemma go_split_append_any: "go_split c (a @ c # b) = go_split c a @ go_split c b"
proof (induction a)
  case (Cons x a)
  then show ?case using go_split_nonempty [of c a] by (cases "go_split c a") auto
qed simp

lemma clean_plain: "list_all plain_elem es \<Longrightarrow> fold (clean_elem r) es out = out @ es"
  by (induction es arbitrary: out) (auto simp: clean_elem_def plain_elem_def)

lemma plain_split:
  assumes "list_all plain_elem es"
  shows "fold (clean_elem r) (go_split (CHR ''/'') (go_join ''/'' es)) out = out @ es"
proof (cases "es = []")
  case False
  have "go_split (CHR ''/'') (go_join ''/'' es) = es"
    using go_split_join [OF False, of "CHR ''/''"] assms by (auto simp: list_all_iff plain_elem_def)
  then show ?thesis using clean_plain [OF assms] by simp
qed (simp add: clean_elem_def)

text \<open>The path of an absolute directory, and of a file below it.\<close>

abbreviation abs_path :: "string list \<Rightarrow> string" where
  "abs_path es \<equiv> ''/'' @ go_join ''/'' es"

lemma clean_abs:
  assumes "list_all plain_elem es"
  shows "clean_elems (abs_path es) = es" "filepath_Clean (abs_path es) = abs_path es"
proof -
  have "go_split (CHR ''/'') (abs_path es) = [] # go_split (CHR ''/'') (go_join ''/'' es)" by simp
  then show e: "clean_elems (abs_path es) = es"
    using plain_split [OF assms, of True "[]"] by (simp add: clean_elems_def clean_elem_def has_prefix_def)
  then show "filepath_Clean (abs_path es) = abs_path es" by (simp add: filepath_Clean_def has_prefix_def)
qed

lemma Join_abs:
  assumes "list_all plain_elem ds" "list_all plain_elem es"
  shows "filepath_Join [abs_path ds, go_join ''/'' es] = abs_path (ds @ es)"
proof -
  have "clean_elems (abs_path ds @ ''/'' @ go_join ''/'' es) = ds @ es"
    using plain_split [OF assms(1), of True "[]"] plain_split [OF assms(2), of True ds]
      go_split_append_any [of "CHR ''/''" "go_join ''/'' ds" "go_join ''/'' es"]
    by (simp add: clean_elems_def clean_elem_def has_prefix_def)
  then show ?thesis by (simp add: filepath_Join_def filepath_Clean_def has_prefix_def Let_def)
qed

lemma common_prefix_append: "common_prefix ds (ds @ es) = ([], es)"
  by (induction ds) (cases es; simp)+

lemma rel_abs:
  assumes "list_all plain_elem ds" "list_all plain_elem es" "es \<noteq> []"
  shows "rel (abs_path (ds @ es)) (abs_path ds) = go_join ''/'' es"
proof -
  have c: "clean_elems (abs_path (ds @ es)) = ds @ es" "clean_elems (abs_path ds) = ds"
    using assms clean_abs by simp_all
  then have "abs_path (ds @ es) \<noteq> abs_path ds" using assms(3) by (metis append_self_conv)
  moreover have "filepath_Clean (abs_path (ds @ es)) = abs_path (ds @ es)" "filepath_Clean (abs_path ds) = abs_path ds"
    using assms(1,2) by (simp_all add: clean_abs(2) del: append.simps append_assoc)
  ultimately show ?thesis
    using c by (simp add: rel_def filepath_Rel_def common_prefix_append has_prefix_def)
qed

subsection \<open>Percentages\<close>

text \<open>A percentage with one decimal, as \<open>%.1f\<close> prints it: \<open>n\<close> is its tenths.\<close>

definition percent :: "nat \<Rightarrow> string" where
  "percent n = utoa (n div 10) @ ''.'' @ [digit_char (n mod 10)]"

lemma digit_plain: "d < 10 \<Longrightarrow> digit_char d \<noteq> CHR ''_'' \<and> digit_char d \<noteq> CHR ''.'' \<and> lower (digit_char d) = digit_char d"
  using byte_digit_char [of d] by (auto simp: lower_def)

lemma mantissa_utoa:
  "read_mantissa False (utoa n @ s) dot 0 k d = read_mantissa False s dot n (if dot then k + length (utoa n) else k) True"
proof (induction n arbitrary: s k d rule: utoa.induct)
  case (1 n)
  show ?case
  proof (cases "n < 10")
    case True
    then show ?thesis by (simp add: utoa.simps [of n] digit_plain)
  next
    case False
    have "n mod 10 < 10" by simp
    with 1 [OF False] False show ?thesis by (simp add: utoa.simps [of n] digit_plain)
  qed
qed

lemma utoa_front: "\<exists>d cs. d < 10 \<and> utoa n @ s = digit_char d # cs"
  using utoa_Cons [of n] by auto

lemma utoa_sign: "drop_sign (utoa n @ s) = (False, utoa n @ s)"
proof -
  obtain d cs where "d < 10" "utoa n @ s = digit_char d # cs" using utoa_front by blast
  then show ?thesis using digit_char_not_sign [of d] by (simp add: drop_sign_def)
qed

lemma percent_not_special: "special (percent n) = None"
proof -
  obtain d cs where d: "d < 10" "percent n = digit_char d # cs"
    using utoa_front [of "n div 10" "''.'' @ [digit_char (n mod 10)]"] by (auto simp: percent_def)
  have "byte (digit_char d) \<le> 57" using d(1) by (simp add: byte_digit_char)
  then have "digit_char d \<noteq> CHR ''i'' \<and> digit_char d \<noteq> CHR ''n''" by auto
  moreover have "drop_sign (percent n) = (False, percent n)" by (simp add: percent_def utoa_sign)
  ultimately show ?thesis using d digit_plain [of d] by (auto simp: special_def)
qed

lemma digit_not_x: "d < 10 \<Longrightarrow> lower (digit_char d) \<noteq> CHR ''x''"
proof -
  assume d: "d < 10"
  then have "byte (digit_char d) \<le> 57" by (simp add: byte_digit_char)
  with d digit_plain [of d] show ?thesis by auto
qed

lemma percent_decimal: "(case percent n of a # b # c # u \<Rightarrow> a = CHR ''0'' \<and> lower b = CHR ''x'' | _ \<Rightarrow> False) = False"
proof (cases "utoa (n div 10)")
  case (Cons a w)
  show ?thesis
  proof (cases w)
    case Nil
    then show ?thesis using Cons by (simp add: percent_def lower_def)
  next
    case (Cons b v)
    then have "b \<in> set (utoa (n div 10))" using \<open>utoa (n div 10) = a # w\<close> by simp
    then obtain d where "d < 10" "b = digit_char d" using utoa_digits by blast
    with digit_not_x Cons \<open>utoa (n div 10) = a # w\<close> show ?thesis by (auto simp: percent_def split: list.split)
  qed
qed simp

lemma read_percent: "read_float (percent n) = Some (of_nat n / 10)"
proof -
  have "read_mantissa False (percent n) False 0 0 False = (n div 10 * 10 + n mod 10, 1, True, [])"
    using digit_plain [of "n mod 10"] by (simp add: percent_def mantissa_utoa)
  then have m: "read_mantissa False (percent n) False 0 0 False = (n, 1, True, [])" by (simp only: div_mult_mod_eq)
  have u: "CHR ''_'' \<notin> set (percent n)"
  proof -
    have nd: "digit_char d \<noteq> CHR ''_''" if "d < 10" for d using digit_plain [OF that] by simp
    then have "CHR ''_'' \<notin> set (utoa (n div 10))" using utoa_digits by metis
    with nd [of "n mod 10"] show ?thesis by (auto simp: percent_def)
  qed
  have sgn: "drop_sign (percent n) = (False, percent n)" by (simp add: percent_def utoa_sign)
  have "(of_nat n :: rat) * 10 powi (0 - int 1) = of_nat n / 10" by (simp add: power_int_def inverse_eq_divide)
  then show ?thesis
    unfolding read_float_def sgn prod.case Let_def percent_decimal if_False m list.case option.case using u by simp
qed

lemma ParseFloat_percent:
  assumes "n \<le> 1000"
  shows "ParseFloat (percent n) = Some (to_f64 (of_nat n / 10))" "\<not> f64_less (to_f64 (of_nat n / 10)) (Fin 0)"
proof -
  have r: "representable 100" using representable_int [of 100] by simp
  have "(of_nat n :: rat) \<le> of_nat 1000" using assms by (simp only: of_nat_le_iff)
  then have "round53 (of_nat n / 10) \<le> 100" by (intro round53_le r) auto
  moreover have "0 \<le> round53 (of_nat n / 10 :: rat)" by (rule round53_nonneg) simp
  ultimately obtain y where y: "to_f64 (of_nat n / 10) = Fin y" "0 \<le> y"
    by (simp add: to_f64_def Let_def)
  then show "ParseFloat (percent n) = Some (to_f64 (of_nat n / 10))" "\<not> f64_less (to_f64 (of_nat n / 10)) (Fin 0)"
    by (simp_all add: ParseFloat_def percent_not_special read_percent)
qed

subsection \<open>Lines and fields\<close>

definition word :: "string \<Rightarrow> bool" where
  "word w \<longleftrightarrow> w \<noteq> [] \<and> list_all visible w"

lemma lead_space_visible: "visible c \<Longrightarrow> lead_space (c # s) = 0"
  unfolding lead_space_0_iff
proof (intro ballI notI)
  fix w assume c: "visible c" and w: "w \<in> set space_runes" "has_prefix (c # s) w"
  then obtain w' where "w = c # w'" using space_runes_nonempty by (cases w) (auto simp: has_prefix_iff)
  with w(1) c space_rune_bytes [of w c] show False by simp
qed

lemma lead_space_tab: "lead_space (CHR 0x09 # s) = 1"
  by (simp add: lead_space_def space_runes_def has_prefix_def)

lemma fields_word: "list_all visible w \<Longrightarrow> fields_loop cur (w @ s) = fields_loop (cur @ w) s"
proof (induction w arbitrary: cur)
  case (Cons c w)
  then show ?case by (subst fields_loop.simps) (simp add: lead_space_visible)
qed simp

lemma fields_tabs: "fields_loop [] (replicate n (CHR 0x09) @ s) = fields_loop [] s"
proof (induction n)
  case (Suc n)
  then show ?case by (subst fields_loop.simps) (simp add: lead_space_tab)
qed simp

lemma fields_next:
  "word w \<Longrightarrow> Fields (w @ replicate (Suc n) (CHR 0x09) @ s) = w # Fields s"
proof -
  assume w: "word w"
  have "Fields (w @ replicate (Suc n) (CHR 0x09) @ s) = fields_loop w (replicate (Suc n) (CHR 0x09) @ s)"
    using fields_word [of w "[]"] w by (simp add: Fields_def word_def)
  also have "\<dots> = w # fields_loop [] (replicate n (CHR 0x09) @ s)"
    using w by (subst fields_loop.simps) (simp add: lead_space_tab word_def)
  finally show ?thesis by (simp add: fields_tabs Fields_def)
qed

lemma fields_end: "word w \<Longrightarrow> Fields w = [w]"
  using fields_word [of w "[]" "[]"] by (simp add: Fields_def word_def fields_loop.simps [of w "[]"])

lemma trim_newline:
  assumes "word a" "word b"
  shows "trim_space (a @ [CHR 0x09] @ b @ [CHR 0x0A]) = a @ [CHR 0x09] @ b"
proof -
  let ?s = "a @ [CHR 0x09] @ b"
  have v: "visible (hd ?s)" "visible (last ?s)" using assms by (cases a; auto simp: word_def list_all_iff)+
  then have "trim_space ?s = ?s" by (intro trim_space_visible) simp
  have "trail_space (?s @ [CHR 0x0A]) = 1"
    by (simp add: trail_space_def space_runes_def has_prefix_def)
  then have "trim_right (?s @ [CHR 0x0A]) = trim_right ?s" by (subst trim_right.simps) simp
  moreover have "lead_space (?s @ [CHR 0x0A]) = 0" "lead_space ?s = 0"
    using assms(1) lead_space_visible by (cases a; simp add: word_def)+
  ultimately show ?thesis
    using \<open>trim_space ?s = ?s\<close> by (simp add: trim_space_def trim_left_id)
qed

text \<open>A line that the scanner gives back as it is.\<close>

definition plain_line :: "string \<Rightarrow> bool" where
  "plain_line l \<longleftrightarrow> CHR 0x0A \<notin> set l \<and> length l < 65536 \<and> (l = [] \<or> last l \<noteq> CHR 0x0D)"

lemma scan_plain: "list_all plain_line ls \<Longrightarrow> scan_lines (concat (map (\<lambda>l. l @ [CHR 0x0A]) ls)) = ls"
proof (induction ls)
  case (Cons l ls)
  then have l: "\<And>s. takeWhile (\<lambda>c. c \<noteq> CHR 0x0A) (l @ CHR 0x0A # s) = l" "length l < 65536" "drop_cr l = l"
    by (auto simp: plain_line_def drop_cr_def takeWhile_append)
  with Cons show ?case by (subst scan_lines.simps) (simp add: MaxScanTokenSize_def)
qed (simp add: scan_lines.simps)

section \<open>The listing\<close>

text \<open>A function of the profile: the elements of its path in the module, its line, its name and
  the tenths of its percentage; the tabs between the columns.\<close>

record entry =
  en_path :: "string list"
  en_line :: nat
  en_name :: string
  en_tenths :: nat
  en_tab1 :: nat
  en_tab2 :: nat

definition entry_text :: "string \<Rightarrow> entry \<Rightarrow> string" where
  "entry_text modPath e =
     (modPath @ ''/'' @ go_join ''/'' (en_path e) @ '':'' @ utoa (en_line e) @ '':'') @ replicate (Suc (en_tab1 e)) (CHR 0x09) @
     en_name e @ replicate (Suc (en_tab2 e)) (CHR 0x09) @ percent (en_tenths e) @ ''%''"

text \<open>The columns are aligned with tabs, in the last line too; the more, the longer the paths.\<close>

definition total_text :: "nat \<Rightarrow> nat \<Rightarrow> nat \<Rightarrow> string" where
  "total_text t1 t2 n =
     ''total:'' @ replicate (Suc t1) (CHR 0x09) @ ''(statements)'' @ replicate (Suc t2) (CHR 0x09) @ percent n @ ''%''"

text \<open>What \<open>go tool cover -func\<close> prints, and when an entry is as the tool prints them.\<close>

definition listing :: "string \<Rightarrow> entry list \<Rightarrow> nat \<Rightarrow> nat \<Rightarrow> nat \<Rightarrow> string" where
  "listing modPath es t1 t2 tot = concat (map (\<lambda>l. l @ [CHR 0x0A]) (map (entry_text modPath) es @ [total_text t1 t2 tot]))"

definition path_char :: "char \<Rightarrow> bool" where
  "path_char c \<longleftrightarrow> visible c \<and> c \<noteq> CHR '':''"

definition entry_ok :: "string \<Rightarrow> entry \<Rightarrow> bool" where
  "entry_ok modPath e \<longleftrightarrow> en_path e \<noteq> [] \<and> list_all plain_elem (en_path e) \<and> list_all (list_all path_char) (en_path e) \<and>
     int (en_line e) \<le> int64_max \<and> word (en_name e) \<and> en_tenths e \<le> 1000 \<and> length (entry_text modPath e) < 65536"

text \<open>The entry as the tool keeps it.\<close>

definition entry_fn :: "string list \<Rightarrow> entry \<Rightarrow> crap_fn" where
  "entry_fn ds e = \<lparr>fn_file = abs_path (ds @ en_path e), fn_line = int (en_line e), fn_name = en_name e,
     fn_coverage = f64_div (to_f64 (of_nat (en_tenths e) / 10)) (Fin 100), fn_complexity = 0\<rparr>"

lemma go_join_set: "c \<in> set (go_join sep ws) \<Longrightarrow> c \<in> set sep \<or> (\<exists>w \<in> set ws. c \<in> set w)"
  by (induction sep ws rule: go_join.induct) auto

text \<open>A string of one class of characters.\<close>

lemma visible_utoa: "list_all visible (utoa n)"
  using utoa_digits digit_char_visible by (fastforce simp: list_all_iff)

lemma visible_percent: "word (percent n @ ''%'')" "trim_suffix (percent n @ ''%'') ''%'' = percent n"
  using visible_utoa [of "n div 10"] digit_char_visible [of "n mod 10"]
  by (simp_all add: word_def percent_def visible_def trim_suffix_def has_prefix_def)

lemma entry_location:
  assumes "entry_ok modPath e" "list_all path_char modPath"
  shows "list_all path_char (modPath @ ''/'' @ go_join ''/'' (en_path e))"
    "word (modPath @ ''/'' @ go_join ''/'' (en_path e) @ '':'' @ utoa (en_line e) @ '':'')"
proof -
  have "path_char (CHR ''/'')" by (simp add: path_char_def visible_def)
  then show p: "list_all path_char (modPath @ ''/'' @ go_join ''/'' (en_path e))"
    using assms go_join_set [of _ "''/''" "en_path e"] by (fastforce simp: entry_ok_def list_all_iff)
  have "visible (CHR '':'')" by (simp add: visible_def)
  with p visible_utoa [of "en_line e"]
  show "word (modPath @ ''/'' @ go_join ''/'' (en_path e) @ '':'' @ utoa (en_line e) @ '':'')"
    by (auto simp: word_def path_char_def list_all_iff)
qed

lemma entry_fields:
  assumes "entry_ok modPath e" "list_all path_char modPath"
  shows "Fields (entry_text modPath e) =
    [modPath @ ''/'' @ go_join ''/'' (en_path e) @ '':'' @ utoa (en_line e) @ '':'', en_name e, percent (en_tenths e) @ ''%'']"
proof -
  have n: "word (en_name e)" using assms(1) by (simp add: entry_ok_def)
  show ?thesis
    unfolding entry_text_def fields_next [OF entry_location(2) [OF assms]] fields_next [OF n] fields_end [OF visible_percent(1)] ..
qed

lemma location_split:
  assumes "entry_ok modPath e" "list_all path_char modPath"
  shows "go_split (CHR '':'') (modPath @ ''/'' @ go_join ''/'' (en_path e) @ '':'' @ utoa (en_line e) @ '':'') =
    [modPath @ ''/'' @ go_join ''/'' (en_path e), utoa (en_line e), []]"
proof -
  let ?p = "modPath @ ''/'' @ go_join ''/'' (en_path e)"
  have "CHR '':'' \<notin> set ?p" using entry_location(1) [OF assms] by (auto simp: list_all_iff path_char_def)
  moreover have "CHR '':'' \<notin> set (utoa (en_line e))"
  proof -
    have "digit_char d \<noteq> CHR '':''" if "d < 10" for d using byte_digit_char [OF that] that by auto
    then show ?thesis using utoa_digits by metis
  qed
  ultimately show ?thesis
    using go_split_append [of "CHR '':''" ?p "utoa (en_line e) @ '':''"] go_split_append [of "CHR '':''" "utoa (en_line e)" "[]"]
    by simp
qed

lemma entry_line:
  assumes "entry_ok modPath e" "list_all path_char modPath" "list_all plain_elem ds"
  shows "cover_line modPath (abs_path ds) (entry_text modPath e) (fns, tot) = Inr (fns @ [entry_fn ds e], tot)"
proof -
  have e: "en_tenths e \<le> 1000" "list_all plain_elem (en_path e)" "int (en_line e) \<le> int64_max" using assms(1) by (auto simp: entry_ok_def)
  let ?loc = "modPath @ ''/'' @ go_join ''/'' (en_path e) @ '':'' @ utoa (en_line e) @ '':''"
  have "in_int64 (int (en_line e))" using e(3) by (simp add: in_int64_def int64_min_def)
  then have a: "atoi (utoa (en_line e)) = Some (int (en_line e))" using atoi_itoa [of "int (en_line e)"] by (simp add: itoa_def)
  have t: "?loc \<noteq> ''total:''"
  proof
    assume l: "?loc = ''total:''"
    have "CHR ''/'' \<in> set ?loc" by simp
    then show False unfolding l by simp
  qed
  have p: "trim_prefix (modPath @ ''/'' @ q) (modPath @ ''/'') = q" for q by (simp add: trim_prefix_def has_prefix_def)
  have l: "last [?loc, en_name e, percent (en_tenths e) @ ''%''] = percent (en_tenths e) @ ''%''"
    "length [?loc, en_name e, percent (en_tenths e) @ ''%''] = 3"
    "hd [?loc, en_name e, percent (en_tenths e) @ ''%''] = ?loc" "[?loc, en_name e, percent (en_tenths e) @ ''%''] ! 1 = en_name e" by auto
  show ?thesis
    unfolding cover_line_def prod.case Let_def entry_fields [OF assms(1,2)] l visible_percent(2)
      ParseFloat_percent(1) [OF e(1)] option.case location_split [OF assms(1,2)] if_not_P [OF t] list.sel p Join_abs [OF assms(3) e(2)]
    by (simp add: a entry_fn_def)
qed

lemma utoa_short: "length (utoa n) \<le> Suc n"
proof (induction n rule: utoa.induct)
  case (1 n)
  then show ?case by (cases "n < 10") (auto simp: utoa.simps [of n])
qed

lemma plain_line_tabs:
  assumes "list_all visible a" "list_all visible b" "list_all visible c" "c \<noteq> []"
    and "length (a @ replicate m (CHR 0x09) @ b @ replicate n (CHR 0x09) @ c) < 65536"
  shows "plain_line (a @ replicate m (CHR 0x09) @ b @ replicate n (CHR 0x09) @ c)"
proof -
  have v: "visible x \<Longrightarrow> x \<noteq> CHR 0x0A \<and> x \<noteq> CHR 0x0D" for x by (auto simp: visible_def)
  have "last c \<in> set c" using assms(4) by simp
  with assms v show ?thesis by (auto simp: plain_line_def list_all_iff)
qed

lemma entry_plain:
  assumes "entry_ok modPath e" "list_all path_char modPath"
  shows "plain_line (entry_text modPath e)"
  using entry_location(2) [OF assms] assms(1) visible_percent(1) [of "en_tenths e"] unfolding entry_text_def entry_ok_def word_def
  by (intro plain_line_tabs) simp_all

lemma total_line:
  assumes "n \<le> 1000"
  shows "length (total_text t1 t2 n) < 65536 \<Longrightarrow> plain_line (total_text t1 t2 n)"
    "cover_line modPath modDir (total_text t1 t2 n) (fns, tot) = Inr (fns, to_f64 (of_nat n / 10))"
proof -
  have w: "word ''total:''" "word ''(statements)''" by (simp_all add: word_def visible_def)
  with visible_percent(1) [of n] show "length (total_text t1 t2 n) < 65536 \<Longrightarrow> plain_line (total_text t1 t2 n)"
    unfolding total_text_def word_def by (intro plain_line_tabs) simp_all
  have f: "Fields (total_text t1 t2 n) = [''total:'', ''(statements)'', percent n @ ''%'']"
    unfolding total_text_def fields_next [OF w(1)] fields_next [OF w(2)] fields_end [OF visible_percent(1)] ..
  show "cover_line modPath modDir (total_text t1 t2 n) (fns, tot) = Inr (fns, to_f64 (of_nat n / 10))"
    unfolding cover_line_def prod.case Let_def f using ParseFloat_percent(1) [OF assms] visible_percent(2) [of n] by simp
qed

lemma entries_lines:
  "list_all (entry_ok modPath) es \<Longrightarrow> list_all path_char modPath \<Longrightarrow> list_all plain_elem ds \<Longrightarrow> n \<le> 1000 \<Longrightarrow>
   cover_lines modPath (abs_path ds) (map (entry_text modPath) es @ [total_text t1 t2 n]) (fns, tot) =
     Inr (fns @ map (entry_fn ds) es, to_f64 (of_nat n / 10))"
proof (induction es arbitrary: fns)
  case Nil
  then show ?case using total_line(2) [of n modPath "abs_path ds" t1 t2 fns tot] by simp
next
  case (Cons e es)
  then have "cover_line modPath (abs_path ds) (entry_text modPath e) (fns, tot) = Inr (fns @ [entry_fn ds e], tot)"
    by (intro entry_line) simp_all
  with Cons show ?case by simp
qed

text \<open>The tool reads back what the go command prints.  For a module and its directory, and a
  listing with one line per function and the total at the end, \<open>module\<close> and \<open>coverFunc\<close> give
  exactly those functions, in order, each with the path of its file in that directory, its
  line, its name and its percentage as a double, and the total; and \<open>rel\<close> prints the path
  the listing has.\<close>

theorem listing_roundtrip:
  assumes "list_all (entry_ok modPath) es" "tot \<le> 1000" "word modPath" "list_all path_char modPath"
    and "list_all plain_elem ds" "word (abs_path ds)" "length (total_text t1 t2 tot) < 65536"
  shows "covered (Inr (modPath @ [CHR 0x09] @ abs_path ds @ [CHR 0x0A])) (Inr (listing modPath es t1 t2 tot)) =
      Inr (map (entry_fn ds) es, to_f64 (of_nat tot / 10)) \<and>
    list_all (\<lambda>e. rel (fn_file (entry_fn ds e)) (abs_path ds) = go_join ''/'' (en_path e)) es"
proof -
  have "trim_space (modPath @ [CHR 0x09] @ abs_path ds @ [CHR 0x0A]) = modPath @ [CHR 0x09] @ abs_path ds"
    using assms(3,6) by (rule trim_newline)
  moreover have "CHR 0x09 \<notin> set modPath" using assms(3) by (auto simp: word_def visible_def list_all_iff)
  then have "takeWhile (\<lambda>c. c \<noteq> CHR 0x09) (modPath @ [CHR 0x09] @ abs_path ds) = modPath"
    by (auto simp: takeWhile_append)
  ultimately have m: "module (Inr (modPath @ [CHR 0x09] @ abs_path ds @ [CHR 0x0A])) = Inr (modPath, abs_path ds)"
    by (simp add: module_def Let_def)
  have "list_all plain_line (map (entry_text modPath) es @ [total_text t1 t2 tot])"
    using assms(1) entry_plain [OF _ assms(4)] total_line(1) [OF assms(2,7)] by (auto simp: list_all_iff)
  then have "scan_lines (listing modPath es t1 t2 tot) = map (entry_text modPath) es @ [total_text t1 t2 tot]"
    unfolding listing_def by (rule scan_plain)
  then have "coverFunc (Inr (listing modPath es t1 t2 tot)) modPath (abs_path ds) =
      Inr (map (entry_fn ds) es, to_f64 (of_nat tot / 10))"
    unfolding coverFunc_def using entries_lines [OF assms(1,4,5,2), of t1 t2 "[]" "Fin (-1)"] ParseFloat_percent(2) [OF assms(2)] by simp
  moreover have "list_all (\<lambda>e. rel (fn_file (entry_fn ds e)) (abs_path ds) = go_join ''/'' (en_path e)) es"
    using assms(1) rel_abs [OF assms(5)] by (simp add: list_all_iff entry_fn_def entry_ok_def del: append.simps)
  ultimately show ?thesis unfolding covered_def m by simp
qed

lemma listing_roundtrip_witness:
  "case covered (Inr (''m'' @ [CHR 0x09] @ ''/src'' @ [CHR 0x0A]))
       (Inr (listing ''m'' [\<lparr>en_path = [''a'', ''b.go''], en_line = 3, en_name = ''f'', en_tenths = 875, en_tab1 = 2, en_tab2 = 0\<rparr>] 4 1 900)) of
     Inl e \<Rightarrow> False
   | Inr (fns, tot) \<Rightarrow> map fn_file fns = [''/src/a/b.go''] \<and> map (\<lambda>f. rel (fn_file f) ''/src'') fns = [''a/b.go''] \<and> tot = to_f64 90"
proof -
  let ?e = "\<lparr>en_path = [''a'', ''b.go''], en_line = 3, en_name = ''f'', en_tenths = 875, en_tab1 = 2, en_tab2 = 0\<rparr>"
  have "length (utoa 3) \<le> 4" "length (utoa 87) \<le> 88" "length (utoa 90) \<le> 91"
    using utoa_short [of 3] utoa_short [of 87] utoa_short [of 90] by simp_all
  then have "entry_ok ''m'' ?e" "length (total_text 4 1 900) < 65536"
    by (simp_all add: total_text_def entry_ok_def plain_elem_def path_char_def visible_def word_def int64_max_def entry_text_def percent_def)
  with listing_roundtrip [of "''m''" "[?e]" 900 "[''src'']" 4 1] show ?thesis
    by (simp add: word_def path_char_def visible_def plain_elem_def entry_fn_def)
qed

end
