(* ===== verification/CrapReport.thy ===== *)
theory CrapReport
  imports CrapProfile
begin

text \<open>
  What \<open>tools/crap\<close> prints (\<open>main.go\<close>, the two calls of \<open>fmt.Printf\<close>), with \<open>%.1f\<close> of
  \<open>strconv\<close>: the exact decimal value of the double, rounded to one digit, ties to even.  The
  percentages of a listing come out as they went in, although they pass through three
  roundings of double arithmetic.
\<close>

section \<open>Printing\<close>

definition fixed1 :: "f64 \<Rightarrow> string" where
  "fixed1 x = (case x of
     Fin q \<Rightarrow> (if q < 0 then ''-'' else []) @ percent (nat (rne (\<bar>q\<bar> * 10)))
   | PosInf \<Rightarrow> ''+Inf'' | NegInf \<Rightarrow> ''-Inf'' | NaN \<Rightarrow> ''NaN'')"

definition pad_right :: "nat \<Rightarrow> string \<Rightarrow> string" where
  "pad_right w s = s @ replicate (w - length s) (CHR '' '')"

definition pad_left :: "nat \<Rightarrow> string \<Rightarrow> string" where
  "pad_left w s = replicate (w - length s) (CHR '' '') @ s"

text \<open>A line of stdout; a fatal error goes to stderr.\<close>

fun line_text :: "string \<Rightarrow> crap_line \<Rightarrow> string" where
  "line_text modDir (FnLine f score) =
     pad_right 7 (fixed1 score) @ '' cyclo='' @ pad_right 3 (itoa (fn_complexity f)) @
     '' cov='' @ pad_left 5 (fixed1 (f64_mul (fn_coverage f) (Fin 100))) @ ''%  '' @
     rel (fn_file f) modDir @ '':'' @ itoa (fn_line f) @ '' '' @ fn_name f @ [CHR 0x0A]"
| "line_text modDir (TotalLine tot min_cov n bound over) =
     ''total coverage: '' @ fixed1 tot @ ''% (min '' @ fixed1 min_cov @ ''%), functions: '' @ itoa n @
     '', CRAP > '' @ fixed1 bound @ '': '' @ itoa over @ [CHR 0x0A]"
| "line_text modDir _ = []"

section \<open>Rounding errors\<close>

lemma rne_near:
  assumes "\<bar>x - of_int n\<bar> < 1 / 2"
  shows "rne x = n"
proof -
  have d: "x - of_int n < 1 / 2" "of_int n - x < 1 / 2" using assms by linarith+
  show ?thesis
  proof (cases "of_int n \<le> x")
    case True
    then have "\<lfloor>x\<rfloor> = n" using d by (intro floor_unique) auto
    with d(1) show ?thesis by (simp add: rne_def Let_def)
  next
    case False
    then have "\<lfloor>x\<rfloor> = n - 1" using d by (intro floor_unique) auto
    with d(2) show ?thesis by (simp add: rne_def Let_def)
  qed
qed

lemma rne_error: "\<bar>of_int (rne x) - x\<bar> \<le> 1 / 2"
proof -
  have "of_int \<lfloor>x\<rfloor> \<le> x" "x < of_int \<lfloor>x\<rfloor> + 1" by linarith+
  then show ?thesis by (auto simp: rne_def Let_def)
qed

lemma round53_error:
  assumes "0 \<le> x" "x \<le> pow2 k" "- 1022 \<le> k"
  shows "\<bar>round53 x - x\<bar> \<le> pow2 (k - 53)"
proof (cases "x = 0")
  case False
  define u where "u = ulp_exp x"
  have "bin_exp x \<le> bin_exp (pow2 k)" using assms False by (intro bin_exp_mono) auto
  also have "bin_exp (pow2 k) = k" by (rule bin_exp_unique) (simp_all add: pow2_Suc)
  finally have u: "u \<le> k - 52" using assms(3) by (simp add: u_def ulp_exp_def)
  have "round53 x - x = (of_int (rne (x / pow2 u)) - x / pow2 u) * pow2 u"
    using assms(1) False by (simp add: round53_def round_pos_def u_def algebra_simps)
  then have "\<bar>round53 x - x\<bar> = \<bar>of_int (rne (x / pow2 u)) - x / pow2 u\<bar> * pow2 u" by (simp add: abs_mult)
  also have "\<dots> \<le> 1 / 2 * pow2 u" by (intro mult_right_mono rne_error) simp
  also have "\<dots> \<le> 1 / 2 * pow2 (k - 52)" using u by simp
  also have "\<dots> = pow2 (k - 53)" using pow2_Suc [of "k - 53"] by simp
  finally show ?thesis .
qed (simp add: round53_def)

lemma to_f64_error:
  assumes "0 \<le> x" "x \<le> pow2 k" "- 1022 \<le> k" "k < 1024"
  obtains r where "to_f64 x = Fin r" "0 \<le> r" "\<bar>r - x\<bar> \<le> pow2 (k - 53)"
proof
  have "round53 x \<le> pow2 k" using assms by (intro round53_le representable_pow2) auto
  also have "pow2 k < pow2 1024" using assms(4) by simp
  also have "pow2 1024 = 2 ^ 1024" by (simp add: pow2_def)
  finally have "round53 x < 2 ^ 1024" .
  moreover show "0 \<le> round53 x" using assms(1) by (rule round53_nonneg)
  ultimately show "to_f64 x = Fin (round53 x)" by (simp add: to_f64_def Let_def)
  show "\<bar>round53 x - x\<bar> \<le> pow2 (k - 53)" using assms(1-3) by (rule round53_error)
qed

lemma fixed1_near:
  assumes "0 \<le> q" "\<bar>q * 10 - of_nat n\<bar> < 1 / 2"
  shows "fixed1 (Fin q) = percent n"
  using assms rne_near [of "q * 10" "int n"] by (simp add: fixed1_def)

text \<open>The total, and the percentage of a function, which was divided by 100 and multiplied
  again.\<close>

lemma percent_shown:
  assumes "n \<le> 1000"
  shows "fixed1 (to_f64 (of_nat n / 10)) = percent n"
    "fixed1 (f64_mul (f64_div (to_f64 (of_nat n / 10)) (Fin 100)) (Fin 100)) = percent n"
proof -
  have p: "pow2 7 = 128" "pow2 1 = 2" "pow2 8 = 256" by (simp_all add: pow2_def)
  have e: "pow2 (7 - 53) = 1 / 2 ^ 46" "pow2 (1 - 53) = 1 / 2 ^ 52" "pow2 (8 - 53) = 1 / 2 ^ 45"
    by (simp_all add: pow2_def)
  have s: "(1 :: rat) / 2 ^ 46 \<le> 1 / 10000" "(1 :: rat) / 2 ^ 52 \<le> 1 / 1000000" "(1 :: rat) / 2 ^ 45 \<le> 1 / 10000" by simp_all
  have n: "(of_nat n :: rat) \<le> 1000" using of_nat_mono [OF assms, where 'a = rat] by simp
  obtain r where r: "to_f64 (of_nat n / 10) = Fin r" "0 \<le> r" "\<bar>r - of_nat n / 10\<bar> \<le> 1 / 2 ^ 46"
    using to_f64_error [of "of_nat n / 10" 7] n unfolding p e by auto
  show "fixed1 (to_f64 (of_nat n / 10)) = percent n"
    unfolding r(1) using r(2,3) by (intro fixed1_near) (auto simp: abs_le_iff abs_less_iff field_simps)
  have "r \<le> 101" using r(3) n s(1) unfolding abs_le_iff by linarith
  then obtain c where c: "to_f64 (r / 100) = Fin c" "0 \<le> c" "\<bar>c - r / 100\<bar> \<le> 1 / 2 ^ 52"
    using to_f64_error [of "r / 100" 1] r(2) unfolding p e by auto
  have "c \<le> 2" using c(3) s(2) \<open>r \<le> 101\<close> unfolding abs_le_iff by linarith
  then obtain d where d: "to_f64 (c * 100) = Fin d" "0 \<le> d" "\<bar>d - c * 100\<bar> \<le> 1 / 2 ^ 45"
    using to_f64_error [of "c * 100" 8] c(2) unfolding p e by auto
  have "\<bar>d * 10 - of_nat n\<bar> < 1 / 2" using r(3) c(3) d(3) s unfolding abs_le_iff abs_less_iff by linarith
  then show "fixed1 (f64_mul (f64_div (to_f64 (of_nat n / 10)) (Fin 100)) (Fin 100)) = percent n"
    using fixed1_near [OF d(2)] by (simp add: r(1) c(1) d(1))
qed

section \<open>From the listing to the report\<close>

definition entry_report :: "entry \<Rightarrow> f64 \<Rightarrow> gint \<Rightarrow> string" where
  "entry_report e score c =
     pad_right 7 (fixed1 score) @ '' cyclo='' @ pad_right 3 (itoa c) @ '' cov='' @ pad_left 5 (percent (en_tenths e)) @ ''%  '' @
     go_join ''/'' (en_path e) @ '':'' @ utoa (en_line e) @ '' '' @ en_name e @ [CHR 0x0A]"

text \<open>C40: the report shows what the go command listed.  For a module and its directory, and a
  listing with one line per function and the total at the end, its columns aligned by any
  number of tabs, the tool reads back exactly those functions, in order, and the total; and
  whatever score and complexity it gives a function, its line in the report has the path, the
  line, the name and the percentage of the listing, digit for digit, and so has the total.\<close>

theorem report_shows_listing:
  assumes "list_all (entry_ok modPath) es" "tot \<le> 1000" "word modPath" "list_all path_char modPath"
    and "list_all plain_elem ds" "word (abs_path ds)" "length (total_text t1 t2 tot) < 65536"
  shows "\<exists>fns t. covered (Inr (modPath @ [CHR 0x09] @ abs_path ds @ [CHR 0x0A])) (Inr (listing modPath es t1 t2 tot)) = Inr (fns, t) \<and>
    fixed1 t = percent tot \<and>
    list_all2 (\<lambda>f e. \<forall>score c. line_text (abs_path ds) (FnLine (f\<lparr>fn_complexity := c\<rparr>) score) = entry_report e score c) fns es"
proof -
  let ?shown = "\<lambda>f e. \<forall>score c. line_text (abs_path ds) (FnLine (f\<lparr>fn_complexity := c\<rparr>) score) = entry_report e score c"
  note rt = listing_roundtrip [OF assms]
  have "?shown (entry_fn ds e) e" if "e \<in> set es" for e
  proof -
    have "entry_ok modPath e" using assms(1) that by (simp add: list_all_iff)
    then have "en_tenths e \<le> 1000" by (simp add: entry_ok_def)
    from percent_shown(2) [OF this]
    have c: "fixed1 (f64_mul (fn_coverage (entry_fn ds e)) (Fin 100)) = percent (en_tenths e)" by (simp add: entry_fn_def)
    have "rel (fn_file (entry_fn ds e)) (abs_path ds) = go_join ''/'' (en_path e)"
      using rt that by (simp add: list_all_iff del: append.simps)
    moreover have "fn_line (entry_fn ds e) = int (en_line e)" "fn_name (entry_fn ds e) = en_name e" by (simp_all add: entry_fn_def)
    ultimately show ?thesis using c by (simp add: entry_report_def itoa_def del: append.simps)
  qed
  then have "list_all2 ?shown (map (entry_fn ds) es) es" by (simp add: list_all2_map1 list.rel_refl_strong)
  with rt percent_shown(1) [OF assms(2)] show ?thesis by blast
qed

lemma report_shows_listing_witness:
  "\<exists>f t. covered (Inr (''m'' @ [CHR 0x09] @ ''/src'' @ [CHR 0x0A]))
      (Inr (listing ''m'' [\<lparr>en_path = [''a'', ''b.go''], en_line = 3, en_name = ''f'', en_tenths = 875, en_tab1 = 2, en_tab2 = 0\<rparr>] 4 1 900)) =
      Inr ([f], t) \<and> fixed1 t = percent 900 \<and>
    line_text ''/src'' (FnLine (f\<lparr>fn_complexity := 2\<rparr>) (Fin 2)) =
      pad_right 7 (fixed1 (Fin 2)) @ '' cyclo='' @ pad_right 3 (itoa 2) @ '' cov='' @ pad_left 5 (percent 875) @ ''%  a/b.go:'' @
      utoa 3 @ '' f'' @ [CHR 0x0A]"
proof -
  let ?e = "\<lparr>en_path = [''a'', ''b.go''], en_line = 3, en_name = ''f'', en_tenths = 875, en_tab1 = 2, en_tab2 = 0\<rparr>"
  have "length (utoa 3) \<le> 4" "length (utoa 87) \<le> 88" "length (utoa 90) \<le> 91"
    using utoa_short [of 3] utoa_short [of 87] utoa_short [of 90] by simp_all
  then have "entry_ok ''m'' ?e" "length (total_text 4 1 900) < 65536"
    by (simp_all add: total_text_def entry_ok_def plain_elem_def path_char_def visible_def word_def int64_max_def entry_text_def percent_def)
  then have "\<exists>fns t. covered (Inr (''m'' @ [CHR 0x09] @ abs_path [''src''] @ [CHR 0x0A])) (Inr (listing ''m'' [?e] 4 1 900)) = Inr (fns, t) \<and>
      fixed1 t = percent 900 \<and>
      list_all2 (\<lambda>f e. \<forall>score c. line_text (abs_path [''src'']) (FnLine (f\<lparr>fn_complexity := c\<rparr>) score) = entry_report e score c) fns [?e]"
    by (intro report_shows_listing) (simp_all add: word_def path_char_def visible_def plain_elem_def)
  then show ?thesis by (auto simp: list_all2_Cons2 entry_report_def)
qed

end
