(* ===== verification/ExecProcess.thy ===== *)
theory ExecProcess
  imports Proc
begin

text \<open>
  A child of the exec spawner from its start to the read of its exit (\<open>execProcess\<close> in
  \<open>proc/exec.go\<close>): the system calls on it, the reaping goroutine and the \<open>Done\<close> channel.
  The kernel is part of the state: what a signal to the child brings about, how the child
  ends when its group is killed, and whether it ends during a grace period.  Its one
  documented property is \<open>kernel_ok\<close>: \<open>SIGKILL\<close> to the group of a running child succeeds
  and cannot be caught.  \<open>process_laws\<close> is interpreted here, so \<open>Terminate\<close> is proved for
  real children too.
\<close>

section \<open>A child\<close>

text \<open>How a child ends: what it has written, its wait status, and the error of \<open>Wait\<close>.\<close>

type_synonym ending = "string list \<times> wait_status \<times> wait_error option"

text \<open>\<open>k_signal\<close> is the error of \<open>kill\<close> on the child, or what follows it; \<open>k_group\<close> the \<open>kill\<close>
  system call on the group; \<open>k_killed\<close> how the child ends after it; \<open>k_grace\<close> whether the
  child ends by itself within a grace period, and whether \<open>Done\<close> is ready by its end.\<close>

record kernel =
  k_signal :: "signal \<Rightarrow> string + ending option"
  k_group :: "int \<Rightarrow> signal \<Rightarrow> errno option"
  k_killed :: ending
  k_grace :: "duration \<Rightarrow> ending option \<times> bool"

text \<open>\<open>ch_ended\<close> is set when the child has exited and \<open>Wait\<close> has not yet returned, \<open>ch_done\<close> is
  the buffer of the channel.\<close>

record child =
  ch_ep :: execProcess
  ch_kernel :: kernel
  ch_ended :: "ending option"
  ch_done :: "Exit option"
  ch_closed :: bool

definition exec_start :: "kernel \<Rightarrow> execProcess \<Rightarrow> child" where
  "exec_start K p = \<lparr>ch_ep = p, ch_kernel = K, ch_ended = None, ch_done = None, ch_closed = False\<rparr>"

definition exec_running :: "child \<Rightarrow> bool" where
  "exec_running c \<longleftrightarrow> ch_ended c = None \<and> \<not> ch_closed c"

definition exec_PID :: "child \<Rightarrow> gint" where
  "exec_PID c = ep_pid (ch_ep c)"

text \<open>\<open>os.Process.Signal\<close>: a process that was waited for is done, a zombie takes any signal.\<close>

definition exec_Signal :: "child \<Rightarrow> signal \<Rightarrow> perr option \<times> child" where
  "exec_Signal c sig =
     (if ch_closed c then (Some ErrProcessDone, c)
      else if ch_ended c \<noteq> None then (None, c)
      else case k_signal (ch_kernel c) sig of
        Inl e \<Rightarrow> (Some (ErrProcess e), c)
      | Inr x \<Rightarrow> (None, c\<lparr>ch_ended := x\<rparr>))"

definition exec_Kill :: "child \<Rightarrow> perr option \<times> child" where
  "exec_Kill c =
     (let err = exec_KillGroup (k_group (ch_kernel c)) (ch_ep c)
      in (err, if exec_running c \<and> err = None then c\<lparr>ch_ended := Some (k_killed (ch_kernel c))\<rparr> else c))"

text \<open>The exit the reaping goroutine makes of an ending.\<close>

definition ending_exit :: "execProcess \<Rightarrow> ending \<Rightarrow> Exit" where
  "ending_exit p en = (case en of (chunks, state, err) \<Rightarrow> execProcess_wait (ep_output chunks p) state err)"

text \<open>The goroutine: it puts the exit of an ended child into the channel and closes it.\<close>

definition exec_wait :: "child \<Rightarrow> child" where
  "exec_wait c =
     (case ch_ended c of
        None \<Rightarrow> c
      | Some en \<Rightarrow> c\<lparr>ch_ended := None, ch_done := Some (ending_exit (ch_ep c) en), ch_closed := True\<rparr>)"

text \<open>A receive from \<open>Done\<close>; it waits for the goroutine, and for ever while the child runs.\<close>

definition exec_Done :: "child \<Rightarrow> Exit option \<times> child" where
  "exec_Done c =
     (let c = exec_wait c in
      case ch_done c of
        Some e \<Rightarrow> (Some e, c\<lparr>ch_done := None\<rparr>)
      | None \<Rightarrow> if ch_closed c then (Some zeroExit, c) else (None, c))"

definition exec_select :: "duration \<Rightarrow> child \<Rightarrow> Exit option \<times> child" where
  "exec_select grace c =
     (case k_grace (ch_kernel c) grace of (x, in_time) \<Rightarrow>
        let c = (if exec_running c then c\<lparr>ch_ended := x\<rparr> else c)
        in if in_time \<and> \<not> exec_running c then exec_Done c else (None, c))"

definition execProcess_ops :: "child Process" where
  "execProcess_ops = \<lparr>Process_PID = exec_PID, Process_Signal = exec_Signal, Process_KillGroup = exec_Kill,
     Process_Done = exec_Done\<rparr>"

section \<open>The interface\<close>

definition kernel_ok :: "kernel \<Rightarrow> bool" where
  "kernel_ok K \<longleftrightarrow> (\<forall>pid. k_group K pid SIGKILL = None)"

text \<open>A child whose exit nobody has read yet, and what its exit is going to be once it has
  ended.\<close>

definition exec_ok :: "child \<Rightarrow> bool" where
  "exec_ok c \<longleftrightarrow> (exec_running c \<longrightarrow> kernel_ok (ch_kernel c)) \<and> (ch_closed c \<longleftrightarrow> ch_done c \<noteq> None) \<and>
     (ch_closed c \<longrightarrow> ch_ended c = None)"

definition exec_ready :: "child \<Rightarrow> Exit \<Rightarrow> bool" where
  "exec_ready c e \<longleftrightarrow> exec_ok c \<and> ch_done (exec_wait c) = Some e"

lemmas exec_defs = exec_ok_def exec_ready_def exec_running_def exec_Signal_def exec_Kill_def exec_wait_def
  exec_Done_def execProcess_ops_def

interpretation exec: process_laws execProcess_ops exec_select exec_ok exec_ready
proof
  fix p q :: child and e s g
  show "exec_ready p e \<Longrightarrow> exec_ok p" by (simp add: exec_ready_def)
  show "exec_ok p \<Longrightarrow> exec_ok (snd (Process_Signal execProcess_ops p s))"
    by (auto simp: exec_defs split: sum.split)
  show "exec_ready p e \<Longrightarrow> Process_Signal execProcess_ops p s = (None, p) \<or>
      Process_Signal execProcess_ops p s = (Some ErrProcessDone, p)"
    by (cases "ch_ended p") (auto simp: exec_defs)
  show "exec_ok p \<Longrightarrow> \<exists>e. exec_ready (snd (Process_KillGroup execProcess_ops p)) e"
    by (cases "ch_ended p"; cases "ch_done p") (auto simp: exec_defs exec_KillGroup_def kernel_ok_def Let_def)
  show "exec_ready p e \<Longrightarrow> snd (Process_KillGroup execProcess_ops p) = p"
    by (cases "ch_ended p") (auto simp: exec_defs Let_def)
  show "exec_ready p e \<Longrightarrow> \<exists>q. Process_Done execProcess_ops p = (Some e, q)"
    by (auto simp: exec_ready_def exec_Done_def execProcess_ops_def)
  show "exec_ready p e \<Longrightarrow> exec_select g p = Process_Done execProcess_ops p \<or> exec_select g p = (None, p)"
    by (cases "ch_ended p") (auto simp: exec_defs exec_select_def split: prod.split)
  show "exec_ok p \<Longrightarrow> exec_select g p = (None, q) \<Longrightarrow> exec_ok q"
    by (cases "ch_ended p"; cases "ch_done p")
      (auto simp: exec_defs exec_select_def Let_def split: prod.splits if_splits option.splits)
qed

section \<open>Terminating a child\<close>

text \<open>How a running child ends under \<open>Terminate\<close>: by the signal, by itself within the grace
  period, or by the kill, which also follows a signal that could not be sent.\<close>

definition terminated_by :: "kernel \<Rightarrow> signal \<Rightarrow> duration \<Rightarrow> ending" where
  "terminated_by K sig grace =
     (case k_signal K sig of
        Inl e \<Rightarrow> k_killed K
      | Inr (Some en) \<Rightarrow> en
      | Inr None \<Rightarrow> (case fst (k_grace K grace) of Some en \<Rightarrow> en | None \<Rightarrow> k_killed K))"

text \<open>C34: \<open>Terminate\<close> on a real child.  For every child \<open>Spawn\<close> has started, it comes back with
  one exit, and the channel is closed after it: that of the child's own end when the signal
  or the grace period brought one, also when the reaping took longer than the grace period
  and the group was killed meanwhile; that of the kill otherwise.  The exit carries the last
  line the child had written to the selected stream by then.\<close>

theorem Terminate_exec:
  assumes "exec_Spawn environ start ctx_err spec = Inr p" "kernel_ok K"
  shows "let s = (case sig of None \<Rightarrow> SIGTERM | Some s \<Rightarrow> s);
           (chunks, state, err) = terminated_by K s grace;
           (r, c) = Terminate execProcess_ops exec_select (exec_start K p) sig grace
         in \<exists>e. r = Some e \<and> exec_Done c = (Some zeroExit, c) \<and> e = execProcess_wait (ep_output chunks p) state err \<and>
           Exit_Result e = (if Spec_ResultStream spec \<in> {Stdout, Stderr} then result_of (concat chunks) else [])"
proof -
  define s where "s = (case sig of None \<Rightarrow> SIGTERM | Some s \<Rightarrow> s)"
  obtain chunks state err where en: "terminated_by K s grace = (chunks, state, err)" by (metis prod_cases3)
  have kill: "k_group K pid SIGKILL = None" for pid using assms(2) by (simp add: kernel_ok_def)
  obtain x t where g: "k_grace K grace = (x, t)" by fastforce
  note d = Terminate_def deliver_def proc_kill_def exec_defs exec_KillGroup_def exec_start_def exec_select_def Let_def g kill
  have "Terminate execProcess_ops exec_select (exec_start K p) sig grace =
      (Some (ending_exit p (terminated_by K s grace)),
       \<lparr>ch_ep = p, ch_kernel = K, ch_ended = None, ch_done = None, ch_closed = True\<rparr>)"
  proof (cases "k_signal K s")
    case (Inl e)
    then show ?thesis by (simp add: d terminated_by_def flip: s_def)
  next
    case (Inr y)
    then show ?thesis
      by (cases y; cases x; cases t) (simp_all add: d terminated_by_def flip: s_def)
  qed
  then show ?thesis
    using exec_exit [OF assms(1), of chunks state err] en
    by (simp add: ending_exit_def exec_Done_def exec_wait_def flip: s_def)
qed

text \<open>A child that ignores the signal, and then does not.\<close>

definition stubborn :: kernel where
  "stubborn = \<lparr>k_signal = \<lambda>_. Inr None, k_group = \<lambda>_ _. None, k_killed = ([''4'', ''2'' @ [newline]], Signaled SIGKILL, Some ExitError),
     k_grace = \<lambda>_. (None, True)\<rparr>"

lemma Terminate_exec_witness:
  "\<exists>p e c. exec_Spawn [] (\<lambda>_. Inr 7) None demo_spec = Inr p \<and>
     Terminate execProcess_ops exec_select (exec_start stubborn p) None 5 = (Some e, c) \<and>
     Exit_Signal e = Some SIGKILL \<and> Exit_Result e = ''42''"
proof -
  obtain p where p: "exec_Spawn [] (\<lambda>_. Inr 7) None demo_spec = Inr p"
    by (simp add: exec_Spawn_def demo_spec_def Let_def)
  have k: "kernel_ok stubborn" by (simp add: kernel_ok_def stubborn_def)
  have t: "terminated_by stubborn SIGTERM 5 = ([''4'', ''2'' @ [newline]], Signaled SIGKILL, Some ExitError)"
    by (simp add: terminated_by_def stubborn_def)
  obtain r c where rc: "Terminate execProcess_ops exec_select (exec_start stubborn p) None 5 = (r, c)" by fastforce
  have "result_of (''42'' @ [newline]) = ''42''" by code_simp
  with Terminate_exec [OF p k, of None 5] t rc obtain e where
    "r = Some e" "e = execProcess_wait (ep_output [''4'', ''2'' @ [newline]] p) (Signaled SIGKILL) (Some ExitError)"
    "Exit_Result e = ''42''"
    by (auto simp: demo_spec_def stream_defs)
  moreover have "Exit_Signal (execProcess_wait q (Signaled SIGKILL) (Some ExitError)) = Some SIGKILL" for q
    by (simp add: execProcess_wait_def exitFrom_def waitFailed_def Let_def split: option.split)
  ultimately show ?thesis using p rc by auto
qed

end
