(* ===== verification/Worker.thy ===== *)
theory Worker
  imports ExecProcess PoolExits Durations
begin

text \<open>
  The child process of the test suite (\<open>test/worker/main.go\<close>): what it prints, what it logs
  and how it exits, for every environment and every way its \<open>select\<close> can end.  Composed with
  the spawner, the scanner and the pool it gives the chain the end-to-end tests rely on: the
  number in \<open>WORKER_RESULT\<close> is the number of workers that replace the one that printed it.
\<close>

section \<open>\<open>strconv.Atoi\<close> without its error\<close>






section \<open>The worker\<close>



definition getenv :: "(string \<Rightarrow> string option) \<Rightarrow> string \<Rightarrow> string" where
  "getenv env k = (case env k of None \<Rightarrow> [] | Some v \<Rightarrow> v)"



text \<open>The timer of the \<open>select\<close>; a duration that does not parse is no wait.\<close>

definition worker_sleep :: "(string \<Rightarrow> string option) \<Rightarrow> duration" where
  "worker_sleep env = (case ParseDuration (getenv env ''WORKER_SLEEP'') of None \<Rightarrow> 0 | Some d \<Rightarrow> d)"

text \<open>The signals that can end the \<open>select\<close>.\<close>

definition worker_hears :: "(string \<Rightarrow> string option) \<Rightarrow> signal \<Rightarrow> bool" where
  "worker_hears env sig \<longleftrightarrow> getenv env ''WORKER_IGNORE_TERM'' \<noteq> ''1'' \<and> (sig = SIGTERM \<or> sig = SIGINT)"









section \<open>From the environment of a worker to the next workers\<close>








end
