(* ===== verification/Spec2Isabelle.thy ===== *)
theory Spec2Isabelle
  imports RunProcess Requests HintLedger ClockFake Listener PoolTypes Registry RedisService Deadline CrapReport Worker
begin

text \<open>
  doorbell-pm runs pools of worker processes on demand: hints (``channel c has n tasks'')
  arrive over HTTP, over redis pub/sub and from timers, a dispatcher routes each to the pool
  that owns its channel, and the pool starts workers up to its concurrency, reaps them, and
  pauses itself when they fail too often.  This library models the Go sources of the service
  and proves what makes each part correct.

  \<^bold>\<open>How the parts interact.\<close>  \<open>main\<close> loads the yaml config (\<open>config.Load\<close>: expand, decode, resolve,
  validate) and builds an \<open>App\<close>: a pool, a breaker and a route for every enabled pool, the
  HTTP server, the redis source and the metrics listener as configured.  \<open>App.Run\<close> starts the
  poke tickers, the dispatcher goroutine and the sources; all hints pass through one
  buffered channel.  When the process is asked to stop, or a source fails, \<open>Run\<close> stops the
  sources, then the dispatcher, then every pool, each wait bounded by \<open>shutdown_timeout\<close>.

  \<^bold>\<open>Theories and sources.\<close>
  \<^item> \<open>Prelude\<close>: Go's 64-bit integers and their wrap-around, time and durations, Go maps as
    association lists, log lines.  \<open>Paths\<close>: infinite behaviours, fairness and descent.
    \<open>Float64\<close>: IEEE binary64 with round-to-nearest-even, computed on rationals.
    \<open>GoStrings\<close>: the functions of \<open>strings\<close>, \<open>bytes\<close>, \<open>strconv\<close> and \<open>os.Expand\<close> the code calls.
    \<open>GoFmt\<close>: \<open>fmt.Sprintf\<close> with the verbs the messages use, and \<open>strconv.Quote\<close>.
  \<^item> \<open>Config\<close> (\<open>config/config.go\<close>, \<open>types.go\<close>, the resolving half of \<open>resolve.go\<close>), \<open>Validate\<close>
    (the validating half), \<open>Messages\<close> (the texts of the errors of both), \<open>Durations\<close> (\<open>types.go\<close>: durations to text and back, with
    \<open>time.ParseDuration\<close> and \<open>time.Duration.String\<close> of the standard library).
  \<^item> \<open>Breaker\<close> (\<open>pool/breaker.go\<close>); \<open>PoolOps\<close> (\<open>pool/pool.go\<close>, \<open>poke.go\<close>, \<open>metrics.go\<close>: the record
    \<open>pool\<close> is the Go struct, one definition per locked section); \<open>PoolRun\<close> (the interleaving
    of hints, pokes, reapers, processes and \<open>Shutdown\<close> as the relation \<open>pool_step\<close>);
    \<open>PoolExits\<close> (what an exit does); \<open>PoolTypes\<close> (integer ranges).
  \<^item> \<open>LastLine\<close> (\<open>proc/lastline.go\<close>, \<open>pool/result.go\<close>); \<open>Proc\<close> (\<open>proc/proc.go\<close>, \<open>exec.go\<close>,
    \<open>terminate.go\<close> and the in-memory \<open>proctest/fake.go\<close>); \<open>ExecProcess\<close> (a child of \<open>exec.go\<close> from
    start to exit, over a kernel); \<open>Worker\<close> (the worker of the test suite, \<open>test/worker/main.go\<close>); \<open>ClockFake\<close> (\<open>clock/fake.go\<close>), \<open>Clock\<close>
    (\<open>clock/clock.go\<close>), \<open>Deadline\<close> (the \<open>ttl\<close> timer of \<open>pool.go\<close> on a clock).
  \<^item> \<open>Dispatcher\<close> (\<open>app/dispatcher.go\<close>, \<open>hint/hint.go\<close>); \<open>HttpApi\<close> (\<open>httpapi/hint.go\<close>, \<open>health.go\<close>,
    \<open>server.go\<close>); \<open>Listener\<close> (\<open>httpapi/listener.go\<close>); \<open>RedisIn\<close> (\<open>redisin/source.go\<close> as functions of what was
    received), \<open>RedisSession\<close> (the same loop as the relation \<open>rstep\<close> with \<open>closeOnCancel\<close> and the
    context); \<open>Metrics\<close> and \<open>Registry\<close> (\<open>metrics/metrics.go\<close>, \<open>collector.go\<close>: calls and gauges,
    registration and counters).
  \<^item> \<open>App\<close> (\<open>app/app.go\<close>: wiring, \<open>stop\<close>, \<open>shutdownPools\<close>), \<open>Service\<close> (\<open>App.Run\<close> as the relation
    \<open>svc_step\<close> over main goroutine, sources, channel, dispatcher and pools), \<open>ServiceRuns\<close>
    (finite runs), \<open>HintLedger\<close> (where every hint went, read back from logs and metrics),
    \<open>ServiceLive\<close> (infinite runs), \<open>Requests\<close> (the service with HTTP requests in
    flight, \<open>web_step\<close>), \<open>RedisService\<close> (the service with its redis source, \<open>fed_step\<close>), \<open>Cmd\<close>
    (\<open>cmd/doorbell-pm\<close>: verbs, what they print, exit codes, the output of \<open>check\<close>, the logger),
    \<open>RunProcess\<close> (the verb \<open>run\<close> around the service).
  \<^item> \<open>CrapTool\<close>, \<open>CrapProfile\<close>, \<open>CrapReport\<close> (\<open>tools/crap\<close>, the coverage gate of the repository:
    complexity, score and verdict; reading what the go command prints; the printed report).

  \<^bold>\<open>How state and effects are represented.\<close>  A struct is a record of the same name, an
  operation a function from the old state to its results and the new state.  An operation
  under a mutex is one atomic step; goroutines are interleaved by a step relation whose
  actions name what the scheduler, the operating system or a peer chose.  Errors are \<open>Inl\<close>,
  \<open>Some\<close> of a text or constructors of the component's own error type.  Log lines and
  metric calls are appended to lists of the state, so lemmas can speak of them.

  \<^bold>\<open>What the lemmas show.\<close>
  \<^item> Pools: how many workers a hint starts; the cap in every reachable interleaving; counters
    that account for every worker; no spawn during a cooldown or after \<open>Shutdown\<close>; \<open>Shutdown\<close>
    ends with every worker reaped (the measure \<open>drain\<close> falls with every step of a pool that is
    stopping); the \<open>ttl\<close> kill comes exactly when it is due; the straight-line \<open>reap\<close> is a run of \<open>pool_step\<close>.
  \<^item> Breaker: it implements \<open>spec_step since\<close>, a specification over the failure history that
    counts the failures since the last trip; with a window shorter than the cooldown that is
    \<open>spec_step sp_hist\<close>, the contract as the README words it over all failures (with the default
    settings an ok exit right after the cooldown resets the level earlier than the README
    says); the pause lies within its bounds, doubles as documented, and trips are rate limited.
  \<^item> Scanner and processes: the streaming \<open>lastLine\<close> equals the last non-blank line of the
    whole output (\<open>result_of\<close>); \<open>Terminate\<close> escalates only after the grace period, on the fake
    and on a real child; the count a worker prints is the number of workers that replace it.
  \<^item> Config: three-layer precedence, independence of map order, the validator accepts exactly
    \<open>valid_config\<close>, which is \<open>documented_config\<close> but for a NaN multiplier and the comparison of
    \<open>shutdown_timeout\<close> with \<open>grace_shutdown\<close>, its report has one line per violation, and durations survive printing and
    parsing for all 64-bit values.
  \<^item> Sources: requests accepted or refused as a whole, the redis pattern matches exactly the
    prefixed channels, reconnect waits follow \<open>nth_wait\<close>, the interleaved source does what its
    loop says and returns when its context ends, listeners return and say why.
  \<^item> Service: an accepted hint reaches its one pool; each pool of the service does a run of
    its own (\<open>pool_trace\<close>: refinement); every hint sent was taken by its pool, counted as a
    drop or is buffered (\<open>ledger\<close>); failures are reported and never block; a nil return is final; \<open>Run\<close> returns and hints are delivered under fair
    scheduling (\<open>fair\<close>: a step that stays enabled is taken; measure \<open>stop_measure\<close>).
  \<^item> Compositions: requests and the redis source take part in a run of the service without
    disturbing it; as long as no stop is asked for, an accepted request and a redis message
    become hint calls on the pool that owns their channel; the redis source ends with the
    service; exit code 0 of the process means a clean stop, and a signal or a failure ends it.
  \<^item> Metrics: registration and every call keep the client's documented preconditions, for a
    namespace that is a classic metric name, and the counters account for the running workers.
  \<^item> Coverage gate: exit code 2, 1 or 0 exactly by missing declarations, scores and total; a
    listing is read back and printed digit for digit.

  \<^bold>\<open>Interfaces.\<close>  \<open>process_laws\<close> is what \<open>Terminate\<close> needs of a \<open>proc.Process\<close>, interpreted on
  \<open>FakeProcess\<close> and on \<open>execProcess\<close> over a kernel whose \<open>SIGKILL\<close> works; \<open>hinter_laws\<close> is what the dispatcher needs of its \<open>Hinter\<close>, interpreted on the
  pools; \<open>clock_laws\<close> is what the pool needs of a \<open>clock.Clock\<close>, interpreted on \<open>FakeClock\<close> and
  kept by \<open>Real\<close> over every package \<open>time\<close> that keeps it; \<open>level\<close> is an instance of \<open>linorder\<close>.

  \<^bold>\<open>Bounds.\<close>  No definition uses fuel: loops recurse on their data or have a termination proof
  (\<open>parse_terms\<close>, \<open>quote_body\<close> and \<open>scan_lines\<close> by the length of the text, \<open>advance_loop\<close> by the
  deadlines that are due).  The
  cooldown results need pauses below \<open>2 ^ 53\<close> nanoseconds (104 days), where doubles are exact
  on integers; the reconnect results need \<open>reconnect_max\<close> at most \<open>2 ^ 62 - 1\<close>, where doubling
  does not wrap; the type result covers fewer than \<open>2 ^ 63\<close> steps.  The hint channel holds 64.

  \<^bold>\<open>Arguments of the model.\<close>  The yaml and JSON coders, the redis client, the prometheus
  client, the flag library, \<open>net.Listen\<close> and \<open>net/http\<close>, \<open>fork\<close> and signals of the kernel, the
  functions of package \<open>time\<close>, the parser of Go files, the output of the go command, and of
  \<open>fmt\<close> the table of printable runes and the shortest decimal of a double (\<open>%g\<close>): results of
  these are parameters or actions.

  \<^bold>\<open>Not modelled.\<close>  Help texts, yaml and JSON output and the layout of a log line, which are the
  libraries'; the interleaving of the log lines of the process on stderr; the no-op metrics, which do nothing; \<open>test/worker/workertest\<close>, which runs the go
  command; the texts of the fatal errors of \<open>tools/crap\<close>.  The score is computed with every
  operation rounded, as on machines where the compiler does not fuse.
  \<^bold>\<open>Left to do.\<close>  One relation for requests, redis source and listeners together; each is now
  composed with the service on its own.
\<close>

end
